(* ===== verification/Prelude.thy ===== *)
theory Prelude
  imports Main "HOL-Library.Word"
begin

text \<open>
  Shared ground of the development: the collections of rewrite rules that the
  component proofs draw on, and generic facts about lists and characters that
  several components need.
\<close>

section \<open>Collections\<close>

named_theorems clib_simps \<open>evaluation rules for the C library routines\<close>
named_theorems wire_simps \<open>byte layout and byte order of the agent-collector protocol\<close>
named_theorems fdset_simps \<open>membership after the fd_set operations\<close>
named_theorems row_simps \<open>what the collectors' output lines mean to the grapher\<close>

section \<open>Types shared by all programs\<close>

type_synonym u8 = "8 word"
type_synonym u16 = "16 word"
type_synonym u32 = "32 word"
type_synonym u64 = "64 word"
type_synonym bytes = "8 word list"

section \<open>Generic list facts\<close>

lemma takeWhile_append_stop:
  "\<forall>x \<in> set xs. P x \<Longrightarrow> \<not> P y \<Longrightarrow> takeWhile P (xs @ y # ys) = xs"
  by (induction xs) auto

lemma dropWhile_append_stop:
  "\<forall>x \<in> set xs. P x \<Longrightarrow> \<not> P y \<Longrightarrow> dropWhile P (xs @ y # ys) = y # ys"
  by (induction xs) auto

lemma takeWhile_all: "\<forall>x \<in> set xs. P x \<Longrightarrow> takeWhile P xs = xs"
  by (induction xs) auto

lemma dropWhile_all: "\<forall>x \<in> set xs. P x \<Longrightarrow> dropWhile P xs = []"
  by (induction xs) auto

lemma dropWhile_head: "xs \<noteq> [] \<Longrightarrow> \<not> P (hd xs) \<Longrightarrow> dropWhile P xs = xs"
  by (cases xs) auto

lemma length_dropWhile_less: "xs \<noteq> [] \<Longrightarrow> P (hd xs) \<Longrightarrow> length (dropWhile P xs) < length xs"
  by (cases xs) (auto simp: le_imp_less_Suc length_dropWhile_le)

lemma nth_list_update_plus:
  fixes xs :: "'a :: monoid_add list"
  shows "i < length xs \<Longrightarrow> (xs[i := xs ! i + d]) ! j = (if i = j then xs ! j + d else xs ! j)"
  by (simp add: nth_list_update)

section \<open>Loops that may fail\<close>

text \<open>A loop over a list whose body may fail; a failure ends it.\<close>

fun fold_opt :: "('a \<Rightarrow> 'b \<Rightarrow> 'b option) \<Rightarrow> 'a list \<Rightarrow> 'b \<Rightarrow> 'b option" where
  "fold_opt f [] b = Some b"
| "fold_opt f (x # xs) b = (case f x b of None \<Rightarrow> None | Some c \<Rightarrow> fold_opt f xs c)"

lemma fold_opt_Some:
  "(\<And>x b. x \<in> set xs \<Longrightarrow> f x b = Some (g x b)) \<Longrightarrow> fold_opt f xs b = Some (fold g xs b)"
  by (induction xs arbitrary: b) simp_all

lemma fold_append_map: "fold (\<lambda>x cs. cs @ g x) xs cs = cs @ concat (map g xs)"
  by (induction xs arbitrary: cs) simp_all

lemma fold_invariant_on:
  "P b \<Longrightarrow> (\<And>x b. x \<in> set xs \<Longrightarrow> P b \<Longrightarrow> P (f x b)) \<Longrightarrow> P (fold f xs b)"
  by (induction xs arbitrary: b) auto

lemma fold_pair: "fold (\<lambda>x (a, b). (f x a, h x b)) xs (a, b) = (fold f xs a, fold h xs b)"
  by (induction xs arbitrary: a b) simp_all

lemma fold_max:
  fixes f :: "'a \<Rightarrow> 'b :: linorder"
  defines "r \<equiv> \<lambda>xs a. fold (\<lambda>x m. if m < f x then f x else m) xs a"
  shows "a \<le> r xs a" and "x \<in> set xs \<Longrightarrow> f x \<le> r xs a" and "r xs a = a \<or> (\<exists>x \<in> set xs. r xs a = f x)"
proof -
  have "a \<le> r xs a \<and> (\<forall>x \<in> set xs. f x \<le> r xs a) \<and> (r xs a = a \<or> (\<exists>x \<in> set xs. r xs a = f x))" for a
    unfolding r_def
  proof (induction xs arbitrary: a)
    case (Cons y ys)
    show ?case using Cons [of "if a < f y then f y else a"] by auto
  qed simp
  then show "a \<le> r xs a" "x \<in> set xs \<Longrightarrow> f x \<le> r xs a" "r xs a = a \<or> (\<exists>x \<in> set xs. r xs a = f x)" by auto
qed

end
