(* ===== verification/CLib.thy ===== *)
theory CLib
  imports Prelude "HOL-Library.Char_ord"
begin

text \<open>
  The parts of the C library the programs call on text: searching and cutting
  strings, \<open>strtok\<close>, the decimal conversions, decimal printing, \<open>fgets\<close> and
  \<open>timersub\<close>. A C string is the list of its characters before the terminating
  NUL. \<open>strtol\<close> and \<open>strtoul\<close> clamp as the C standard says (64-bit \<open>long\<close>),
  \<open>atoi\<close> keeps the low 32 bits of \<open>strtol\<close>, as glibc does.
\<close>

section \<open>Characters\<close>

definition is_digit :: "char \<Rightarrow> bool" where
  "is_digit c \<longleftrightarrow> 48 \<le> (of_char c :: nat) \<and> (of_char c :: nat) \<le> 57"

definition digit_val :: "char \<Rightarrow> nat" where
  "digit_val c = of_char c - 48"

definition digit_char :: "nat \<Rightarrow> char" where
  "digit_char n = char_of (48 + n)"

definition is_space :: "char \<Rightarrow> bool" where
  "is_space c \<longleftrightarrow> (of_char c :: nat) = 32 \<or> (9 \<le> (of_char c :: nat) \<and> (of_char c :: nat) \<le> 13)"

lemma of_char_digit_char: "n < 10 \<Longrightarrow> (of_char (digit_char n) :: nat) = 48 + n"
  by (simp add: digit_char_def)

lemma is_digit_digit_char [simp]: "n < 10 \<Longrightarrow> is_digit (digit_char n)"
  by (simp add: is_digit_def of_char_digit_char)

lemma digit_val_digit_char [simp]: "n < 10 \<Longrightarrow> digit_val (digit_char n) = n"
  by (simp add: digit_val_def of_char_digit_char)

lemma digit_not_space: "is_digit c \<Longrightarrow> \<not> is_space c"
  by (auto simp: is_digit_def is_space_def)

lemma digit_neq [simp]:
  "is_digit c \<Longrightarrow> c \<noteq> CHR ''-''" "is_digit c \<Longrightarrow> c \<noteq> CHR ''+''"
  "is_digit c \<Longrightarrow> c \<noteq> CHR '':''" "is_digit c \<Longrightarrow> c \<noteq> CHR ''.''"
  "is_digit c \<Longrightarrow> c \<noteq> CHR ''X''" "is_digit c \<Longrightarrow> c \<noteq> CHR ''C''"
  "is_digit c \<Longrightarrow> c \<noteq> CHR ''M''" "is_digit c \<Longrightarrow> c \<noteq> CHR ''=''"
  "is_digit c \<Longrightarrow> c \<noteq> CHR ''#''" "is_digit c \<Longrightarrow> c \<noteq> CHR 0x0A"
  by (auto simp: is_digit_def)

section \<open>Cutting strings\<close>

text \<open>\<open>strchr(s, c)\<close> followed by a store of NUL: the string ends at the first \<open>c\<close>.\<close>

definition cut_at :: "char \<Rightarrow> string \<Rightarrow> string" where
  "cut_at c s = takeWhile (\<lambda>x. x \<noteq> c) s"

text \<open>\<open>strchr\<close> as a split: what is before the first \<open>c\<close>, and what follows it.\<close>

definition split_first :: "char \<Rightarrow> string \<Rightarrow> (string \<times> string) option" where
  "split_first c s = (if c \<in> set s
     then Some (takeWhile (\<lambda>x. x \<noteq> c) s, tl (dropWhile (\<lambda>x. x \<noteq> c) s)) else None)"

text \<open>\<open>strrchr\<close> as a split.\<close>

definition split_last :: "char \<Rightarrow> string \<Rightarrow> (string \<times> string) option" where
  "split_last c s = (case split_first c (rev s) of None \<Rightarrow> None
     | Some (a, b) \<Rightarrow> Some (rev b, rev a))"

definition strncmp_eq :: "string \<Rightarrow> string \<Rightarrow> bool" where
  "strncmp_eq pat s \<longleftrightarrow> take (length pat) s = pat"

lemma split_first_append [simp]: "c \<notin> set a \<Longrightarrow> split_first c (a @ c # b) = Some (a, b)"
  unfolding split_first_def
  by (subst takeWhile_append_stop, blast, blast, subst dropWhile_append_stop, blast, blast) simp

lemma split_first_none [simp]: "c \<notin> set s \<Longrightarrow> split_first c s = None"
  by (simp add: split_first_def)

lemma split_first_SomeD:
  "split_first c s = Some (a, b) \<Longrightarrow> s = a @ c # b \<and> c \<notin> set a"
proof -
  assume h: "split_first c s = Some (a, b)"
  then have cs: "c \<in> set s" and a: "a = takeWhile (\<lambda>x. x \<noteq> c) s"
    and b: "b = tl (dropWhile (\<lambda>x. x \<noteq> c) s)"
    by (auto simp: split_first_def split: if_splits)
  obtain u v where uv: "s = u @ c # v" "c \<notin> set u"
    using split_list_first [OF cs] by auto
  then have "split_first c s = Some (u, v)" by simp
  with h uv show ?thesis by simp
qed

lemma cut_at_id [simp]: "c \<notin> set s \<Longrightarrow> cut_at c s = s"
  unfolding cut_at_def by (rule takeWhile_all) auto

lemma cut_at_append [simp]: "c \<notin> set a \<Longrightarrow> cut_at c (a @ c # b) = a"
  unfolding cut_at_def by (rule takeWhile_append_stop) auto

lemma cut_at_free [simp]: "c \<notin> set (cut_at c s)"
  by (auto simp: cut_at_def dest: set_takeWhileD)

lemma set_cut_at: "x \<in> set (cut_at c s) \<Longrightarrow> x \<in> set s"
  by (auto simp: cut_at_def dest: set_takeWhileD)

lemma cut_at_upd: "i < length xs \<Longrightarrow> cut_at c (xs[i := c]) = cut_at c (take i xs)"
proof -
  assume i: "i < length xs"
  show ?thesis unfolding cut_at_def upd_conv_take_nth_drop [OF i]
    by (simp add: takeWhile_append takeWhile_all)
qed

lemma cut_at_upd_length: "length (cut_at c (xs[i := c])) \<le> i"
proof (cases "i < length xs")
  case True
  then show ?thesis using length_takeWhile_le [of "\<lambda>x. x \<noteq> c" "take i xs"]
    by (simp add: cut_at_upd) (simp add: cut_at_def)
next
  case False
  then show ?thesis using length_takeWhile_le [of "\<lambda>x. x \<noteq> c" xs]
    by (simp add: cut_at_def list_update_beyond)
qed

section \<open>strtok\<close>

text \<open>
  The hidden state of \<open>strtok\<close> is the text after the last token. A call skips
  leading delimiters, fails at the end of the text, and otherwise returns the
  token and steps over the one delimiter that ended it.
\<close>

definition strtok :: "string \<Rightarrow> string \<Rightarrow> (string \<times> string) option" where
  "strtok ds s = (let t = dropWhile (\<lambda>c. c \<in> set ds) s in
     if t = [] then None
     else Some (takeWhile (\<lambda>c. c \<notin> set ds) t, drop 1 (dropWhile (\<lambda>c. c \<notin> set ds) t)))"

lemma strtok_none: "\<forall>c \<in> set s. c \<in> set ds \<Longrightarrow> strtok ds s = None"
  by (simp add: strtok_def)

lemma strtok_token [clib_simps]:
  assumes "t \<noteq> []" and "\<forall>c \<in> set t. c \<notin> set ds" and "d \<in> set ds"
  shows "strtok ds (t @ d # r) = Some (t, r)"
proof -
  have "dropWhile (\<lambda>c. c \<in> set ds) (t @ d # r) = t @ d # r"
    using assms by (intro dropWhile_head) (auto simp: hd_append)
  then show ?thesis using assms
    by (simp add: strtok_def takeWhile_append_stop dropWhile_append_stop)
qed

lemma strtok_last:
  assumes "t \<noteq> []" and "\<forall>c \<in> set t. c \<notin> set ds"
  shows "strtok ds t = Some (t, [])"
proof -
  have "dropWhile (\<lambda>c. c \<in> set ds) t = t"
    using assms by (intro dropWhile_head) auto
  then show ?thesis using assms by (simp add: strtok_def takeWhile_all dropWhile_all)
qed

lemma strtok_skip: "d \<in> set ds \<Longrightarrow> strtok ds (d # s) = strtok ds s"
  by (simp add: strtok_def)

lemma strtok_shrinks: "strtok ds s = Some (t, r) \<Longrightarrow> length r < length s"
proof -
  assume h: "strtok ds s = Some (t, r)"
  define u where "u = dropWhile (\<lambda>c. c \<in> set ds) s"
  from h have "u \<noteq> []" and r: "r = drop 1 (dropWhile (\<lambda>c. c \<notin> set ds) u)"
    by (auto simp: strtok_def u_def Let_def split: if_splits)
  then have "length r < length u"
    using length_dropWhile_le [of "\<lambda>c. c \<notin> set ds" u] by (cases u) auto
  also have "length u \<le> length s" unfolding u_def by (rule length_dropWhile_le)
  finally show ?thesis .
qed

section \<open>Decimal conversions\<close>

definition dec_value :: "string \<Rightarrow> nat" where
  "dec_value ds = foldl (\<lambda>a c. 10 * a + digit_val c) 0 ds"

text \<open>White space and one sign, as \<open>strtol\<close> and \<open>strtoul\<close> skip them.\<close>

definition sign_split :: "string \<Rightarrow> bool \<times> string" where
  "sign_split s = (case dropWhile is_space s of
       [] \<Rightarrow> (False, [])
     | c # t \<Rightarrow> if c = CHR ''-'' then (True, t)
                else if c = CHR ''+'' then (False, t) else (False, c # t))"

definition strtol10 :: "string \<Rightarrow> int" where
  "strtol10 s = (case sign_split s of (neg, t) \<Rightarrow>
     let v = int (dec_value (takeWhile is_digit t)) in
     max (- (2 ^ 63)) (min (2 ^ 63 - 1) (if neg then - v else v)))"

definition strtoul10 :: "string \<Rightarrow> u64" where
  "strtoul10 s = (case sign_split s of (neg, t) \<Rightarrow>
     let v = dec_value (takeWhile is_digit t) in
     if v \<ge> 2 ^ 64 then - 1 else if neg then - of_nat v else of_nat v)"

definition atoi :: "string \<Rightarrow> int" where
  "atoi s = sint (word_of_int (strtol10 s) :: 32 word)"

abbreviation "atol \<equiv> strtol10"

section \<open>Decimal printing\<close>

fun show_nat :: "nat \<Rightarrow> string" where
  "show_nat n = (if n < 10 then [digit_char n] else show_nat (n div 10) @ [digit_char (n mod 10)])"

declare show_nat.simps [simp del]

definition show_int :: "int \<Rightarrow> string" where
  "show_int i = (if i < 0 then CHR ''-'' # show_nat (nat (- i)) else show_nat (nat i))"

text \<open>\<open>%06d\<close>: the sign counts as one of the six columns.\<close>

definition zero_pad :: "nat \<Rightarrow> string \<Rightarrow> string" where
  "zero_pad n s = replicate (n - length s) (CHR ''0'') @ s"

definition show_06d :: "int \<Rightarrow> string" where
  "show_06d i = (if i < 0 then CHR ''-'' # zero_pad 5 (show_nat (nat (- i)))
                 else zero_pad 6 (show_nat (nat i)))"

lemma show_nat_digits: "\<forall>c \<in> set (show_nat n). is_digit c"
proof (induction n rule: show_nat.induct)
  case (1 n)
  then show ?case by (cases "n < 10") (auto simp: show_nat.simps [of n])
qed

lemma show_nat_nonempty [simp]: "show_nat n \<noteq> []"
  by (subst show_nat.simps) simp

lemma dec_value_snoc: "dec_value (s @ [c]) = 10 * dec_value s + digit_val c"
  by (simp add: dec_value_def)

lemma dec_value_show_nat [simp]: "dec_value (show_nat n) = n"
proof (induction n rule: show_nat.induct)
  case (1 n)
  show ?case
  proof (cases "n < 10")
    case True
    then show ?thesis by (subst show_nat.simps) (simp add: dec_value_def)
  next
    case False
    with 1 show ?thesis by (subst show_nat.simps) (simp add: dec_value_snoc)
  qed
qed

lemma show_nat_inject [simp]: "show_nat m = show_nat n \<longleftrightarrow> m = n"
  by (metis dec_value_show_nat)

lemma sign_split_digit:
  "s \<noteq> [] \<Longrightarrow> is_digit (hd s) \<Longrightarrow> sign_split s = (False, s)"
proof -
  assume a: "s \<noteq> []" "is_digit (hd s)"
  then have "dropWhile is_space s = s" by (intro dropWhile_head) (auto dest: digit_not_space)
  with a show ?thesis by (cases s) (auto simp: sign_split_def)
qed

lemma hd_show_nat [simp]: "is_digit (hd (show_nat n))"
  using show_nat_digits [of n] hd_in_set [OF show_nat_nonempty [of n]] by blast

lemma takeWhile_show_nat:
  "r = [] \<or> \<not> is_digit (hd r) \<Longrightarrow> takeWhile is_digit (show_nat n @ r) = show_nat n"
proof -
  assume "r = [] \<or> \<not> is_digit (hd r)"
  then show ?thesis
    by (cases r) (auto intro: takeWhile_append_stop takeWhile_all simp: show_nat_digits)
qed

lemma strtol10_show_nat [clib_simps]:
  "r = [] \<or> \<not> is_digit (hd r) \<Longrightarrow> n < 2 ^ 63 \<Longrightarrow> strtol10 (show_nat n @ r) = int n"
  by (simp add: strtol10_def sign_split_digit hd_append takeWhile_show_nat Let_def)

lemma strtoul10_show_nat [clib_simps]:
  "r = [] \<or> \<not> is_digit (hd r) \<Longrightarrow> n < 2 ^ 64 \<Longrightarrow> strtoul10 (show_nat n @ r) = of_nat n"
  by (simp add: strtoul10_def sign_split_digit hd_append takeWhile_show_nat Let_def)

lemma atoi_small: "strtol10 s = v \<Longrightarrow> - (2 ^ 31) \<le> v \<Longrightarrow> v < 2 ^ 31 \<Longrightarrow> atoi s = v"
  by (simp add: atoi_def signed_of_int signed_take_bit_int_eq_self)

lemma atoi_show_nat [clib_simps]:
  "r = [] \<or> \<not> is_digit (hd r) \<Longrightarrow> n < 2 ^ 31 \<Longrightarrow> atoi (show_nat n @ r) = int n"
  by (rule atoi_small) (simp_all add: strtol10_show_nat)

lemma atoi_bounds: "- (2 ^ 31) \<le> atoi s \<and> atoi s < 2 ^ 31"
  using sint_greater_eq [of "word_of_int (strtol10 s) :: 32 word"]
    sint_less [of "word_of_int (strtol10 s) :: 32 word"]
  by (simp add: atoi_def)

lemma show_06d_nonneg: "0 \<le> i \<Longrightarrow> \<forall>c \<in> set (show_06d i). is_digit c"
  using show_nat_digits by (auto simp: show_06d_def zero_pad_def is_digit_def)

lemma show_06d_chars: "c \<in> set (show_06d i) \<Longrightarrow> is_digit c \<or> c = CHR ''-''"
  using show_nat_digits by (auto simp: show_06d_def zero_pad_def is_digit_def split: if_splits)

section \<open>fgets\<close>

text \<open>
  \<open>fgets(buf, n, f)\<close>: at most \<open>n - 1\<close> characters, up to and including the first
  newline; nothing when no character is left. The caller sees the string up to
  the first NUL it read.
\<close>

definition BUFSIZ :: nat where "BUFSIZ = 8192"

definition fgets :: "nat \<Rightarrow> string \<Rightarrow> (string \<times> string) option" where
  "fgets n f = (if f = [] \<or> n \<le> 1 then None
     else let pre = takeWhile (\<lambda>c. c \<noteq> CHR 0x0A) f;
              k = min (n - 1) (min (length f) (Suc (length pre)))
          in Some (cut_at (CHR 0x00) (take k f), drop k f))"

lemma fgets_shrinks: "fgets n f = Some (l, r) \<Longrightarrow> length r < length f"
  by (auto simp: fgets_def Let_def split: if_splits)

lemma fgets_length: "fgets n f = Some (l, r) \<Longrightarrow> length l < n"
proof -
  assume h: "fgets n f = Some (l, r)"
  define k where "k = min (n - 1) (min (length f) (Suc (length (takeWhile (\<lambda>c. c \<noteq> CHR 0x0A) f))))"
  have l: "l = cut_at (CHR 0x00) (take k f)" and n: "1 < n"
    using h by (auto simp: fgets_def k_def Let_def split: if_splits)
  have "length l \<le> length (take k f)"
    unfolding l cut_at_def by (rule length_takeWhile_le)
  also have "\<dots> \<le> n - 1" by (simp add: k_def)
  finally show ?thesis using n by simp
qed

lemma fgets_line [clib_simps]:
  assumes "CHR 0x0A \<notin> set l" and "CHR 0x00 \<notin> set l" and "length l + 2 \<le> n"
  shows "fgets n (l @ CHR 0x0A # r) = Some (l @ [CHR 0x0A], r)"
proof -
  have "takeWhile (\<lambda>c. c \<noteq> CHR 0x0A) (l @ CHR 0x0A # r) = l"
    using assms(1) by (intro takeWhile_append_stop) auto
  moreover have "cut_at (CHR 0x00) (l @ [CHR 0x0A]) = l @ [CHR 0x0A]"
    using assms(2) by (intro cut_at_id) auto
  ultimately show ?thesis using assms(3) by (simp add: fgets_def Let_def)
qed

lemma fgets_nil [clib_simps]: "fgets n [] = None"
  by (simp add: fgets_def)

lemma strncmp_eq_append [simp]: "strncmp_eq p (p @ s)"
  by (simp add: strncmp_eq_def)

lemma length_show_nat_bound: "n < 10 ^ k \<Longrightarrow> 0 < k \<Longrightarrow> length (show_nat n) \<le> k"
proof (induction k arbitrary: n)
  case 0
  then show ?case by simp
next
  case (Suc k)
  show ?case
  proof (cases "n < 10")
    case True
    then show ?thesis by (subst show_nat.simps) simp
  next
    case False
    then have "n div 10 < 10 ^ k" "0 < k" using Suc.prems(1) by (auto intro: gr0I)
    with Suc.IH have "length (show_nat (n div 10)) \<le> k" by blast
    with False show ?thesis by (subst show_nat.simps) simp
  qed
qed

lemma length_show_nat_u64: "n < 2 ^ 64 \<Longrightarrow> length (show_nat n) \<le> 20"
  by (rule length_show_nat_bound) auto

lemma show_nat_neq: "c \<in> set (show_nat n) \<Longrightarrow> is_digit c"
  using show_nat_digits by blast

lemma show_nat_plain [simp]:
  "CHR 0x0A \<notin> set (show_nat n)" "CHR 0x00 \<notin> set (show_nat n)" "CHR '' '' \<notin> set (show_nat n)"
  "CHR '':'' \<notin> set (show_nat n)" "CHR 0x09 \<notin> set (show_nat n)"
  using show_nat_digits [of n] by (auto simp: is_digit_def)

section \<open>timersub\<close>

text \<open>A \<open>struct timeval\<close> as seconds and microseconds; \<open>timersub\<close> borrows one second.\<close>

definition timersub :: "int \<times> int \<Rightarrow> int \<times> int \<Rightarrow> int \<times> int" where
  "timersub a b = (let s = fst a - fst b; u = snd a - snd b in
     if u < 0 then (s - 1, u + 1000000) else (s, u))"

lemma timersub_total: "1000000 * fst (timersub a b) + snd (timersub a b) =
    (1000000 * fst a + snd a) - (1000000 * fst b + snd b)"
  by (simp add: timersub_def Let_def algebra_simps)

lemma timersub_range:
  "0 \<le> snd a \<Longrightarrow> snd a < 1000000 \<Longrightarrow> 0 \<le> snd b \<Longrightarrow> snd b < 1000000 \<Longrightarrow>
   0 \<le> snd (timersub a b) \<and> snd (timersub a b) < 1000000"
  by (auto simp: timersub_def Let_def)

end
