(* ===== verification/Wire.thy ===== *)
theory Wire
  imports Prelude
begin

text \<open>
  The agent-collector protocol: \<open>struct wire\<close> of \<open>ftfm.h\<close>, the byte order
  routines, and the 28 bytes that \<open>send\<close> and \<open>recv\<close> exchange. A record of type
  \<open>wire\<close> holds the members as the processor reads them from memory; what a member
  is as bytes depends on the byte order of the host, so every operation that
  touches memory takes it as an argument.
\<close>

unbundle bit_operations_syntax

section \<open>Byte order\<close>

datatype endian = Little | Big

definition byte_of :: "nat \<Rightarrow> 'a::len word \<Rightarrow> u8" where
  "byte_of k w = ucast (drop_bit (8 * k) w)"

definition join2 :: "u8 \<Rightarrow> u8 \<Rightarrow> u16" where
  "join2 hi lo = push_bit 8 (ucast hi) OR ucast lo"

definition join4 :: "u8 \<Rightarrow> u8 \<Rightarrow> u8 \<Rightarrow> u8 \<Rightarrow> u32" where
  "join4 a b c d = push_bit 24 (ucast a) OR push_bit 16 (ucast b) OR push_bit 8 (ucast c) OR ucast d"

fun store16 :: "endian \<Rightarrow> u16 \<Rightarrow> bytes" where
  "store16 Big w = [byte_of 1 w, byte_of 0 w]"
| "store16 Little w = [byte_of 0 w, byte_of 1 w]"

fun store32 :: "endian \<Rightarrow> u32 \<Rightarrow> bytes" where
  "store32 Big w = [byte_of 3 w, byte_of 2 w, byte_of 1 w, byte_of 0 w]"
| "store32 Little w = [byte_of 0 w, byte_of 1 w, byte_of 2 w, byte_of 3 w]"

fun load16 :: "endian \<Rightarrow> u8 \<Rightarrow> u8 \<Rightarrow> u16" where
  "load16 Big a b = join2 a b"
| "load16 Little a b = join2 b a"

fun load32 :: "endian \<Rightarrow> u8 \<Rightarrow> u8 \<Rightarrow> u8 \<Rightarrow> u8 \<Rightarrow> u32" where
  "load32 Big a b c d = join4 a b c d"
| "load32 Little a b c d = join4 d c b a"

text \<open>\<open>htons\<close>, \<open>ntohs\<close>, \<open>htonl\<close>, \<open>ntohl\<close>: the identity or a byte swap.\<close>

fun htons :: "endian \<Rightarrow> u16 \<Rightarrow> u16" where
  "htons Big w = w"
| "htons Little w = join2 (byte_of 0 w) (byte_of 1 w)"

fun htonl :: "endian \<Rightarrow> u32 \<Rightarrow> u32" where
  "htonl Big w = w"
| "htonl Little w = join4 (byte_of 0 w) (byte_of 1 w) (byte_of 2 w) (byte_of 3 w)"

abbreviation "ntohs \<equiv> htons"
abbreviation "ntohl \<equiv> htonl"

lemma byte_of_join2 [wire_simps]: "byte_of 0 (join2 a b) = b" "byte_of (Suc 0) (join2 a b) = a"
  by (rule bit_word_eqI; auto simp: byte_of_def join2_def bit_simps dest: bit_imp_le_length)+

lemma byte_of_join4 [wire_simps]:
  "byte_of 0 (join4 a b c d) = d" "byte_of (Suc 0) (join4 a b c d) = c"
  "byte_of 2 (join4 a b c d) = b" "byte_of 3 (join4 a b c d) = a"
  by (rule bit_word_eqI; auto simp: byte_of_def join4_def bit_simps dest: bit_imp_le_length)+

lemma join2_bytes [wire_simps]: "join2 (byte_of (Suc 0) w) (byte_of 0 w) = w"
  by (rule bit_word_eqI) (auto simp: byte_of_def join2_def bit_simps)

lemma join4_bytes [wire_simps]:
  "join4 (byte_of 3 w) (byte_of 2 w) (byte_of (Suc 0) w) (byte_of 0 w) = w"
proof (rule bit_word_eqI)
  fix n assume "n < LENGTH(32)"
  then consider "n < 8" | "8 \<le> n" "n < 16" | "16 \<le> n" "n < 24" | "24 \<le> n" "n < 32"
    by fastforce
  then show "bit (join4 (byte_of 3 w) (byte_of 2 w) (byte_of (Suc 0) w) (byte_of 0 w)) n = bit w n"
    by cases (auto simp: byte_of_def join4_def bit_simps less_diff_conv2)
qed

lemma htons_htons [simp]: "htons e (htons e w) = w"
  by (cases e) (simp_all add: wire_simps)

lemma htonl_htonl [simp]: "htonl e (htonl e w) = w"
  by (cases e) (simp_all add: wire_simps)

text \<open>What \<open>htonl\<close> is for: stored, its result is big-endian on every host.\<close>

lemma store16_htons [wire_simps]: "store16 e (htons e w) = store16 Big w"
  by (cases e) (simp_all add: wire_simps)

lemma store32_htonl [wire_simps]: "store32 e (htonl e w) = store32 Big w"
  by (cases e) (simp_all add: wire_simps)

lemma ntohs_load16 [wire_simps]: "ntohs e (load16 e a b) = join2 a b"
  by (cases e) (simp_all add: wire_simps)

lemma ntohl_load32 [wire_simps]: "ntohl e (load32 e a b c d) = join4 a b c d"
  by (cases e) (simp_all add: wire_simps)

lemma htons_inject [simp]: "htons e v = htons e w \<longleftrightarrow> v = w"
  by (metis htons_htons)

lemma htonl_inject [simp]: "htonl e v = htonl e w \<longleftrightarrow> v = w"
  by (metis htonl_htonl)

section \<open>struct wire\<close>

record wire =
  sec :: u32
  usec :: u32
  saddr :: u32
  daddr :: u32
  sport :: u16
  dport :: u16
  len :: u16
  flowid :: u32
  proto :: u8
  encapped :: u8

definition FLOWID_CPU :: u32 where "FLOWID_CPU = 0xFFFFFFFF"
definition FLOWID_MEM :: u32 where "FLOWID_MEM = 0xFFFFFFFE"

definition wire_zero :: wire where
  "wire_zero = \<lparr>sec = 0, usec = 0, saddr = 0, daddr = 0, sport = 0, dport = 0, len = 0,
     flowid = 0, proto = 0, encapped = 0\<rparr>"

text \<open>The members in declaration order, without padding (\<open>__packed__\<close>).\<close>

definition wire_store :: "endian \<Rightarrow> wire \<Rightarrow> bytes" where
  "wire_store e w = store32 e (sec w) @ store32 e (usec w) @ store32 e (saddr w) @
     store32 e (daddr w) @ store16 e (sport w) @ store16 e (dport w) @ store16 e (len w) @
     store32 e (flowid w) @ [proto w, encapped w]"

fun wire_load :: "endian \<Rightarrow> bytes \<Rightarrow> wire option" where
  "wire_load e [s0, s1, s2, s3, u0, u1, u2, u3, a0, a1, a2, a3, d0, d1, d2, d3,
      p0, p1, q0, q1, l0, l1, f0, f1, f2, f3, pr, en] =
     Some \<lparr>sec = load32 e s0 s1 s2 s3, usec = load32 e u0 u1 u2 u3,
       saddr = load32 e a0 a1 a2 a3, daddr = load32 e d0 d1 d2 d3,
       sport = load16 e p0 p1, dport = load16 e q0 q1, len = load16 e l0 l1,
       flowid = load32 e f0 f1 f2 f3, proto = pr, encapped = en\<rparr>"
| "wire_load e _ = None"

definition WIRE_SIZE :: nat where "WIRE_SIZE = 28"

lemma length_wire_store [simp]: "length (wire_store e w) = WIRE_SIZE"
  by (cases e) (simp_all add: wire_store_def WIRE_SIZE_def)

lemma wire_load_store [simp]: "wire_load e (wire_store e w) = Some w"
  by (cases e) (simp_all add: wire_store_def wire_simps)

text \<open>
  A host's wire record as the other host loads it: the members that went through
  \<open>htonl\<close> and \<open>htons\<close> keep their value, the two byte members are untouched, and a
  member stored raw is byte-swapped exactly when the hosts disagree.
\<close>

definition transfer :: "endian \<Rightarrow> endian \<Rightarrow> wire \<Rightarrow> wire option" where
  "transfer e1 e2 w = wire_load e2 (wire_store e1 w)"

definition swap32 :: "endian \<Rightarrow> endian \<Rightarrow> u32 \<Rightarrow> u32" where
  "swap32 e1 e2 w = (if e1 = e2 then w else htonl Little w)"

lemma transfer_eq: "transfer e1 e2 w = Some \<lparr>sec = htonl e2 (htonl e1 (sec w)),
   usec = htonl e2 (htonl e1 (usec w)), saddr = htonl e2 (htonl e1 (saddr w)),
   daddr = htonl e2 (htonl e1 (daddr w)), sport = htons e2 (htons e1 (sport w)),
   dport = htons e2 (htons e1 (dport w)), len = htons e2 (htons e1 (len w)),
   flowid = htonl e2 (htonl e1 (flowid w)), proto = proto w, encapped = encapped w\<rparr>"
  by (cases e1; cases e2) (simp_all add: transfer_def wire_store_def wire_simps)

section \<open>Fixed-width codecs and streams of messages\<close>

text \<open>
  TCP delivers bytes, not messages. The reader relies on the codec for two things
  only: all messages have the same positive length, and decoding undoes encoding.
  Everything about cutting a stream into messages follows from these.
\<close>

locale fixed_codec =
  fixes enc :: "'m \<Rightarrow> 'b list" and dec :: "'b list \<Rightarrow> 'm option" and n :: nat
  assumes enc_length: "length (enc m) = n"
    and dec_enc: "dec (enc m) = Some m"
    and n_pos: "0 < n"
begin

lemma enc_nonempty: "enc m \<noteq> []"
  using enc_length [of m] n_pos by auto

lemma take_message: "take n (enc m @ rest) = enc m"
  by (simp add: enc_length)

lemma drop_message: "drop n (enc m @ rest) = rest"
  by (simp add: enc_length)

lemma enc_inj: "enc m = enc m' \<Longrightarrow> m = m'"
  by (metis dec_enc option.inject)

lemma stream_inj: "concat (map enc ms) = concat (map enc ms') \<Longrightarrow> ms = ms'"
proof (induction ms arbitrary: ms')
  case Nil
  then show ?case by (cases ms') (auto simp: enc_nonempty)
next
  case (Cons m ms)
  then obtain m' t where ms': "ms' = m' # t"
    by (cases ms') (auto simp: enc_nonempty)
  with Cons.prems have eq: "enc m @ concat (map enc ms) = enc m' @ concat (map enc t)" by simp
  have "enc m = enc m'" using arg_cong [OF eq, of "take n"] by (simp add: enc_length)
  moreover have "concat (map enc ms) = concat (map enc t)"
    using arg_cong [OF eq, of "drop n"] by (simp add: enc_length)
  ultimately show ?case using Cons.IH [of t] enc_inj ms' by blast
qed

end

interpretation wire: fixed_codec "wire_store e" "wire_load e" WIRE_SIZE for e
  by unfold_locales (simp_all add: WIRE_SIZE_def)

end
