(* ===== verification/Fdset.thy ===== *)
theory Fdset
  imports Prelude
begin

text \<open>
  \<open>fd_set\<close>: a bit field of \<open>FD_SETSIZE\<close> descriptors, which the programs use for
  open connections and, in \<open>recollect\<close>, for system numbers as well. The build
  defines \<open>_FORTIFY_SOURCE\<close>, so an index outside the field aborts the program;
  the operations on a C \<open>int\<close> return None there.
\<close>

section \<open>The bit field\<close>

type_synonym fd_set = "1024 word"

definition FD_SETSIZE :: nat where "FD_SETSIZE = 1024"

definition fd_zero :: fd_set where "fd_zero = 0"

definition fd_add :: "nat \<Rightarrow> fd_set \<Rightarrow> fd_set" where
  "fd_add i s = set_bit i s"

definition fd_remove :: "nat \<Rightarrow> fd_set \<Rightarrow> fd_set" where
  "fd_remove i s = unset_bit i s"

definition fd_has :: "fd_set \<Rightarrow> nat \<Rightarrow> bool" where
  "fd_has s i = bit s i"

definition fd_ok :: "int \<Rightarrow> bool" where
  "fd_ok i \<longleftrightarrow> 0 \<le> i \<and> i < int FD_SETSIZE"

definition FD_SET :: "int \<Rightarrow> fd_set \<Rightarrow> fd_set option" where
  "FD_SET i s = (if fd_ok i then Some (fd_add (nat i) s) else None)"

definition FD_CLR :: "int \<Rightarrow> fd_set \<Rightarrow> fd_set option" where
  "FD_CLR i s = (if fd_ok i then Some (fd_remove (nat i) s) else None)"

definition FD_ISSET :: "int \<Rightarrow> fd_set \<Rightarrow> bool option" where
  "FD_ISSET i s = (if fd_ok i then Some (fd_has s (nat i)) else None)"

lemma fd_has_zero [simp, fdset_simps]: "\<not> fd_has fd_zero i"
  by (simp add: fd_has_def fd_zero_def)

lemma fd_has_add [fdset_simps]:
  "i < FD_SETSIZE \<Longrightarrow> fd_has (fd_add i s) j \<longleftrightarrow> i = j \<or> fd_has s j"
  by (auto simp: fd_has_def fd_add_def bit_set_bit_iff FD_SETSIZE_def)

lemma fd_has_remove [fdset_simps]: "fd_has (fd_remove i s) j \<longleftrightarrow> i \<noteq> j \<and> fd_has s j"
  by (auto simp: fd_has_def fd_remove_def bit_unset_bit_iff)

lemma fd_has_bound: "fd_has s i \<Longrightarrow> i < FD_SETSIZE"
  using bit_imp_le_length [of s i] by (simp add: fd_has_def FD_SETSIZE_def)

lemma fd_set_eqI: "(\<And>i. fd_has s i \<longleftrightarrow> fd_has t i) \<Longrightarrow> s = t"
  by (rule bit_word_eqI) (simp add: fd_has_def)

section \<open>The interface\<close>

text \<open>
  What the callers rely on: a bounded set of small numbers with insertion, removal
  and a membership test that determines it.
\<close>

locale bounded_set =
  fixes zero :: "'s" and add :: "nat \<Rightarrow> 's \<Rightarrow> 's" and del :: "nat \<Rightarrow> 's \<Rightarrow> 's"
    and has :: "'s \<Rightarrow> nat \<Rightarrow> bool" and bound :: nat
  assumes has_zero: "\<not> has zero i"
    and has_add: "i < bound \<Longrightarrow> has (add i s) j \<longleftrightarrow> i = j \<or> has s j"
    and has_del: "has (del i s) j \<longleftrightarrow> i \<noteq> j \<and> has s j"
    and has_bound: "has s i \<Longrightarrow> i < bound"
    and has_ext: "(\<And>i. has s i \<longleftrightarrow> has t i) \<Longrightarrow> s = t"
begin

definition members :: "'s \<Rightarrow> nat list" where
  "members s = filter (has s) [0..<bound]"

lemma set_members: "set (members s) = {i. has s i}"
  by (auto simp: members_def dest: has_bound)

lemma distinct_members: "distinct (members s)"
  by (simp add: members_def)

lemma add_idem: "has s i \<Longrightarrow> add i s = s"
  using has_add [OF has_bound [of s i]] by (intro has_ext) auto

lemma del_idem: "\<not> has s i \<Longrightarrow> del i s = s"
  by (rule has_ext) (auto simp: has_del)

lemma del_add: "i < bound \<Longrightarrow> \<not> has s i \<Longrightarrow> del i (add i s) = s"
  by (rule has_ext) (auto simp: has_add has_del)

lemma has_fold_del: "has (fold del xs s) j \<longleftrightarrow> j \<notin> set xs \<and> has s j"
  by (induction xs arbitrary: s) (auto simp: has_del)

text \<open>
  A sweep over all numbers that removes the members failing a test, which is what the
  broadcast loops do, in increasing order.
\<close>

lemma sweep_has:
  "distinct xs \<Longrightarrow>
   has (fold (\<lambda>i s. if has s i \<and> \<not> ok i then del i s else s) xs s) j
     \<longleftrightarrow> has s j \<and> (j \<in> set xs \<longrightarrow> ok j)"
  by (induction xs arbitrary: s) (auto simp: has_del)

end

interpretation fds: bounded_set fd_zero fd_add fd_remove fd_has FD_SETSIZE
  by unfold_locales (auto simp: fdset_simps intro: fd_set_eqI dest: fd_has_bound)

lemma FD_SET_Some [simp]: "fd_ok i \<Longrightarrow> FD_SET i s = Some (fd_add (nat i) s)"
  by (simp add: FD_SET_def)

lemma FD_CLR_Some [simp]: "fd_ok i \<Longrightarrow> FD_CLR i s = Some (fd_remove (nat i) s)"
  by (simp add: FD_CLR_def)

lemma FD_ISSET_Some [simp]: "fd_ok i \<Longrightarrow> FD_ISSET i s = Some (fd_has s (nat i))"
  by (simp add: FD_ISSET_def)

lemma fd_ok_nat: "fd_ok i \<Longrightarrow> nat i < FD_SETSIZE"
  by (auto simp: fd_ok_def)

lemma fd_ok_of_nat [simp]: "fd_ok (int n) \<longleftrightarrow> n < FD_SETSIZE"
  by (simp add: fd_ok_def)

end
