(* ===== verification/Capture.thy ===== *)
theory Capture
  imports CLib Wire Fdset
begin

text \<open>
  The capture side of \<open>pcapper.c\<close>: \<open>blastpacket\<close> turns one captured frame into a
  \<open>struct wire\<close>, logs it and sends it to every connected collector; \<open>acceptor\<close>
  adds collectors. A frame is the list of its captured bytes (\<open>caplen\<close> of them).
  A read past the captured bytes is the outcome \<open>Overread\<close>.
\<close>

unbundle bit_operations_syntax

section \<open>Reading the frame\<close>

definition rd8 :: "bytes \<Rightarrow> nat \<Rightarrow> u8 option" where
  "rd8 pkt i = (if i < length pkt then Some (pkt ! i) else None)"

definition rd16 :: "endian \<Rightarrow> bytes \<Rightarrow> nat \<Rightarrow> u16 option" where
  "rd16 e pkt i = (if i + 1 < length pkt then Some (load16 e (pkt ! i) (pkt ! (i + 1))) else None)"

definition rd32 :: "endian \<Rightarrow> bytes \<Rightarrow> nat \<Rightarrow> u32 option" where
  "rd32 e pkt i = (if i + 3 < length pkt
     then Some (load32 e (pkt ! i) (pkt ! (i + 1)) (pkt ! (i + 2)) (pkt ! (i + 3))) else None)"

definition bslice :: "nat \<Rightarrow> nat \<Rightarrow> 'a list \<Rightarrow> 'a list" where
  "bslice i n xs = take n (drop i xs)"

definition ETHERTYPE_IP :: u16 where "ETHERTYPE_IP = 0x0800"
definition IP_OFFMASK :: u16 where "IP_OFFMASK = 0x1FFF"
definition IPPROTO_TCP :: u8 where "IPPROTO_TCP = 6"
definition IPPROTO_UDP :: u8 where "IPPROTO_UDP = 17"

text \<open>
  The search for an MGEN header behind the UDP header: the destination port and
  address repeated in the payload, with address type 1 and length 4 between them.
  Where it is found, the flow id is copied as it stands in the packet.
\<close>

definition mgen_flowid :: "endian \<Rightarrow> bytes \<Rightarrow> nat \<Rightarrow> u16 \<Rightarrow> u32 \<Rightarrow> u32" where
  "mgen_flowid e pkt headlen dp da =
    (if length pkt \<ge> 0x42 + headlen - 20 + 4 then
       (if bslice (0x3e + headlen - 20) 2 pkt = store16 e dp \<and>
           pkt ! (0x40 + headlen - 20) = 1 \<and>
           pkt ! (0x41 + headlen - 20) = 4 \<and>
           bslice (0x42 + headlen - 20) 4 pkt = store32 e da
        then the (rd32 e pkt (0x2e + headlen - 20)) else 0)
     else 0)"

text \<open>
  \<open>otw\<close> as \<open>blastpacket\<close> fills it. The offsets are those of \<open>struct packet\<close>: 14 bytes
  of Ethernet header, then 20 bytes of IP header, then the ports. The ports are read
  at their fixed place, whatever \<open>ihl\<close> says.
\<close>

definition fill_wire :: "endian \<Rightarrow> int \<times> int \<Rightarrow> bytes \<Rightarrow> nat \<Rightarrow> u8 \<Rightarrow> wire option" where
  "fill_wire e ts pkt headlen pr =
    (case (rd32 e pkt 26, rd32 e pkt 30, rd16 e pkt 34, rd16 e pkt 36, rd16 e pkt 16) of
       (Some sa, Some da, Some sp, Some dp, Some tot) \<Rightarrow>
         Some \<lparr>sec = htonl e (word_of_int (fst ts)), usec = htonl e (word_of_int (snd ts)),
           saddr = sa, daddr = da, sport = sp, dport = dp, len = tot,
           flowid = mgen_flowid e pkt headlen dp da, proto = pr, encapped = 0\<rparr>
     | _ \<Rightarrow> None)"

datatype capture = Overread | Skip | Report wire

definition blast_parse :: "endian \<Rightarrow> int \<times> int \<Rightarrow> bytes \<Rightarrow> capture" where
  "blast_parse e ts pkt = (case rd16 e pkt 12 of None \<Rightarrow> Overread | Some et \<Rightarrow>
     if ntohs e et \<noteq> ETHERTYPE_IP then Skip
     else (case rd16 e pkt 20 of None \<Rightarrow> Overread | Some fo \<Rightarrow>
       if ntohs e fo AND IP_OFFMASK \<noteq> 0 then Skip
       else (case rd8 pkt 14 of None \<Rightarrow> Overread | Some vi \<Rightarrow>
         if drop_bit 4 vi \<noteq> 4 then Skip
         else let headlen = unat (vi AND 15) * 4 in
           (case rd8 pkt 23 of None \<Rightarrow> Overread | Some pr \<Rightarrow>
             if pr = IPPROTO_TCP \<or> pr = IPPROTO_UDP
             then (case fill_wire e ts pkt headlen pr of None \<Rightarrow> Overread | Some w \<Rightarrow> Report w)
             else Skip))))"

section \<open>The log line\<close>

definition inet_ntoa :: "bytes \<Rightarrow> string" where
  "inet_ntoa bs = (case map (\<lambda>b. show_nat (unat b)) bs of
       [] \<Rightarrow> [] | s # ss \<Rightarrow> s @ concat (map (\<lambda>t. CHR ''.'' # t) ss))"

definition logpkt :: "endian \<Rightarrow> wire \<Rightarrow> string" where
  "logpkt e w =
     show_int (sint (ntohl e (sec w))) @ ''.'' @ show_06d (sint (ntohl e (usec w))) @ '':'' @
     inet_ntoa (store32 e (saddr w)) @ '':'' @ show_nat (unat (ntohs e (sport w))) @ '':'' @
     inet_ntoa (store32 e (daddr w)) @ '':'' @ show_nat (unat (ntohs e (dport w))) @ '':'' @
     show_nat (unat (ntohs e (len w))) @ '':'' @ show_nat (unat (ntohl e (flowid w))) @ '':'' @
     show_nat (unat (proto w)) @ [CHR 0x0A]"

section \<open>Connected collectors\<close>

text \<open>
  The agent's state: the set of connections, the log file's lines, what was sent on
  which connection, and which descriptors were shut down and closed.
\<close>

record agent =
  bigfs :: fd_set
  log :: "string list"
  sent :: "(nat \<times> bytes) list"
  closed :: "nat list"

definition agent_init :: agent where
  "agent_init = \<lparr>bigfs = fd_zero, log = [], sent = [], closed = []\<rparr>"

text \<open>One turn of the send loop. \<open>ok i\<close> says whether \<open>send\<close> succeeds on descriptor \<open>i\<close>.\<close>

definition send_one :: "(nat \<Rightarrow> bool) \<Rightarrow> bytes \<Rightarrow> nat \<Rightarrow> agent \<Rightarrow> agent" where
  "send_one ok msg i a = (if fd_has (bigfs a) i then
     (if ok i then a\<lparr>sent := sent a @ [(i, msg)]\<rparr>
      else a\<lparr>bigfs := fd_remove i (bigfs a), closed := closed a @ [i]\<rparr>) else a)"

definition broadcast :: "(nat \<Rightarrow> bool) \<Rightarrow> bytes \<Rightarrow> agent \<Rightarrow> agent" where
  "broadcast ok msg a = fold (send_one ok msg) [0..<FD_SETSIZE] a"

text \<open>\<open>fopen\<close> may fail; the packet is then sent without being logged.\<close>

definition log_line :: "bool \<Rightarrow> string \<Rightarrow> agent \<Rightarrow> agent" where
  "log_line fopen_ok l a = (if fopen_ok then a\<lparr>log := log a @ [l]\<rparr> else a)"

definition blastpacket ::
  "endian \<Rightarrow> bool \<Rightarrow> (nat \<Rightarrow> bool) \<Rightarrow> int \<times> int \<Rightarrow> bytes \<Rightarrow> agent \<Rightarrow> agent option" where
  "blastpacket e fopen_ok ok ts pkt a = (case blast_parse e ts pkt of
       Overread \<Rightarrow> None
     | Skip \<Rightarrow> Some a
     | Report w \<Rightarrow> Some (broadcast ok (wire_store e w) (log_line fopen_ok (logpkt e w) a)))"

text \<open>
  One turn of \<open>acceptor\<close>: the result of \<open>select\<close>, whether it flagged an exception, and
  the result of \<open>accept\<close>. None is the abort of \<open>FD_SET\<close> outside the field.
\<close>

definition acceptor_step :: "int \<Rightarrow> bool \<Rightarrow> int \<Rightarrow> agent \<Rightarrow> agent option" where
  "acceptor_step sel exc conn a =
    (if sel > 0 then
       (if exc then Some a
        else if conn < 0 then Some a
        else map_option (\<lambda>s. a\<lparr>bigfs := s\<rparr>) (FD_SET conn (bigfs a)))
     else Some a)"

section \<open>Lemmas: the send loop\<close>

lemma broadcast_sweep:
  assumes "distinct xs"
  shows "fold (send_one ok msg) xs a =
    a\<lparr>bigfs := fold (\<lambda>i s. if fd_has s i \<and> \<not> ok i then fd_remove i s else s) xs (bigfs a),
      sent := sent a @ map (\<lambda>i. (i, msg)) (filter (\<lambda>i. fd_has (bigfs a) i \<and> ok i) xs),
      closed := closed a @ filter (\<lambda>i. fd_has (bigfs a) i \<and> \<not> ok i) xs\<rparr>"
  using assms
proof (induction xs arbitrary: a)
  case Nil
  then show ?case by simp
next
  case (Cons x xs)
  have same: "filter (\<lambda>i. fd_has (fd_remove x (bigfs a)) i \<and> P i) xs =
      filter (\<lambda>i. fd_has (bigfs a) i \<and> P i) xs" for P
    using Cons.prems by (intro filter_cong) (auto simp: fdset_simps)
  from Cons show ?case by (auto simp: send_one_def same)
qed

lemma broadcast_sent: "sent (broadcast ok msg a) =
    sent a @ map (\<lambda>i. (i, msg)) (filter ok (fds.members (bigfs a)))"
  unfolding broadcast_def fds.members_def
  by (subst broadcast_sweep) (auto intro: filter_cong simp: conj_commute)

lemma broadcast_closed: "closed (broadcast ok msg a) =
    closed a @ filter (\<lambda>i. \<not> ok i) (fds.members (bigfs a))"
  unfolding broadcast_def fds.members_def
  by (subst broadcast_sweep) (auto intro: filter_cong simp: conj_commute)

lemma broadcast_has: "fd_has (bigfs (broadcast ok msg a)) i \<longleftrightarrow> fd_has (bigfs a) i \<and> ok i"
  unfolding broadcast_def
  by (subst broadcast_sweep) (auto simp: fds.sweep_has dest: fd_has_bound)

lemma broadcast_log [simp]: "log (broadcast ok msg a) = log a"
  unfolding broadcast_def by (subst broadcast_sweep) auto

lemma log_line_simps [simp]:
  "bigfs (log_line b l a) = bigfs a" "sent (log_line b l a) = sent a"
  "closed (log_line b l a) = closed a"
  "log (log_line b l a) = log a @ (if b then [l] else [])"
  by (simp_all add: log_line_def)

section \<open>Lemmas: reading the frame\<close>

lemma bslice_2: "i + 1 < length xs \<Longrightarrow> bslice i 2 xs = [xs ! i, xs ! (i + 1)]"
  by (simp add: bslice_def numeral_2_eq_2 take_Suc_conv_app_nth hd_drop_conv_nth nth_via_drop)

lemma bslice_4: "i + 3 < length xs \<Longrightarrow>
    bslice i 4 xs = [xs ! i, xs ! (i + 1), xs ! (i + 2), xs ! (i + 3)]"
  by (simp add: bslice_def numeral_eq_Suc take_Suc_conv_app_nth)

lemma store16_load16 [wire_simps]: "store16 e (load16 e a b) = [a, b]"
  by (cases e) (simp_all add: wire_simps)

lemma store32_load32 [wire_simps]: "store32 e (load32 e a b c d) = [a, b, c, d]"
  by (cases e) (simp_all add: wire_simps)

lemma rd16_SomeD: "rd16 e pkt i = Some w \<Longrightarrow> i + 1 < length pkt \<and> store16 e w = bslice i 2 pkt"
  by (auto simp: rd16_def bslice_2 wire_simps split: if_splits)

lemma rd32_SomeD: "rd32 e pkt i = Some w \<Longrightarrow> i + 3 < length pkt \<and> store32 e w = bslice i 4 pkt"
  by (auto simp: rd32_def bslice_4 wire_simps split: if_splits)

text \<open>The same search, stated over the frame's bytes alone.\<close>

definition mgen_match :: "bytes \<Rightarrow> nat \<Rightarrow> bool" where
  "mgen_match pkt h \<longleftrightarrow> 50 + h \<le> length pkt \<and> bslice (42 + h) 2 pkt = bslice 36 2 pkt \<and>
     bslice (44 + h) 2 pkt = [1, 4] \<and> bslice (46 + h) 4 pkt = bslice 30 4 pkt"

definition flow_bytes :: "bytes \<Rightarrow> nat \<Rightarrow> bytes" where
  "flow_bytes pkt h = (if mgen_match pkt h then bslice (26 + h) 4 pkt else [0, 0, 0, 0])"

lemma store32_0 [simp]: "store32 e 0 = [0, 0, 0, 0]"
  by (cases e) (simp_all add: byte_of_def)

lemma mgen_flowid_bytes:
  assumes "rd16 e pkt 36 = Some dp" and "rd32 e pkt 30 = Some da"
  shows "store32 e (mgen_flowid e pkt h dp da) = flow_bytes pkt h"
proof -
  have ports: "store16 e dp = bslice 36 2 pkt" "store32 e da = bslice 30 4 pkt"
    using assms by (auto dest: rd16_SomeD rd32_SomeD)
  have offs: "0x42 + h - 20 + 4 = 50 + h" "0x3e + h - 20 = 42 + h" "0x40 + h - 20 = 44 + h"
    "0x41 + h - 20 = 45 + h" "0x42 + h - 20 = 46 + h" "0x2e + h - 20 = 26 + h"
    by simp_all
  show ?thesis
  proof (cases "50 + h \<le> length pkt")
    case True
    then obtain f where f: "rd32 e pkt (26 + h) = Some f" by (simp add: rd32_def)
    have "bslice (44 + h) 2 pkt = [pkt ! (44 + h), pkt ! (45 + h)]"
      using True bslice_2 [of "44 + h" pkt] by (simp add: add.commute)
    with True f ports show ?thesis
      unfolding mgen_flowid_def offs
      by (auto simp: flow_bytes_def mgen_match_def dest: rd32_SomeD)
  next
    case False
    then show ?thesis
      unfolding mgen_flowid_def offs by (simp add: flow_bytes_def mgen_match_def)
  qed
qed

definition ihl_bytes :: "bytes \<Rightarrow> nat" where
  "ihl_bytes pkt = unat ((pkt ! 14) AND 15) * 4"

lemma fill_wire_bytes:
  assumes "fill_wire e ts pkt h pr = Some w"
  shows "wire_store e w = store32 Big (word_of_int (fst ts)) @ store32 Big (word_of_int (snd ts)) @
     bslice 26 4 pkt @ bslice 30 4 pkt @ bslice 34 2 pkt @ bslice 36 2 pkt @ bslice 16 2 pkt @
     flow_bytes pkt h @ [pr, 0]"
proof -
  obtain sa da sp dp tot where rds: "rd32 e pkt 26 = Some sa" "rd32 e pkt 30 = Some da"
    "rd16 e pkt 34 = Some sp" "rd16 e pkt 36 = Some dp" "rd16 e pkt 16 = Some tot"
    using assms by (auto simp: fill_wire_def split: option.splits)
  note flow = mgen_flowid_bytes [OF rds(4) rds(2), of h]
  have stores: "store32 e sa = bslice 26 4 pkt" "store32 e da = bslice 30 4 pkt"
    "store16 e sp = bslice 34 2 pkt" "store16 e dp = bslice 36 2 pkt"
    "store16 e tot = bslice 16 2 pkt"
    using rds by (auto dest: rd16_SomeD rd32_SomeD)
  from assms rds have "w = \<lparr>sec = htonl e (word_of_int (fst ts)),
      usec = htonl e (word_of_int (snd ts)), saddr = sa, daddr = da, sport = sp, dport = dp,
      len = tot, flowid = mgen_flowid e pkt h dp da, proto = pr, encapped = 0\<rparr>"
    by (simp add: fill_wire_def)
  then show ?thesis by (simp add: wire_store_def wire_simps stores flow)
qed

lemma fill_wire_total: "38 \<le> length pkt \<Longrightarrow> \<exists>w. fill_wire e ts pkt h pr = Some w"
  by (simp add: fill_wire_def rd16_def rd32_def)

lemma blast_parse_ReportD:
  assumes "blast_parse e ts pkt = Report w"
  shows "fill_wire e ts pkt (ihl_bytes pkt) (pkt ! 23) = Some w"
  using assms
  by (auto simp: blast_parse_def rd8_def ihl_bytes_def Let_def split: option.splits if_splits)

section \<open>Properties\<close>

text \<open>C5: the 28 bytes reported for a captured packet are, on a host of either byte order, the
  capture time in network order followed by the addresses in the packet's header, two ports, its
  total length, the flow id (zero unless an MGEN header is found), its protocol and a zero flag
  byte: the table of the agent-collector protocol. The two ports are bytes 34 to 37 of the frame,
  those behind 20 bytes of IP header. They are the packet's own ports when its header has no
  options; in a longer header they are bytes of the options, which the code does not skip.\<close>

theorem report_layout:
  assumes "blast_parse e ts pkt = Report w"
  shows "wire_store e w = store32 Big (word_of_int (fst ts)) @ store32 Big (word_of_int (snd ts)) @
     bslice 26 4 pkt @ bslice 30 4 pkt @ bslice 34 2 pkt @ bslice 36 2 pkt @ bslice 16 2 pkt @
     flow_bytes pkt (ihl_bytes pkt) @ [pkt ! 23, 0]"
  using assms by (intro fill_wire_bytes blast_parse_ReportD)

definition sample_udp :: bytes where
  "sample_udp = [0,1,2,3,4,5, 6,7,8,9,10,11, 8,0,
     0x45,0, 0,38, 0,0, 0,0, 64,17, 0,0, 10,0,0,1, 10,0,0,2, 4,0, 7,208, 0,18, 0,0]"

lemma sample_udp_reported: "\<exists>w. blast_parse Little (5, 6) sample_udp = Report w"
  by (simp add: blast_parse_def sample_udp_def rd16_def rd32_def rd8_def fill_wire_def
      ETHERTYPE_IP_def IP_OFFMASK_def IPPROTO_TCP_def IPPROTO_UDP_def join2_def byte_of_def)

theorem report_layout_witness:
  "\<exists>w. wire_store Little w = [0,0,0,5, 0,0,0,6, 10,0,0,1, 10,0,0,2, 4,0, 7,208, 0,38, 0,0,0,0, 17, 0]"
proof -
  obtain w where w: "blast_parse Little (5, 6) sample_udp = Report w"
    using sample_udp_reported by blast
  show ?thesis
    using report_layout [OF w]
    by (intro exI [of _ w]) (simp add: sample_udp_def bslice_def flow_bytes_def mgen_match_def
        ihl_bytes_def byte_of_def)
qed

text \<open>C33: a frame with 38 captured bytes is never read past its end, and it is reported exactly
  when it is IPv4, not a later fragment, and TCP or UDP. Everything else is skipped without a
  message, ICMP included, although \<open>config/README.md\<close> says that ICMPv4 is recorded and that a
  warning is printed for other protocols.\<close>

theorem report_iff:
  assumes "38 \<le> length pkt"
  shows "blast_parse e ts pkt \<noteq> Overread \<and>
    ((\<exists>w. blast_parse e ts pkt = Report w) \<longleftrightarrow>
       join2 (pkt ! 12) (pkt ! 13) = ETHERTYPE_IP \<and> drop_bit 4 (pkt ! 14) = 4 \<and>
       join2 (pkt ! 20) (pkt ! 21) AND IP_OFFMASK = 0 \<and>
       pkt ! 23 \<in> {IPPROTO_TCP, IPPROTO_UDP})"
proof -
  obtain w where w: "fill_wire e ts pkt (unat (pkt ! 14 AND 15) * 4) (pkt ! 23) = Some w"
    using fill_wire_total [OF assms] by blast
  from assms show ?thesis
    by (simp add: blast_parse_def rd16_def rd8_def wire_simps w Let_def)
qed

theorem report_iff_witness:
  "38 \<le> length sample_udp \<and> blast_parse Big (0, 0) sample_udp \<noteq> Overread"
proof -
  have h: "38 \<le> length sample_udp" by (simp add: sample_udp_def)
  show ?thesis using h report_iff [OF h, of Big "(0, 0)"] by blast
qed

definition sample_options :: bytes where
  "sample_options = [0,1,2,3,4,5, 6,7,8,9,10,11, 8,0,
     0x46,0, 0,42, 0,0, 0,0, 64,17, 0,0, 10,0,0,1, 10,0,0,2, 1,1,1,1, 4,0, 7,208, 0,18, 0,0]"

text \<open>The ports are read behind a 20-byte IP header even when the header carries
  options. A frame whose transport header, 24 bytes into the packet, names destination
  port 2000 is reported with destination port 257, two bytes of its options.\<close>

theorem options_reported_as_ports:
  "\<exists>w. blast_parse Little (0, 0) sample_options = Report w \<and>
     bslice (14 + ihl_bytes sample_options + 2) 2 sample_options = store16 Big 2000 \<and>
     ntohs Little (dport w) = 257"
  by (simp add: blast_parse_def sample_options_def rd16_def rd32_def rd8_def fill_wire_def
      ETHERTYPE_IP_def IP_OFFMASK_def IPPROTO_TCP_def IPPROTO_UDP_def join2_def byte_of_def
      bslice_def ihl_bytes_def)

text \<open>C6: \<open>blastpacket\<close> on a reportable packet appends one log line (when the file opens), sends the
  same 28 bytes once to every open connection in descriptor order, and drops and closes exactly
  the connections whose \<open>send\<close> failed. The line is logged whether or not there is a connection,
  although \<open>config/pcapper/README.md\<close> says that nothing is logged without one.\<close>

theorem blastpacket_delivers:
  assumes "blast_parse e ts pkt = Report w"
  shows "\<exists>a'. blastpacket e fopen_ok ok ts pkt a = Some a' \<and>
    log a' = log a @ (if fopen_ok then [logpkt e w] else []) \<and>
    sent a' = sent a @ map (\<lambda>i. (i, wire_store e w)) (filter ok (fds.members (bigfs a))) \<and>
    closed a' = closed a @ filter (\<lambda>i. \<not> ok i) (fds.members (bigfs a)) \<and>
    (\<forall>i. fd_has (bigfs a') i \<longleftrightarrow> fd_has (bigfs a) i \<and> ok i)"
  using assms
  by (simp add: blastpacket_def broadcast_sent broadcast_closed broadcast_has)

theorem blastpacket_delivers_witness:
  "\<exists>a'. blastpacket Little True (\<lambda>i. i \<noteq> 4) (5, 6) sample_udp agent_init = Some a' \<and>
     log a' \<noteq> [] \<and> sent a' = []"
proof -
  obtain w where w: "blast_parse Little (5, 6) sample_udp = Report w"
    using sample_udp_reported by blast
  have none: "fds.members fd_zero = []" by (simp add: fds.members_def)
  show ?thesis
    using blastpacket_delivers [OF w, of True "\<lambda>i. i \<noteq> 4" agent_init]
    by (auto simp: agent_init_def none)
qed

text \<open>A frame that is neither TCP nor UDP, ICMP for one, changes nothing: no log line,
  nothing sent, no connection dropped.\<close>

theorem other_protocols_ignored:
  assumes "38 \<le> length pkt" and "pkt ! 23 \<noteq> IPPROTO_TCP" and "pkt ! 23 \<noteq> IPPROTO_UDP"
  shows "blastpacket e fopen_ok ok ts pkt a = Some a"
  using assms
  by (auto simp: blastpacket_def blast_parse_def rd16_def rd8_def Let_def)

theorem other_protocols_ignored_witness:
  "sample_udp[23 := 1] ! 23 = 1 \<and>
   blastpacket Little True (\<lambda>_. True) (0, 0) (sample_udp[23 := 1]) agent_init = Some agent_init"
proof -
  have h: "38 \<le> length (sample_udp[23 := 1])" "(sample_udp[23 := 1]) ! 23 \<noteq> IPPROTO_TCP"
    "(sample_udp[23 := 1]) ! 23 \<noteq> IPPROTO_UDP"
    by (simp_all add: sample_udp_def IPPROTO_TCP_def IPPROTO_UDP_def)
  show ?thesis
    using other_protocols_ignored [OF h, of Little True "\<lambda>_. True" "(0, 0)" agent_init]
    by (simp add: sample_udp_def)
qed

end
