(* ===== verification/Procstat.thy ===== *)
theory Procstat
  imports Capture
begin

text \<open>
  The statistics side of \<open>pcapper.c\<close>: \<open>readmem\<close> and \<open>readstat\<close> parse
  \<open>/proc/meminfo\<close> and \<open>/proc/stat\<close>, \<open>watchstat\<close> reports the processor and memory
  use to every collector once a second. A file is its contents, or None when it
  cannot be opened.
\<close>

section \<open>readmem\<close>


definition skip_blanks :: "string \<Rightarrow> string" where
  "skip_blanks s = dropWhile (\<lambda>c. c = CHR '' '') s"

definition mem_free_key :: "string \<Rightarrow> bool" where
  "mem_free_key l \<longleftrightarrow> strncmp_eq ''MemFree:'' l \<or> strncmp_eq ''Buffers:'' l \<or>
     strncmp_eq ''Cached:'' l \<or> strncmp_eq ''SwapCached:'' l"

text \<open>
  The loop over the lines. The value of a line to subtract is looked for from the
  twelfth character on; on a line shorter than that the code reads what an earlier
  line left in the buffer, which is the result None here.
\<close>

function readmem_loop :: "string \<Rightarrow> u64 \<Rightarrow> u64 option" where
  "readmem_loop f rv = (case fgets BUFSIZ f of None \<Rightarrow> Some rv
     | Some (l, r) \<Rightarrow>
         if strncmp_eq ''MemTotal:'' l then
           (let t = strtoul10 (skip_blanks (drop 9 l)) in
            if t = 0 then Some t else readmem_loop r t)
         else if mem_free_key l then
           (if length l < 11 then None
            else readmem_loop r (rv - strtoul10 (skip_blanks (drop 11 l))))
         else Some rv)"
  by pat_completeness auto
termination
  by (relation "measure (length \<circ> fst)") (auto dest: fgets_shrinks)

declare readmem_loop.simps [simp del]

definition readmem :: "string option \<Rightarrow> u64 option" where
  "readmem f = (case f of None \<Rightarrow> Some 0 | Some s \<Rightarrow> readmem_loop s 0)"

section \<open>readstat\<close>

definition S_IDLE :: nat where "S_IDLE = 3"
definition S_TOT :: nat where "S_TOT = 7"
definition S_MAX :: nat where "S_MAX = 8"

definition ends_line :: "string \<Rightarrow> bool" where
  "ends_line l \<longleftrightarrow> l \<noteq> [] \<and> last l = CHR 0x0A"

text \<open>
  The search for the line of totals: the buffer keeps its contents when \<open>fgets\<close> fails,
  and the loop ends at the end of the file. The result is the buffer and the rest of
  the file.
\<close>

function find_cpu :: "string \<Rightarrow> string \<Rightarrow> string \<times> string" where
  "find_cpu buf f = (case fgets BUFSIZ f of None \<Rightarrow> (buf, f)
     | Some (l, r) \<Rightarrow>
         if strncmp_eq ''cpu '' l \<or> (r = [] \<and> \<not> ends_line l) then (l, r) else find_cpu l r)"
  by pat_completeness auto
termination
  by (relation "measure (length \<circ> snd)") (auto dest: fgets_shrinks)

declare find_cpu.simps [simp del]

text \<open>The seven counters; None when the line has fewer tokens, with those read so far.\<close>

fun read_counters :: "nat \<Rightarrow> string \<Rightarrow> u64 list \<times> bool" where
  "read_counters 0 s = ([], True)"
| "read_counters (Suc n) s = (case strtok [CHR '' '', CHR 0x09] s of None \<Rightarrow> ([], False)
     | Some (t, r) \<Rightarrow> (case read_counters n r of (ds, ok) \<Rightarrow> (strtoul10 t # ds, ok)))"

text \<open>
  The processors: one for each further line that starts with \<open>cpu\<close>. The line that ends
  the loop is counted and taken back.
\<close>

function count_cpus :: "string \<Rightarrow> int \<Rightarrow> int" where
  "count_cpus f ncpu = (case fgets BUFSIZ f of None \<Rightarrow> ncpu
     | Some (l, r) \<Rightarrow>
         if strncmp_eq ''cpu'' l then
           (if r = [] \<and> \<not> ends_line l then ncpu + 1 else count_cpus r (ncpu + 1))
         else ncpu + 1 - 1)"
  by pat_completeness auto
termination
  by (relation "measure (length \<circ> fst)") (auto dest: fgets_shrinks)

declare count_cpus.simps [simp del]

text \<open>
  \<open>readstat(d)\<close>: the return value and the new contents of \<open>d\<close>. The counters read before a
  damaged line ends overwrite the front of \<open>d\<close>. \<open>buf\<close> is the uninitialised buffer.
\<close>

definition readstat :: "string \<Rightarrow> string option \<Rightarrow> u64 list \<Rightarrow> int \<times> u64 list" where
  "readstat buf file d = (case file of None \<Rightarrow> (- 1, d)
     | Some f \<Rightarrow> (case find_cpu buf f of (b, r) \<Rightarrow>
         if \<not> strncmp_eq ''cpu '' b then (- 2, d)
         else (case strtok [CHR '' '', CHR 0x09] b of None \<Rightarrow> (- 3, d)
           | Some (_, s) \<Rightarrow> (case read_counters S_TOT s of (ds, ok) \<Rightarrow>
               (if ok then count_cpus r 0 else - 3, ds @ drop (length ds) d)))))"

section \<open>watchstat\<close>

definition tvdiff :: "int \<times> int \<Rightarrow> int \<times> int \<Rightarrow> int" where
  "tvdiff start end1 = (let tv = timersub end1 start in fst tv * 1000000 + snd tv)"

text \<open>How long a turn sleeps: up to the second after the previous report.\<close>

definition sleep_usec :: "int \<times> int \<Rightarrow> int \<times> int \<Rightarrow> int" where
  "sleep_usec tv tv2 = (let d = 1000000 - tvdiff tv tv2 in if d > 0 then d else 0)"

text \<open>The busy time per processor, summed over all counters but the idle one.\<close>

definition busy_total :: "int \<Rightarrow> u64 list \<Rightarrow> u64" where
  "busy_total ncpu d =
     sum_list (map (\<lambda>i. if i \<noteq> S_IDLE then d ! i div word_of_int ncpu else 0) [0..<S_TOT])"

definition set_total :: "int \<Rightarrow> u64 list \<Rightarrow> u64 list" where
  "set_total ncpu d = d[S_TOT := busy_total ncpu d]"

text \<open>\<open>watchstat\<close> up to its loop: None is the return with 1.\<close>

definition watchstat_init :: "string \<Rightarrow> string option \<Rightarrow> u64 list \<Rightarrow> u64 list option" where
  "watchstat_init buf file d = (case readstat buf file d of (ncpu, orig) \<Rightarrow>
     if ncpu < 1 then None else Some (set_total ncpu orig))"

definition cpu_wire :: "endian \<Rightarrow> int \<times> int \<Rightarrow> u8 \<Rightarrow> u64 list \<Rightarrow> u64 list \<Rightarrow> wire" where
  "cpu_wire e tv junk orig data =
    \<lparr>sec = htonl e (word_of_int (fst tv)), usec = htonl e (word_of_int (snd tv)),
     saddr = 1, daddr = 1, sport = htons e 1, dport = htons e 1,
     len = htons e (ucast ((data ! S_TOT - orig ! S_TOT) AND 0xFFFF)),
     flowid = htonl e FLOWID_CPU, proto = 61, encapped = junk\<rparr>"

definition mem_wire :: "endian \<Rightarrow> u64 \<Rightarrow> wire \<Rightarrow> wire" where
  "mem_wire e mem w = w\<lparr>saddr := 2, daddr := 2, sport := htons e 2, dport := htons e 2,
     flowid := htonl e FLOWID_MEM, len := htons e (ucast (drop_bit 8 mem)), proto := 61\<rparr>"

text \<open>
  What one turn of the loop depends on: the time, the two files and the buffer left from
  before, which sends succeed, and whether the log opens. \<open>junk\<close> is the flag byte of the
  record, which the code never sets.
\<close>

record tick =
  t_now :: "int \<times> int"
  t_buf :: string
  t_stat :: "string option"
  t_mem :: "string option"
  t_log :: bool
  t_ok1 :: "nat \<Rightarrow> bool"
  t_ok2 :: "nat \<Rightarrow> bool"

record watcher =
  orig :: "u64 list"
  data :: "u64 list"
  junk :: u8

definition report_stat :: "endian \<Rightarrow> bool \<Rightarrow> (nat \<Rightarrow> bool) \<Rightarrow> wire \<Rightarrow> agent \<Rightarrow> agent" where
  "report_stat e fopen_ok ok w a =
     broadcast ok (wire_store e w) (log_line fopen_ok (logpkt e w) a)"

definition watch_turn :: "endian \<Rightarrow> tick \<Rightarrow> watcher \<Rightarrow> agent \<Rightarrow> (watcher \<times> agent) option" where
  "watch_turn e t s a = (case readstat (t_buf t) (t_stat t) (data s) of (n, d) \<Rightarrow>
     let ncpu = (if n < 1 then 1 else n);
         d' = set_total ncpu d;
         cw = cpu_wire e (t_now t) (junk s) (orig s) d';
         a1 = report_stat e (t_log t) (t_ok1 t) cw a
     in (case readmem (t_mem t) of None \<Rightarrow> None
         | Some mem \<Rightarrow> Some (s\<lparr>orig := d', data := d'\<rparr>,
             report_stat e (t_log t) (t_ok2 t) (mem_wire e mem cw) a1)))"

section \<open>Lemmas: readmem\<close>

definition mem_line :: "string \<Rightarrow> nat \<Rightarrow> nat \<Rightarrow> string" where
  "mem_line key k v = key @ replicate k (CHR '' '') @ show_nat v @ '' kB''"

definition free_keys :: "string list" where
  "free_keys = [''MemFree:'', ''Buffers:'', ''Cached:'', ''SwapCached:'']"

definition free_line_ok :: "string \<times> nat \<times> nat \<Rightarrow> bool" where
  "free_line_ok kv = (case kv of (key, k, v) \<Rightarrow>
     key \<in> set free_keys \<and> 11 \<le> length key + k \<and> k \<le> 100 \<and> v < 2 ^ 64)"

lemma skip_blanks_number:
  "skip_blanks (replicate k (CHR '' '') @ show_nat v @ s) = show_nat v @ s"
proof (induction k)
  case 0
  have "hd (show_nat v) \<noteq> CHR '' ''" using hd_show_nat [of v] by (auto simp: is_digit_def)
  then show ?case by (simp add: skip_blanks_def) (intro dropWhile_head, auto simp: hd_append)
next
  case (Suc k)
  then show ?case by (simp add: skip_blanks_def)
qed

lemma fgets_mem_line:
  assumes "key \<in> set (''MemTotal:'' # free_keys)" and "k \<le> 100" and "v < 2 ^ 64"
  shows "fgets BUFSIZ (mem_line key k v @ CHR 0x0A # r) = Some (mem_line key k v @ [CHR 0x0A], r)"
  using assms length_show_nat_u64 [OF assms(3)]
  by (intro fgets_line) (auto simp: mem_line_def free_keys_def BUFSIZ_def)

lemma drop_mem_line: "n \<le> length key + k \<Longrightarrow> length key \<le> n \<Longrightarrow>
    drop n (mem_line key k v @ r) = replicate (length key + k - n) (CHR '' '') @ show_nat v @ '' kB'' @ r"
  by (simp add: mem_line_def)

lemma value_of_mem_line:
  "n \<le> length key + k \<Longrightarrow> length key \<le> n \<Longrightarrow> v < 2 ^ 64 \<Longrightarrow>
   strtoul10 (skip_blanks (drop n (mem_line key k v @ r))) = of_nat v"
  by (subst drop_mem_line) (simp_all add: skip_blanks_number strtoul10_show_nat is_digit_def)

lemma readmem_total_line:
  assumes "k \<le> 100" "t \<noteq> 0" "t < 2 ^ 64"
  shows "readmem_loop (mem_line ''MemTotal:'' k t @ CHR 0x0A # r) rv = readmem_loop r (of_nat t)"
proof -
  have "(of_nat t :: u64) \<noteq> 0"
    using assms by (simp add: of_nat_eq_0_iff word_of_nat_eq_0_iff) (auto dest: nat_dvd_not_less)
  moreover have "strtoul10 (skip_blanks (drop 9 (mem_line ''MemTotal:'' k t @ [CHR 0x0A]))) = of_nat t"
    using assms by (intro value_of_mem_line) auto
  moreover have "strncmp_eq ''MemTotal:'' (mem_line ''MemTotal:'' k t @ [CHR 0x0A])"
    by (simp add: mem_line_def strncmp_eq_def)
  ultimately show ?thesis using assms
    by (subst readmem_loop.simps) (simp add: fgets_mem_line Let_def del: drop_append)
qed

lemma readmem_free_line:
  assumes "free_line_ok (key, k, v)"
  shows "readmem_loop (mem_line key k v @ CHR 0x0A # r) rv = readmem_loop r (rv - of_nat v)"
proof -
  have key: "key \<in> set free_keys" and k: "11 \<le> length key + k" "k \<le> 100" and v: "v < 2 ^ 64"
    using assms by (auto simp: free_line_ok_def)
  have "length key \<le> 11" using key by (auto simp: free_keys_def)
  moreover have "mem_free_key (mem_line key k v @ [CHR 0x0A])"
    "\<not> strncmp_eq ''MemTotal:'' (mem_line key k v @ [CHR 0x0A])"
    using key by (auto simp: free_keys_def mem_free_key_def mem_line_def strncmp_eq_def)
  moreover have "11 \<le> length (mem_line key k v @ [CHR 0x0A])"
    using k by (simp add: mem_line_def)
  moreover have "strtoul10 (skip_blanks (drop 11 (mem_line key k v @ [CHR 0x0A]))) = of_nat v"
    using k v \<open>length key \<le> 11\<close> by (intro value_of_mem_line) auto
  ultimately show ?thesis using key k v
    by (subst readmem_loop.simps) (simp add: fgets_mem_line del: drop_append)
qed

lemma readmem_free_lines:
  assumes "\<forall>kv \<in> set ls. free_line_ok kv"
  shows "readmem_loop (concat (map (\<lambda>(key, k, v). mem_line key k v @ [CHR 0x0A]) ls) @ r) rv =
    readmem_loop r (rv - sum_list (map (\<lambda>(key, k, v). of_nat v) ls))"
  using assms
proof (induction ls arbitrary: rv)
  case Nil
  then show ?case by simp
next
  case (Cons kv ls)
  obtain key k v where kv: "kv = (key, k, v)" by (cases kv)
  with Cons.prems have "free_line_ok (key, k, v)" by simp
  then show ?case using Cons by (simp add: kv readmem_free_line algebra_simps)
qed

lemma readmem_stop:
  assumes "CHR 0x0A \<notin> set l" "CHR 0x00 \<notin> set l" "length l + 2 \<le> BUFSIZ"
    and "\<not> strncmp_eq ''MemTotal:'' (l @ [CHR 0x0A])" "\<not> mem_free_key (l @ [CHR 0x0A])"
  shows "readmem_loop (l @ CHR 0x0A # r) rv = Some rv"
  using assms by (subst readmem_loop.simps) (simp add: fgets_line)

section \<open>Lemmas: readstat\<close>

lemma count_cpus_lines:
  assumes "\<forall>l \<in> set ls. CHR 0x0A \<notin> set l \<and> CHR 0x00 \<notin> set l \<and> length l + 2 \<le> BUFSIZ \<and>
      strncmp_eq ''cpu'' (l @ [CHR 0x0A])"
    and "CHR 0x0A \<notin> set z" "CHR 0x00 \<notin> set z" "length z + 2 \<le> BUFSIZ"
      "\<not> strncmp_eq ''cpu'' (z @ [CHR 0x0A])"
  shows "count_cpus (concat (map (\<lambda>l. l @ [CHR 0x0A]) ls) @ z @ CHR 0x0A # r) n = n + int (length ls)"
  using assms(1)
proof (induction ls arbitrary: n)
  case Nil
  then show ?case using assms(2-) by (subst count_cpus.simps) (simp add: fgets_line)
next
  case (Cons l ls)
  then have "fgets BUFSIZ (l @ CHR 0x0A # concat (map (\<lambda>l. l @ [CHR 0x0A]) ls) @ z @ CHR 0x0A # r) =
      Some (l @ [CHR 0x0A], concat (map (\<lambda>l. l @ [CHR 0x0A]) ls) @ z @ CHR 0x0A # r)"
    by (intro fgets_line) auto
  then show ?case using Cons by (subst count_cpus.simps) (simp add: ends_line_def)
qed

definition number_row :: "nat list \<Rightarrow> string" where
  "number_row vs = concat (map (\<lambda>v. CHR '' '' # show_nat v) vs)"

abbreviation "blanks \<equiv> [CHR '' '', CHR 0x09]"

lemma strtok_number:
  assumes "r = [] \<or> hd r \<in> set blanks"
  shows "strtok blanks (show_nat v @ r) = Some (show_nat v, drop 1 r)"
proof -
  have ne: "\<forall>c \<in> set (show_nat v). c \<notin> set blanks"
    using show_nat_digits [of v] by (auto simp: is_digit_def)
  show ?thesis
  proof (cases r)
    case Nil
    then show ?thesis using strtok_last [OF show_nat_nonempty ne] by simp
  next
    case (Cons c r')
    with assms have "c \<in> set blanks" by simp
    then show ?thesis unfolding Cons
      by (subst strtok_token [OF show_nat_nonempty ne]) simp_all
  qed
qed

lemma read_counters_row:
  assumes "\<forall>v \<in> set vs. v < 2 ^ 64" and "r = [] \<or> hd r \<in> set blanks"
  shows "read_counters (length vs) (number_row vs @ r) = (map of_nat vs, True)"
  using assms(1)
proof (induction vs)
  case Nil
  then show ?case by simp
next
  case (Cons v vs)
  have "number_row vs @ r = [] \<or> hd (number_row vs @ r) \<in> set blanks"
    using assms(2) by (cases vs) (auto simp: number_row_def)
  then have "strtok blanks (show_nat v @ number_row vs @ r) = Some (show_nat v, drop 1 (number_row vs @ r))"
    by (rule strtok_number)
  moreover have "read_counters n (drop 1 (number_row vs @ r)) = read_counters n (number_row vs @ r)" for n
    using assms(2) by (cases vs; cases r; cases n) (auto simp: number_row_def strtok_skip)
  moreover have "strtoul10 (show_nat v) = of_nat v"
    using Cons.prems strtoul10_show_nat [of "[]" v] by simp
  ultimately show ?case using Cons by (simp add: number_row_def strtok_skip)
qed

lemma number_row_plain: "CHR 0x0A \<notin> set (number_row vs)" "CHR 0x00 \<notin> set (number_row vs)"
  by (auto simp: number_row_def)

lemma length_number_row:
  "\<forall>v \<in> set vs. v < 2 ^ 64 \<Longrightarrow> length (number_row vs) \<le> 21 * length vs"
proof (induction vs)
  case (Cons v vs)
  then show ?case using length_show_nat_u64 [of v] by (simp add: number_row_def)
qed (simp add: number_row_def)

section \<open>Properties\<close>

text \<open>On a \<open>meminfo\<close> file that gives the total first, then any of the four lines the
  code knows, and then another line, \<open>readmem\<close> returns the total less the sum of what
  those lines say, modulo 2^64; nothing behind the first other line counts.\<close>

theorem readmem_used:
  assumes "k \<le> 100" "t \<noteq> 0" "t < 2 ^ 64" "\<forall>kv \<in> set ls. free_line_ok kv"
    and "CHR 0x0A \<notin> set z" "CHR 0x00 \<notin> set z" "length z + 2 \<le> BUFSIZ"
    and "\<not> strncmp_eq ''MemTotal:'' (z @ [CHR 0x0A])" "\<not> mem_free_key (z @ [CHR 0x0A])"
  shows "readmem (Some (mem_line ''MemTotal:'' k t @ CHR 0x0A #
      concat (map (\<lambda>(key, k, v). mem_line key k v @ [CHR 0x0A]) ls) @ z @ CHR 0x0A # r)) =
    Some (of_nat t - sum_list (map (\<lambda>(key, k, v). of_nat v) ls))"
  using assms by (simp add: readmem_def readmem_total_line readmem_free_lines readmem_stop)

theorem readmem_used_witness:
  "readmem (Some (mem_line ''MemTotal:'' 7 2048 @ CHR 0x0A #
      concat (map (\<lambda>(key, k, v). mem_line key k v @ [CHR 0x0A]) [(''MemFree:'', 8, 1000)]) @
      ''MemAvailable:  1500 kB'' @ CHR 0x0A # ''Buffers:   300 kB'')) = Some 1048"
proof -
  have h: "\<forall>kv \<in> set [(''MemFree:'', 8, 1000)]. free_line_ok kv"
    by (simp add: free_line_ok_def free_keys_def)
  show ?thesis
    by (subst readmem_used [OF _ _ _ h])
      (simp_all add: BUFSIZ_def strncmp_eq_def mem_free_key_def)
qed

text \<open>On a \<open>stat\<close> file that starts with the line of totals, followed by one line per
  processor and then another line, \<open>readstat\<close> returns the number of processors and the
  first seven totals, whatever the buffer held before. (The line has more than seven
  columns on every kernel since 2.6.11.)\<close>

theorem readstat_counts:
  assumes "length vs = S_TOT" "\<forall>v \<in> set vs. v < 2 ^ 64" "tl1 \<noteq> []" "hd tl1 \<in> set blanks"
    and "CHR 0x0A \<notin> set tl1" "CHR 0x00 \<notin> set tl1"
    and "length (number_row vs @ tl1) + 6 \<le> BUFSIZ"
    and "\<forall>l \<in> set ls. CHR 0x0A \<notin> set l \<and> CHR 0x00 \<notin> set l \<and> length l + 2 \<le> BUFSIZ \<and>
      strncmp_eq ''cpu'' (l @ [CHR 0x0A])"
    and "CHR 0x0A \<notin> set z" "CHR 0x00 \<notin> set z" "length z + 2 \<le> BUFSIZ"
      "\<not> strncmp_eq ''cpu'' (z @ [CHR 0x0A])"
  shows "readstat buf (Some (''cpu '' @ number_row vs @ tl1 @ CHR 0x0A #
      concat (map (\<lambda>l. l @ [CHR 0x0A]) ls) @ z @ CHR 0x0A # r)) d =
    (int (length ls), map of_nat vs @ drop S_TOT d)"
proof -
  let ?tail = "concat (map (\<lambda>l. l @ [CHR 0x0A]) ls) @ z @ CHR 0x0A # r"
  let ?line = "''cpu '' @ number_row vs @ tl1"
  have "fgets BUFSIZ (?line @ CHR 0x0A # ?tail) = Some (?line @ [CHR 0x0A], ?tail)"
    using assms number_row_plain [of vs] by (intro fgets_line) auto
  then have find: "find_cpu buf (?line @ CHR 0x0A # ?tail) = (?line @ [CHR 0x0A], ?tail)"
    by (subst find_cpu.simps) (simp add: strncmp_eq_def)
  have "strtok blanks (''cpu'' @ CHR '' '' # (number_row vs @ tl1 @ [CHR 0x0A])) =
      Some (''cpu'', number_row vs @ tl1 @ [CHR 0x0A])"
    by (rule strtok_token) auto
  then have tok: "strtok blanks (?line @ [CHR 0x0A]) = Some (''cpu'', number_row vs @ tl1 @ [CHR 0x0A])"
    by simp
  have row: "read_counters S_TOT (number_row vs @ tl1 @ [CHR 0x0A]) = (map of_nat vs, True)"
    unfolding assms(1) [symmetric] using assms(2-4) by (intro read_counters_row) (auto simp: hd_append)
  have "count_cpus ?tail 0 = int (length ls)"
    using count_cpus_lines [OF assms(8-12), of r 0] by simp
  then show ?thesis using find tok row assms(1)
    by (simp add: readstat_def strncmp_eq_def)
qed

theorem readstat_counts_witness:
  "readstat [] (Some (''cpu '' @ number_row [100, 2, 30, 4000, 5, 6, 7] @ '' 0'' @ CHR 0x0A #
      concat (map (\<lambda>l. l @ [CHR 0x0A]) [''cpu0 1 2'', ''cpu1 3 4'']) @ ''intr 5'' @ CHR 0x0A # []))
      (replicate 8 0) = (2, [100, 2, 30, 4000, 5, 6, 7, 0])"
proof -
  have "length (number_row [100, 2, 30, 4000, 5, 6, 7]) \<le> 147"
    using length_number_row [of "[100, 2, 30, 4000, 5, 6, 7]"] by simp
  then have row: "length (number_row [100, 2, 30, 4000, 5, 6, 7] @ '' 0'') + 6 \<le> BUFSIZ"
    by (simp add: BUFSIZ_def)
  show ?thesis
    by (subst readstat_counts [OF _ _ _ _ _ _ row])
      (simp_all add: S_TOT_def BUFSIZ_def strncmp_eq_def)
qed

text \<open>C21: one turn of \<open>watchstat\<close> whose memory file is readable sends every collector it can
  reach the processor record and then the memory record, and keeps the counters it read
  as the base of the next turn.\<close>

theorem watch_turn_reports:
  assumes "readmem (t_mem t) = Some mem" and "readstat (t_buf t) (t_stat t) (data s) = (n, d)"
    and "d' = set_total (if n < 1 then 1 else n) d"
  shows "\<exists>s' a'. watch_turn e t s a = Some (s', a') \<and> orig s' = d' \<and> data s' = d' \<and>
    (let cw = cpu_wire e (t_now t) (junk s) (orig s) d'; live = filter (t_ok1 t) (fds.members (bigfs a)) in
     sent a' = sent a @ map (\<lambda>i. (i, wire_store e cw)) live @
       map (\<lambda>i. (i, wire_store e (mem_wire e mem cw))) (filter (t_ok2 t) live) \<and>
     (\<forall>i. fd_has (bigfs a') i \<longleftrightarrow> i \<in> set live \<and> t_ok2 t i))"
proof -
  let ?cw = "cpu_wire e (t_now t) (junk s) (orig s) d'"
  let ?a1 = "report_stat e (t_log t) (t_ok1 t) ?cw a"
  have turn: "watch_turn e t s a = Some (s\<lparr>orig := d', data := d'\<rparr>,
      report_stat e (t_log t) (t_ok2 t) (mem_wire e mem ?cw) ?a1)"
    using assms by (simp add: watch_turn_def Let_def)
  have live: "fds.members (bigfs ?a1) = filter (t_ok1 t) (fds.members (bigfs a))"
    by (auto simp: fds.members_def report_stat_def broadcast_has intro!: filter_cong)
  show ?thesis
    unfolding turn Let_def
    by (intro exI conjI, rule refl)
      (simp_all add: report_stat_def [of e "t_log t" "t_ok2 t"] broadcast_sent broadcast_has live,
       auto simp: report_stat_def broadcast_sent broadcast_has fds.set_members)
qed

theorem watch_turn_reports_witness:
  "\<exists>s' a'. watch_turn Little \<lparr>t_now = (9, 1), t_buf = [], t_stat = None, t_mem = None, t_log = True,
      t_ok1 = (\<lambda>_. True), t_ok2 = (\<lambda>_. True)\<rparr>
    \<lparr>orig = replicate 8 0, data = replicate 8 0, junk = 7\<rparr> (agent_init\<lparr>bigfs := fd_add 5 fd_zero\<rparr>) =
      Some (s', a') \<and> fd_has (bigfs a') 5"
proof -
  let ?t = "\<lparr>t_now = (9, 1), t_buf = [], t_stat = None, t_mem = None, t_log = True,
      t_ok1 = (\<lambda>_. True), t_ok2 = (\<lambda>_. True)\<rparr>"
  let ?s = "\<lparr>orig = replicate 8 0, data = replicate 8 0, junk = 7 :: u8\<rparr>"
  have m: "readmem (t_mem ?t) = Some 0" by (simp add: readmem_def)
  have r: "readstat (t_buf ?t) (t_stat ?t) (data ?s) = (- 1, replicate 8 0)"
    by (simp add: readstat_def)
  have five: "5 \<in> set (fds.members (fd_add 5 fd_zero))"
    unfolding fds.set_members by (simp add: fd_has_add FD_SETSIZE_def)
  show ?thesis
    using watch_turn_reports [OF m r refl, of Little "agent_init\<lparr>bigfs := fd_add 5 fd_zero\<rparr>"] five
    by (auto simp: Let_def)
qed

end
