(* ===== verification/Flowconf.thy ===== *)
theory Flowconf
  imports CLib Fdset Wire
begin

text \<open>
  The configuration of \<open>recollect.c\<close>: \<open>addconn\<close> reads one line, which defines a flow
  of interest (\<open>id=port\<close>, \<open>id=first-last\<close>, \<open>id=Mflow\<close>) or names an agent to connect
  to (\<open>id:address:port\<close>). \<open>inet_aton\<close> and the results of \<open>realloc\<close> and \<open>socket\<close> are
  parameters.
\<close>

unbundle bit_operations_syntax

section \<open>State\<close>

record flow =
  id :: u16
  port0 :: u16
  port1 :: u16
  mgenid0 :: u32
  mgenid1 :: u32

record ssys =
  name :: string
  sin_addr :: u32
  sin_port :: u16
  sock :: int

record collector =
  flows :: "flow list"
  sys :: "ssys list"
  needconn :: fd_set
  bigfs :: fd_set
  lastsock :: int

definition collector_init :: collector where
  "collector_init = \<lparr>flows = [], sys = [], needconn = fd_zero, bigfs = fd_zero, lastsock = 0\<rparr>"

definition LINELEN :: nat where "LINELEN = 32"
definition NAMELEN :: nat where "NAMELEN = 4"
definition MAXFLOWS :: nat where "MAXFLOWS = 64"

text \<open>What is printed to standard error.\<close>

datatype msg = TooManyFlows | FlowRealloc | BadId | BadStart | BadEnd
  | SysRealloc | NoSocket | BadLine

section \<open>Flow lines\<close>

text \<open>\<open>s\<close> is what precedes the equals sign, \<open>v\<close> what follows it.\<close>

definition parse_flow :: "string \<Rightarrow> string \<Rightarrow> msg + flow" where
  "parse_flow s v =
    (let mgen = (v \<noteq> [] \<and> hd v = CHR ''M''); idx = (if mgen then tl v else v);
         fid = (word_of_int (atoi s) :: u16); m0 = (word_of_int (atol idx) :: u32)
     in if fid = 0 then Inl BadId
        else if m0 = 0 then Inl BadStart
        else (let m1 = (case split_first (CHR ''-'') idx of None \<Rightarrow> m0
                        | Some (_, hyp) \<Rightarrow> word_of_int (atol hyp)) in
          if m1 = 0 then Inl BadEnd
          else if \<not> mgen
          then Inr \<lparr>id = fid, port0 = ucast (m0 AND 0xFFFF), port1 = ucast (m1 AND 0xFFFF),
                 mgenid0 = 0, mgenid1 = 0\<rparr>
          else Inr \<lparr>id = fid, port0 = 0, port1 = 0, mgenid0 = m0, mgenid1 = m1\<rparr>))"

definition add_flow :: "bool \<Rightarrow> string \<Rightarrow> string \<Rightarrow> collector \<Rightarrow> collector \<times> msg list" where
  "add_flow realloc_ok s v c =
    (if length (flows c) < MAXFLOWS then
       (if realloc_ok then
          (case parse_flow s v of Inl m \<Rightarrow> (c, [m])
           | Inr f \<Rightarrow> (c\<lparr>flows := flows c @ [f]\<rparr>, []))
        else (c, [FlowRealloc]))
     else (c, [TooManyFlows, FlowRealloc]))"

section \<open>Agent lines\<close>

text \<open>The three tokens, the address and the port; None where the condition of the code fails.\<close>

definition parse_agent :: "(string \<Rightarrow> u32 option) \<Rightarrow> string \<Rightarrow> (string \<times> u32 \<times> u16) option" where
  "parse_agent inet_aton s =
    (case strtok '':'' s of None \<Rightarrow> None | Some (nm, r1) \<Rightarrow>
     (case strtok '':'' r1 of None \<Rightarrow> None | Some (ip, r2) \<Rightarrow>
      (case strtok [CHR 0x0A] r2 of None \<Rightarrow> None | Some (prt, _) \<Rightarrow>
       (case inet_aton ip of None \<Rightarrow> None | Some a \<Rightarrow>
          let p = (word_of_int (atoi prt) :: u16) in
          if p = 0 then None else Some (nm, a, p)))))"

text \<open>
  Adding a system to the list; None is the abort of \<open>FD_SET\<close> on a full field. The name
  is copied with \<open>strncpy(..., NAMELEN)\<close> and then cut at \<open>NAMELEN - 1\<close>.
\<close>

definition add_agent ::
  "endian \<Rightarrow> bool \<Rightarrow> int \<Rightarrow> string \<times> u32 \<times> u16 \<Rightarrow> collector \<Rightarrow> (collector \<times> msg list) option" where
  "add_agent e realloc_ok fd agent c = (case agent of (nm, a, p) \<Rightarrow>
     if \<not> realloc_ok then Some (c, [SysRealloc])
     else map_option (\<lambda>need. (c\<lparr>lastsock := max fd (lastsock c),
         sys := sys c @ [\<lparr>name = take (NAMELEN - 1) nm, sin_addr = a, sin_port = htons e p, sock = fd\<rparr>],
         needconn := need\<rparr>, []))
       (FD_SET (int (length (sys c))) (needconn c)))"

text \<open>
  \<open>addconn\<close>. The descriptor \<open>sock\<close> starts as -1, and \<open>socket\<close> is called only for a
  well-formed agent line, so the test \<open>sock < 0\<close> also catches every malformed line.
\<close>

definition addconn ::
  "endian \<Rightarrow> (string \<Rightarrow> u32 option) \<Rightarrow> bool \<Rightarrow> int \<Rightarrow> string \<Rightarrow> collector \<Rightarrow> (collector \<times> msg list) option" where
  "addconn e inet_aton realloc_ok fd line c =
    (let s = cut_at (CHR ''#'') (cut_at (CHR 0x0A) line) in
     case split_first (CHR ''='') s of
       Some (l, v) \<Rightarrow> Some (add_flow realloc_ok l v c)
     | None \<Rightarrow>
         (let agent = parse_agent inet_aton s; sck = (if agent = None then - 1 else fd) in
          case (agent, sck \<ge> 0) of
            (Some a, True) \<Rightarrow> add_agent e realloc_ok sck a c
          | _ \<Rightarrow> Some (c, [if sck < 0 then NoSocket else BadLine])))"

text \<open>
  Reading the file: lines of at most 31 characters; a longer line is read in pieces.
  \<open>env k\<close> gives the results of \<open>realloc\<close> and \<open>socket\<close> for the line number \<open>k\<close>.
\<close>

function load_conf ::
  "endian \<Rightarrow> (string \<Rightarrow> u32 option) \<Rightarrow> (nat \<Rightarrow> bool \<times> int) \<Rightarrow> nat \<Rightarrow> string \<Rightarrow> collector \<Rightarrow>
   (collector \<times> msg list) option" where
  "load_conf e inet_aton env k f c = (case fgets LINELEN f of None \<Rightarrow> Some (c, [])
     | Some (l, r) \<Rightarrow>
         (case addconn e inet_aton (fst (env k)) (snd (env k)) l c of None \<Rightarrow> None
          | Some (c', ms) \<Rightarrow>
              map_option (\<lambda>(c'', ms'). (c'', ms @ ms')) (load_conf e inet_aton env (k + 1) r c')))"
  by pat_completeness auto
termination
  by (relation "measure (\<lambda>(e, inet_aton, env, k, f, c). length f)") (auto dest: fgets_shrinks)

declare load_conf.simps [simp del]

section \<open>The invariant of the configuration\<close>

text \<open>
  A flow selects by ports or by MGEN flow ids, never by both; there are at most 64. Each
  system has a socket, waits for its connection, and no socket is in use yet.
\<close>

definition flow_ok :: "flow \<Rightarrow> bool" where
  "flow_ok f \<longleftrightarrow> id f \<noteq> 0 \<and> ((mgenid0 f = 0 \<and> mgenid1 f = 0) \<or>
     (port0 f = 0 \<and> port1 f = 0 \<and> mgenid0 f \<noteq> 0 \<and> mgenid1 f \<noteq> 0))"

definition conf_inv :: "collector \<Rightarrow> bool" where
  "conf_inv c \<longleftrightarrow> length (flows c) \<le> MAXFLOWS \<and> (\<forall>f \<in> set (flows c). flow_ok f) \<and>
     length (sys c) \<le> FD_SETSIZE \<and>
     (\<forall>s \<in> set (sys c). 0 \<le> sock s \<and> sock s \<le> lastsock c \<and> sin_port s \<noteq> 0 \<and>
        length (name s) < NAMELEN) \<and>
     (\<forall>i. fd_has (needconn c) i \<longleftrightarrow> i < length (sys c)) \<and> bigfs c = fd_zero"

lemma conf_inv_init: "conf_inv collector_init"
  by (simp add: conf_inv_def collector_init_def)

lemma parse_flow_ok: "parse_flow s v = Inr f \<Longrightarrow> flow_ok f"
  by (auto simp: parse_flow_def flow_ok_def Let_def split: if_splits option.splits)

lemma add_flow_inv: "conf_inv c \<Longrightarrow> conf_inv (fst (add_flow b s v c))"
  by (auto simp: add_flow_def conf_inv_def dest: parse_flow_ok split: sum.splits)

lemma htons_0 [simp]: "htons e 0 = 0"
  by (cases e) (simp_all add: join2_def byte_of_def)

lemma htons_eq_0 [simp]: "htons e p = 0 \<longleftrightarrow> p = 0"
  by (metis htons_0 htons_htons)

lemma parse_agent_port: "parse_agent at s = Some (nm, a, p) \<Longrightarrow> p \<noteq> 0"
  by (auto simp: parse_agent_def Let_def split: option.splits if_splits)

lemma add_agent_inv:
  assumes "conf_inv c" and "add_agent e b fd (nm, a, p) c = Some (c', ms)" and "0 \<le> fd" and "p \<noteq> 0"
  shows "conf_inv c'"
proof (cases b)
  case False
  then show ?thesis using assms by (simp add: add_agent_def)
next
  case True
  then have n: "length (sys c) < FD_SETSIZE"
    and c': "c' = c\<lparr>lastsock := max fd (lastsock c),
      sys := sys c @ [\<lparr>name = take (NAMELEN - 1) nm, sin_addr = a, sin_port = htons e p, sock = fd\<rparr>],
      needconn := fd_add (length (sys c)) (needconn c)\<rparr>"
    using assms(2) by (auto simp: add_agent_def FD_SET_def split: if_splits)
  show ?thesis using assms(1,3,4) n unfolding c'
    by (auto simp: conf_inv_def fd_has_add NAMELEN_def less_Suc_eq)
qed

lemma addconn_inv:
  "conf_inv c \<Longrightarrow> addconn e at b fd l c = Some (c', ms) \<Longrightarrow> conf_inv c'"
  using add_flow_inv [of c b]
  by (auto simp: addconn_def Let_def split: option.splits if_splits bool.splits
      dest: add_agent_inv parse_agent_port)
    (metis fst_conv)

lemma load_conf_inv:
  "load_conf e at env k f c = Some (c', ms) \<Longrightarrow> conf_inv c \<Longrightarrow> conf_inv c'"
proof (induction e at env k f c arbitrary: c' ms rule: load_conf.induct)
  case (1 e at env k f c)
  show ?case
  proof (cases "fgets LINELEN f")
    case None
    with 1(2,3) show ?thesis by (simp add: load_conf.simps [of e at env k f])
  next
    case (Some lr)
    then obtain l r where f: "fgets LINELEN f = Some (l, r)" by (cases lr) auto
    with 1(2) obtain c1 m1 m2 where c1: "addconn e at (fst (env k)) (snd (env k)) l c = Some (c1, m1)"
      and rest: "load_conf e at env (k + 1) r c1 = Some (c', m2)"
      by (auto simp: load_conf.simps [of e at env k f] split: option.splits)
    from 1(1) [OF f refl c1 refl rest] addconn_inv [OF 1(3) c1] show ?thesis by simp
  qed
qed

section \<open>Lemmas: the documented line formats\<close>

lemma cut_comment_id [simp]:
  "CHR 0x0A \<notin> set s \<Longrightarrow> CHR ''#'' \<notin> set s \<Longrightarrow>
   cut_at (CHR ''#'') (cut_at (CHR 0x0A) (s @ [CHR 0x0A])) = s"
  by simp

lemma strtol10_before [clib_simps]:
  "n < 2 ^ 63 \<Longrightarrow> \<not> is_digit c \<Longrightarrow> strtol10 (show_nat n @ c # r) = int n"
  by (rule strtol10_show_nat) auto

lemma strtol10_exact [clib_simps]: "n < 2 ^ 63 \<Longrightarrow> strtol10 (show_nat n) = int n"
  using strtol10_show_nat [of "[]" n] by simp

lemma atoi_exact [clib_simps]: "n < 2 ^ 31 \<Longrightarrow> atoi (show_nat n) = int n"
  using atoi_show_nat [of "[]" n] by simp

lemma hd_show_nat_neq_M [simp]: "hd (show_nat n) \<noteq> CHR ''M''"
  using hd_show_nat [of n] by (auto simp: is_digit_def)

lemma show_nat_no_char: "\<not> is_digit c \<Longrightarrow> c \<notin> set (show_nat n)"
  using show_nat_digits by blast

definition port_range :: "nat \<Rightarrow> nat \<Rightarrow> string" where
  "port_range a b = show_nat a @ ''-'' @ show_nat b"

lemma word_of_nat_neq_0: "0 < n \<Longrightarrow> n < 2 ^ LENGTH('a) \<Longrightarrow> (of_nat n :: 'a::len word) \<noteq> 0"
  by (simp add: word_of_nat_eq_0_iff) (auto dest: nat_dvd_not_less)

lemma mask16_small:
  assumes "n < 65536"
  shows "(ucast ((of_nat n :: u32) AND 0xFFFF) :: u16) = of_nat n"
proof -
  have "(of_nat n :: u32) AND 0xFFFF = take_bit 16 (of_nat n)"
    by (simp add: take_bit_eq_mask mask_eq_exp_minus_1)
  then have "ucast ((of_nat n :: u32) AND 0xFFFF) = (ucast (of_nat n :: u32) :: u16)"
    by (simp only:) (rule bit_word_eqI, auto simp: bit_simps)
  then show ?thesis using assms by (simp add: unsigned_of_nat take_bit_nat_eq_self)
qed

lemma parse_flow_ports:
  assumes "0 < n" "n < 65536" "0 < a" "a < 65536" "0 < b" "b < 65536"
  shows "parse_flow (show_nat n) (port_range a b) =
    Inr \<lparr>id = of_nat n, port0 = of_nat a, port1 = of_nat b, mgenid0 = 0, mgenid1 = 0\<rparr>"
proof -
  have "split_first (CHR ''-'') (port_range a b) = Some (show_nat a, show_nat b)"
    by (simp add: port_range_def show_nat_no_char is_digit_def)
  moreover have "strtol10 (port_range a b) = int a"
    using assms by (simp add: port_range_def strtol10_before is_digit_def)
  moreover have "hd (port_range a b) \<noteq> CHR ''M''"
    by (simp add: port_range_def hd_append)
  ultimately show ?thesis using assms
    by (simp add: parse_flow_def clib_simps word_of_nat_neq_0 mask16_small Let_def)
qed

lemma parse_flow_mgen:
  assumes "0 < n" "n < 65536" "0 < a" "a < 2 ^ 32" "0 < b" "b < 2 ^ 32"
  shows "parse_flow (show_nat n) (CHR ''M'' # port_range a b) =
    Inr \<lparr>id = of_nat n, port0 = 0, port1 = 0, mgenid0 = of_nat a, mgenid1 = of_nat b\<rparr>"
proof -
  have "split_first (CHR ''-'') (port_range a b) = Some (show_nat a, show_nat b)"
    by (simp add: port_range_def show_nat_no_char is_digit_def)
  moreover have "strtol10 (port_range a b) = int a"
    using assms by (simp add: port_range_def strtol10_before is_digit_def)
  ultimately show ?thesis using assms
    by (simp add: parse_flow_def clib_simps word_of_nat_neq_0 Let_def)
qed

lemma parse_flow_single:
  assumes "0 < n" "n < 65536" "0 < a" "a < 65536"
  shows "parse_flow (show_nat n) (show_nat a) =
    Inr \<lparr>id = of_nat n, port0 = of_nat a, port1 = of_nat a, mgenid0 = 0, mgenid1 = 0\<rparr>"
  using assms by (simp add: parse_flow_def clib_simps word_of_nat_neq_0 mask16_small Let_def
      show_nat_no_char is_digit_def)

lemma parse_flow_mgen_single:
  assumes "0 < n" "n < 65536" "0 < a" "a < 2 ^ 32"
  shows "parse_flow (show_nat n) (CHR ''M'' # show_nat a) =
    Inr \<lparr>id = of_nat n, port0 = 0, port1 = 0, mgenid0 = of_nat a, mgenid1 = of_nat a\<rparr>"
  using assms by (simp add: parse_flow_def clib_simps word_of_nat_neq_0 Let_def show_nat_no_char is_digit_def)

lemma port_range_plain: "c \<in> set (port_range a b) \<Longrightarrow> is_digit c \<or> c = CHR ''-''"
  using show_nat_digits by (auto simp: port_range_def)

lemma addconn_flow_line:
  assumes "CHR 0x0A \<notin> set l" "CHR ''#'' \<notin> set l" "CHR ''='' \<notin> set l"
    and "CHR 0x0A \<notin> set v" "CHR ''#'' \<notin> set v"
  shows "addconn e at b fd (l @ CHR ''='' # v @ [CHR 0x0A]) c = Some (add_flow b l v c)"
proof -
  have "cut_at (CHR ''#'') (cut_at (CHR 0x0A) ((l @ CHR ''='' # v) @ [CHR 0x0A])) = l @ CHR ''='' # v"
    using assms by (intro cut_comment_id) auto
  then show ?thesis using assms by (simp add: addconn_def)
qed

section \<open>Properties\<close>

text \<open>Every configuration file leads to a well-formed collector: at most 64 flows, each by
  ports or by flow ids but not both, and one pending socket per system.\<close>

theorem load_conf_wellformed:
  assumes "load_conf e at env 0 f collector_init = Some (c, ms)"
  shows "conf_inv c"
  using load_conf_inv [OF assms conf_inv_init] .

lemma load_one_line: "\<exists>c ms. load_conf Little (\<lambda>_. Some 7) (\<lambda>_. (True, 3)) 0 ''1=80'' collector_init = Some (c, ms)"
proof -
  have "fgets LINELEN ''1=80'' = Some (''1=80'', [])"
    by (simp add: fgets_def LINELEN_def cut_at_def)
  moreover obtain c ms where "addconn Little (\<lambda>_. Some 7) True 3 ''1=80'' collector_init = Some (c, ms)"
    by (cases "add_flow True ''1'' ''80'' collector_init") (simp add: addconn_def split_first_def cut_at_def)
  ultimately show ?thesis
    by (subst load_conf.simps) (simp add: load_conf.simps fgets_nil)
qed

theorem load_conf_wellformed_witness:
  "\<exists>c ms. load_conf Little (\<lambda>_. Some 7) (\<lambda>_. (True, 3)) 0 ''1=80'' collector_init = Some (c, ms) \<and>
     conf_inv c"
  using load_one_line load_conf_wellformed by blast

text \<open>The message for an incorrect line is never printed: a malformed line leaves the
  descriptor at -1, and the code takes that for a failure of \<open>socket\<close>.\<close>

theorem bad_line_never_reported:
  assumes "addconn e at b fd l c = Some (c', ms)"
  shows "BadLine \<notin> set ms"
  using assms
  by (auto simp: addconn_def add_flow_def add_agent_def parse_flow_def Let_def
      split: option.splits if_splits bool.splits sum.splits prod.splits)

theorem bad_line_never_reported_witness:
  "\<exists>c ms. addconn Little (\<lambda>_. None) True 3 ''nonsense'' collector_init = Some (c, ms) \<and> ms \<noteq> [] \<and>
     BadLine \<notin> set ms"
proof -
  have h: "addconn Little (\<lambda>_. None) True 3 ''nonsense'' collector_init = Some (collector_init, [NoSocket])"
    by (simp add: addconn_def parse_agent_def strtok_def cut_at_def)
  show ?thesis using h bad_line_never_reported [OF h] by blast
qed

lemma parse_agent_two_fields:
  assumes "CHR '':'' \<notin> set a" "CHR '':'' \<notin> set p"
  shows "parse_agent at (a @ CHR '':'' # p) = None"
proof -
  have end_tok: "strtok ds [] = None" for ds by (simp add: strtok_def)
  have last: "strtok '':'' p = None \<or> strtok '':'' p = Some (p, [])"
    using strtok_last [of p "'':''"] assms(2) by (cases "p = []") (auto simp: end_tok)
  show ?thesis
  proof (cases "a = []")
    case True
    then show ?thesis using last by (auto simp: parse_agent_def strtok_skip end_tok)
  next
    case False
    then have "strtok '':'' (a @ CHR '':'' # p) = Some (a, p)"
      using assms(1) by (intro strtok_token) auto
    then show ?thesis using last by (auto simp: parse_agent_def end_tok)
  qed
qed

text \<open>An agent line without the leading number, \<open>address:port\<close>, adds no system, whatever
  the address and the port.\<close>

theorem unnumbered_agent_rejected:
  assumes "\<forall>x \<in> set (a @ p). x \<notin> {CHR '':'', CHR ''='', CHR ''#'', CHR 0x0A}"
  shows "addconn e at b fd (a @ CHR '':'' # p @ [CHR 0x0A]) c = Some (c, [NoSocket])"
proof -
  have "cut_at (CHR ''#'') (cut_at (CHR 0x0A) ((a @ CHR '':'' # p) @ [CHR 0x0A])) = a @ CHR '':'' # p"
    using assms by (intro cut_comment_id) auto
  moreover have "parse_agent at (a @ CHR '':'' # p) = None"
    using assms by (intro parse_agent_two_fields) auto
  moreover have "CHR ''='' \<notin> set (a @ CHR '':'' # p)" using assms by auto
  ultimately show ?thesis by (simp add: addconn_def)
qed

theorem unnumbered_agent_rejected_witness:
  "addconn Little (\<lambda>_. Some 1) True 3 (''192.168.1.1'' @ CHR '':'' # ''7073'' @ [CHR 0x0A]) collector_init =
     Some (collector_init, [NoSocket])"
  by (rule unnumbered_agent_rejected) simp

text \<open>A numbered agent line \<open>number:address:port\<close> with a known address, a port in range
  and a free socket adds one pending system, named by the first three characters of the
  number, with the port in network order.\<close>

theorem agent_line_parsed:
  assumes "0 < q" "q < 65536" "0 \<le> fd"
    and "ip \<noteq> []" "\<forall>x \<in> set ip. x \<notin> {CHR '':'', CHR ''='', CHR ''#'', CHR 0x0A}" "at ip = Some ad"
    and "length (sys c) < FD_SETSIZE"
  shows "addconn e at True fd (show_nat n @ CHR '':'' # ip @ CHR '':'' # show_nat q @ [CHR 0x0A]) c =
    Some (c\<lparr>lastsock := max fd (lastsock c),
      sys := sys c @ [\<lparr>name = take 3 (show_nat n), sin_addr = ad, sin_port = htons e (of_nat q), sock = fd\<rparr>],
      needconn := fd_add (length (sys c)) (needconn c)\<rparr>, [])"
proof -
  let ?l = "show_nat n @ CHR '':'' # ip @ CHR '':'' # show_nat q"
  have plain: "x \<notin> set (show_nat k)" if "\<not> is_digit x" for x k
    using that by (rule show_nat_no_char)
  have "cut_at (CHR ''#'') (cut_at (CHR 0x0A) (?l @ [CHR 0x0A])) = ?l"
    using assms(5) by (intro cut_comment_id) (auto simp: plain is_digit_def)
  moreover have "CHR ''='' \<notin> set ?l" using assms(5) by (auto simp: plain is_digit_def)
  moreover have "strtok '':'' ?l = Some (show_nat n, ip @ CHR '':'' # show_nat q)"
    using plain [of "CHR '':''"] by (intro strtok_token) (auto simp: is_digit_def)
  moreover have "strtok '':'' (ip @ CHR '':'' # show_nat q) = Some (ip, show_nat q)"
    using assms(4,5) by (intro strtok_token) auto
  moreover have "strtok [CHR 0x0A] (show_nat q) = Some (show_nat q, [])"
    using plain [of "CHR 0x0A"] by (intro strtok_last) (auto simp: is_digit_def)
  ultimately show ?thesis
    using assms by (simp add: addconn_def parse_agent_def clib_simps word_of_nat_neq_0 add_agent_def
        NAMELEN_def)
qed

theorem agent_line_parsed_witness:
  "\<exists>c. addconn Little (\<lambda>_. Some 7) True 3
      (show_nat 12 @ CHR '':'' # ''10.0.0.1'' @ CHR '':'' # show_nat 7073 @ [CHR 0x0A]) collector_init =
     Some (c, []) \<and> length (sys c) = 1"
  using agent_line_parsed [of 7073 3 "''10.0.0.1''" "\<lambda>_. Some 7" 7 collector_init Little 12]
  by (simp add: collector_init_def FD_SETSIZE_def)

end
