(* ===== verification/Collect.thy ===== *)
theory Collect
  imports Flowconf
begin

text \<open>
  How \<open>recollect.c\<close> turns one agent message into output lines: \<open>findflow\<close> computes
  the set of matching flows as a 64-bit mask, \<open>consume\<close> reads a message and prints one
  line per matching flow, or one line of type \<open>X\<close>, \<open>C\<close> or \<open>M\<close>.
\<close>

unbundle bit_operations_syntax

section \<open>findflow\<close>

text \<open>
  \<open>1 << i\<close> on a 32-bit \<open>int\<close>, converted to \<open>uint64_t\<close>. For \<open>i = 31\<close> the compiler the
  Makefile names gives the sign bit, which the conversion extends; for larger \<open>i\<close> the
  shift is undefined, which is the result None.
\<close>

definition int_bit :: "nat \<Rightarrow> u64 option" where
  "int_bit i = (if i < 32 then Some (scast (push_bit i (1 :: 32 word))) else None)"

definition flow_matches :: "u16 \<Rightarrow> u32 \<Rightarrow> flow \<Rightarrow> bool" where
  "flow_matches p m f \<longleftrightarrow> (p \<noteq> 0 \<and> port0 f \<le> p \<and> port1 f \<ge> p) \<or>
     (m \<noteq> 0 \<and> mgenid0 f \<le> m \<and> mgenid1 f \<ge> m)"

fun findflow_loop :: "u16 \<Rightarrow> u32 \<Rightarrow> nat \<Rightarrow> flow list \<Rightarrow> u64 \<Rightarrow> u64 option" where
  "findflow_loop p m i [] rv = Some rv"
| "findflow_loop p m i (f # fs) rv =
    (if flow_matches p m f then
       (case int_bit i of None \<Rightarrow> None | Some b \<Rightarrow> findflow_loop p m (i + 1) fs (rv OR b))
     else findflow_loop p m (i + 1) fs rv)"

definition findflow :: "flow list \<Rightarrow> u16 \<Rightarrow> u32 \<Rightarrow> u64 option" where
  "findflow fs p m = findflow_loop p m 0 fs 0"

section \<open>consume\<close>

definition stamp :: "endian \<Rightarrow> wire \<Rightarrow> string" where
  "stamp e w = show_nat (unat (ntohl e (sec w))) @ ''.'' @ show_06d (sint (ntohl e (usec w)))"

definition row :: "string \<Rightarrow> string \<Rightarrow> string \<Rightarrow> nat \<Rightarrow> string \<Rightarrow> string" where
  "row st who fl val lvl = st @ '':'' @ who @ '':'' @ fl @ '':'' @ show_nat val @ '':'' @ lvl @ [CHR 0x0A]"

definition level :: "u8 \<Rightarrow> string" where
  "level en = (if en \<noteq> 0 then ''1'' else ''0'')"

definition bits_of :: "endian \<Rightarrow> wire \<Rightarrow> nat" where
  "bits_of e w = unat (ntohs e (len w)) * 8"

text \<open>
  \<open>(ntohs(otw.len) << 8) * 1024\<close>. The operands are promoted to \<open>int\<close>, so a product of 2^31 or
  more is undefined: None.
\<close>

definition mem_value :: "endian \<Rightarrow> wire \<Rightarrow> nat option" where
  "mem_value e w = (let v = unat (ntohs e (len w)) * 2 ^ 8 * 1024 in if v < 2 ^ 31 then Some v else None)"

definition is_cpu_report :: "endian \<Rightarrow> wire \<Rightarrow> bool" where
  "is_cpu_report e w \<longleftrightarrow> ntohs e (dport w) = 1 \<and> ntohs e (sport w) = 1 \<and>
     saddr w = 1 \<and> daddr w = 1 \<and> ntohl e (flowid w) = FLOWID_CPU"

definition is_mem_report :: "endian \<Rightarrow> wire \<Rightarrow> bool" where
  "is_mem_report e w \<longleftrightarrow> ntohs e (dport w) = 2 \<and> ntohs e (sport w) = 2 \<and>
     saddr w = 2 \<and> daddr w = 2 \<and> ntohl e (flowid w) = FLOWID_MEM"

text \<open>
  The loop over the flows. The flag byte is incremented after each line, so every line
  behind the first is of the secondary level.
\<close>

fun flow_rows :: "endian \<Rightarrow> string \<Rightarrow> wire \<Rightarrow> u64 \<Rightarrow> nat \<Rightarrow> flow list \<Rightarrow> u8 \<Rightarrow> string list option" where
  "flow_rows e who w ffr k [] en = Some []"
| "flow_rows e who w ffr k (f # fs) en = (case int_bit k of None \<Rightarrow> None
     | Some b \<Rightarrow>
         if ffr AND b \<noteq> 0 then
           map_option ((#) (row (stamp e w) who (show_nat (unat (id f))) (bits_of e w) (level en)))
             (flow_rows e who w ffr (k + 1) fs (en + 1))
         else flow_rows e who w ffr (k + 1) fs en)"

definition message_rows :: "endian \<Rightarrow> flow list \<Rightarrow> string \<Rightarrow> wire \<Rightarrow> string list option" where
  "message_rows e fs who w =
    (if is_cpu_report e w then
       Some [row (stamp e w) who ''C'' (unat (ntohs e (len w))) ''0'']
     else if is_mem_report e w then
       map_option (\<lambda>v. [row (stamp e w) who ''M'' v ''0'']) (mem_value e w)
     else (case findflow fs (ntohs e (dport w)) (ntohl e (flowid w)) of None \<Rightarrow> None
       | Some ffr \<Rightarrow>
           if ffr = 0 then Some [row (stamp e w) who ''X'' (bits_of e w) (level (encapped w))]
           else flow_rows e who w ffr 0 fs (encapped w)))"

text \<open>
  \<open>consume\<close>. \<open>n\<close> is what \<open>recv\<close> returned and \<open>w\<close> what the record holds afterwards: the
  message when \<open>n\<close> is 28, otherwise (partly) what the stack held before. The comparison
  with \<open>sizeof\<close> is unsigned, so a failed \<open>recv\<close>, which returns -1, passes it.
  The result is the return value, the printed lines and the new value of \<open>last\<close>.
\<close>

definition short_read :: "int \<Rightarrow> bool" where
  "short_read n \<longleftrightarrow> (word_of_int n :: u64) < word_of_int (int WIRE_SIZE)"

definition consume ::
  "endian \<Rightarrow> flow list \<Rightarrow> string \<Rightarrow> int \<Rightarrow> wire \<Rightarrow> u32 \<Rightarrow> (int \<times> string list \<times> u32) option" where
  "consume e fs who n w prev =
    (if short_read n then Some (- 1, [], prev)
     else map_option (\<lambda>rows. (0, rows, sec w)) (message_rows e fs who w))"

section \<open>Lemmas: the mask\<close>

lemma bit_int_bit:
  "int_bit i = Some b \<Longrightarrow> bit b k \<longleftrightarrow> k < 64 \<and> (k = i \<or> (i = 31 \<and> 31 < k))"
proof -
  assume h: "int_bit i = Some b"
  define s where "s = push_bit i (1 :: 32 word)"
  from h have i: "i < 32" and b: "b = scast s" by (auto simp: int_bit_def s_def split: if_splits)
  have "bit s n \<longleftrightarrow> n = i \<and> n < 32" for n by (auto simp: s_def bit_simps)
  then have "bit b k \<longleftrightarrow> k < 64 \<and> min 31 k = i"
    by (auto simp: b bit_simps min_def)
  with i show ?thesis by (auto simp: min_def)
qed

lemma int_bit_defined: "i < 32 \<Longrightarrow> \<exists>b. int_bit i = Some b"
  by (simp add: int_bit_def)

lemma findflow_loop_bits:
  assumes "i + length fs \<le> 32"
  shows "\<exists>r. findflow_loop p m i fs rv = Some r \<and>
    (\<forall>k. bit r k \<longleftrightarrow> bit rv k \<or>
      (\<exists>j < length fs. flow_matches p m (fs ! j) \<and> bit (the (int_bit (i + j))) k))"
  using assms
proof (induction fs arbitrary: i rv)
  case Nil
  then show ?case by auto
next
  case (Cons f fs)
  from Cons.prems int_bit_defined [of i] obtain b where b: "int_bit i = Some b" by auto
  have split: "(\<exists>j < length (f # fs). flow_matches p m ((f # fs) ! j) \<and> bit (the (int_bit (i + j))) k) \<longleftrightarrow>
      (flow_matches p m f \<and> bit b k) \<or>
      (\<exists>j < length fs. flow_matches p m (fs ! j) \<and> bit (the (int_bit (i + 1 + j))) k)" for k
    by (simp add: Ex_less_Suc2 b)
  from Cons.prems have "(i + 1) + length fs \<le> 32" by simp
  note IH = Cons.IH [OF this]
  show ?case
  proof (cases "flow_matches p m f")
    case True
    then show ?thesis using IH [of "rv OR b"] b unfolding split by (auto simp: bit_or_iff)
  next
    case False
    then show ?thesis using IH [of rv] unfolding split by auto
  qed
qed

lemma bit_the_int_bit:
  "j < 32 \<Longrightarrow> bit (the (int_bit j)) k \<longleftrightarrow> k < 64 \<and> (k = j \<or> (j = 31 \<and> 31 < k))"
  using bit_int_bit [of j] int_bit_defined [of j] by auto

lemma findflow_bits:
  assumes "length fs \<le> 32"
  shows "\<exists>r. findflow fs p m = Some r \<and>
    (\<forall>k < 32. bit r k \<longleftrightarrow> k < length fs \<and> flow_matches p m (fs ! k)) \<and>
    (\<forall>k \<ge> 32. bit r k \<longrightarrow> 31 < length fs \<and> flow_matches p m (fs ! 31))"
proof -
  obtain r where r: "findflow fs p m = Some r"
    and bits: "\<And>k. bit r k \<longleftrightarrow>
      (\<exists>j < length fs. flow_matches p m (fs ! j) \<and> bit (the (int_bit j)) k)"
    using findflow_loop_bits [of 0 fs p m 0] assms by (auto simp: findflow_def)
  have "bit r k \<longleftrightarrow> k < length fs \<and> flow_matches p m (fs ! k)" if "k < 32" for k
    using assms that unfolding bits by (auto simp: bit_the_int_bit)
  moreover have "31 < length fs \<and> flow_matches p m (fs ! 31)" if "k \<ge> 32" "bit r k" for k
    using assms that unfolding bits by (auto simp: bit_the_int_bit)
  ultimately show ?thesis using r by blast
qed

lemma bit_u64: "bit (w :: u64) n \<Longrightarrow> n < 64"
  by (drule bit_imp_le_length) simp

lemma findflow_selects:
  assumes "length fs \<le> 32" and "findflow fs p m = Some r"
  shows "(\<forall>k < length fs. (r AND the (int_bit k) \<noteq> 0) = flow_matches p m (fs ! k)) \<and>
    ((r = 0) = (\<forall>f \<in> set fs. \<not> flow_matches p m f))"
proof -
  from findflow_bits [OF assms(1), of p m] obtain r' where r': "findflow fs p m = Some r'"
    and low': "\<forall>k < 32. bit r' k \<longleftrightarrow> k < length fs \<and> flow_matches p m (fs ! k)"
    and high': "\<forall>k \<ge> 32. bit r' k \<longrightarrow> 31 < length fs \<and> flow_matches p m (fs ! 31)"
    by blast
  from r' assms(2) have "r' = r" by simp
  note low = low' [unfolded this, rule_format] and high = high' [unfolded this, rule_format]
  have test: "(r AND the (int_bit k) \<noteq> 0) = flow_matches p m (fs ! k)" if k: "k < length fs" for k
  proof -
    have "(r AND the (int_bit k) \<noteq> 0) = (\<exists>n. bit r n \<and> bit (the (int_bit k)) n)"
      by (auto simp: bit_eq_iff [of "r AND _"] bit_and_iff dest: bit_u64)
    also have "\<dots> = flow_matches p m (fs ! k)"
    proof
      assume "\<exists>n. bit r n \<and> bit (the (int_bit k)) n"
      then obtain n where n: "bit r n" "n = k \<or> (k = 31 \<and> 31 < n)"
        using k assms(1) by (auto simp: bit_the_int_bit)
      then show "flow_matches p m (fs ! k)"
        using k assms(1) low [of k] high [of n] by auto
    next
      assume "flow_matches p m (fs ! k)"
      then show "\<exists>n. bit r n \<and> bit (the (int_bit k)) n"
        using k assms(1) low [of k] by (intro exI [of _ k]) (auto simp: bit_the_int_bit)
    qed
    finally show ?thesis .
  qed
  have "(r = 0) = (\<forall>f \<in> set fs. \<not> flow_matches p m f)"
  proof
    assume "r = 0"
    then show "\<forall>f \<in> set fs. \<not> flow_matches p m f"
      using test by (auto simp: in_set_conv_nth)
  next
    assume none: "\<forall>f \<in> set fs. \<not> flow_matches p m f"
    show "r = 0"
    proof (rule bit_word_eqI)
      fix n :: nat
      have "\<not> bit r n"
        using none low [of n] high [of n] by (cases "n < 32") auto
      then show "bit r n = bit 0 n" by simp
    qed
  qed
  with test show ?thesis by blast
qed

section \<open>Lemmas: the printed rows\<close>

fun rows_from :: "endian \<Rightarrow> string \<Rightarrow> wire \<Rightarrow> (flow \<Rightarrow> bool) \<Rightarrow> flow list \<Rightarrow> u8 \<Rightarrow> string list" where
  "rows_from e who w P [] en = []"
| "rows_from e who w P (f # fs) en = (if P f
     then row (stamp e w) who (show_nat (unat (id f))) (bits_of e w) (level en) #
       rows_from e who w P fs (en + 1)
     else rows_from e who w P fs en)"

lemma flow_rows_eq:
  assumes "k + length fs \<le> 32"
    and "\<forall>j < length fs. (ffr AND the (int_bit (k + j)) \<noteq> 0) = P (fs ! j)"
  shows "flow_rows e who w ffr k fs en = Some (rows_from e who w P fs en)"
  using assms
proof (induction fs arbitrary: k en)
  case Nil
  then show ?case by simp
next
  case (Cons f fs)
  from Cons.prems(1) int_bit_defined [of k] obtain b where b: "int_bit k = Some b" by auto
  have "k + 1 + length fs \<le> 32" using Cons.prems(1) by simp
  moreover have "\<forall>j < length fs. (ffr AND the (int_bit (k + 1 + j)) \<noteq> 0) = P (fs ! j)"
    using Cons.prems(2) by (auto dest: spec [of _ "Suc _"])
  moreover have "(ffr AND b \<noteq> 0) = P f"
    using Cons.prems(2) b by (auto dest: spec [of _ 0])
  ultimately show ?case using Cons.IH [of "k + 1"] b by simp
qed

lemma rows_from_secondary:
  assumes "en \<noteq> 0" and "unat en + length fs < 256"
  shows "rows_from e who w P fs en =
    map (\<lambda>f. row (stamp e w) who (show_nat (unat (id f))) (bits_of e w) ''1'') (filter P fs)"
  using assms
proof (induction fs arbitrary: en)
  case Nil
  then show ?case by simp
next
  case (Cons f fs)
  have "unat (en + 1) = unat en + 1"
    using Cons.prems(2) by (subst unat_add_lem [THEN iffD1]) auto
  moreover from this have "en + 1 \<noteq> 0" by (metis add_is_0 one_neq_zero unat_0)
  ultimately show ?case using Cons by (simp add: level_def)
qed

lemma rows_from_primary:
  assumes "length fs < 255"
  shows "rows_from e who w P fs 0 = (case filter P fs of [] \<Rightarrow> []
    | f # gs \<Rightarrow> row (stamp e w) who (show_nat (unat (id f))) (bits_of e w) ''0'' #
        map (\<lambda>g. row (stamp e w) who (show_nat (unat (id g))) (bits_of e w) ''1'') gs)"
  using assms
  by (induction fs) (auto simp: level_def rows_from_secondary)

lemma findflow_loop_nonzero:
  assumes "findflow_loop p m i fs rv = Some r" and "rv \<noteq> 0 \<or> (\<exists>f \<in> set fs. flow_matches p m f)"
  shows "r \<noteq> 0"
  using assms
proof (induction p m i fs rv rule: findflow_loop.induct)
  case (1 p m i rv)
  then show ?case by simp
next
  case (2 p m i f fs rv)
  show ?case
  proof (cases "flow_matches p m f")
    case False
    then show ?thesis using 2 by auto
  next
    case True
    with 2 obtain b where b: "int_bit i = Some b" by (auto split: option.splits)
    then have "i < 32" by (auto simp: int_bit_def split: if_splits)
    then have "bit (rv OR b) i" using bit_int_bit [OF b, of i] by (simp add: bit_or_iff)
    then have "rv OR b \<noteq> 0" by auto
    with 2 True b show ?thesis by auto
  qed
qed

lemma flow_rows_undefined:
  "k \<le> 32 \<Longrightarrow> 32 < k + length fs \<Longrightarrow> flow_rows e who w ffr k fs en = None"
proof (induction fs arbitrary: k en)
  case Nil
  then show ?case by simp
next
  case (Cons f fs)
  show ?case
  proof (cases "k = 32")
    case True
    then show ?thesis by (simp add: int_bit_def)
  next
    case False
    then have "k + 1 \<le> 32" "32 < (k + 1) + length fs" using Cons.prems by auto
    then show ?thesis using Cons.IH by (auto split: option.splits)
  qed
qed

lemma short_read_iff: "0 \<le> n \<Longrightarrow> n < 2 ^ 63 \<Longrightarrow> short_read n \<longleftrightarrow> n < 28"
  by (simp add: short_read_def WIRE_SIZE_def word_less_def uint_word_of_int)

lemma consume_rows:
  assumes "length fs \<le> 32" and "\<not> is_cpu_report e w" "\<not> is_mem_report e w" and "encapped w = 0"
  shows "consume e fs who 28 w prev = Some (0,
    (case filter (flow_matches (ntohs e (dport w)) (ntohl e (flowid w))) fs of
       [] \<Rightarrow> [row (stamp e w) who ''X'' (bits_of e w) ''0'']
     | f # gs \<Rightarrow> row (stamp e w) who (show_nat (unat (id f))) (bits_of e w) ''0'' #
         map (\<lambda>g. row (stamp e w) who (show_nat (unat (id g))) (bits_of e w) ''1'') gs), sec w)"
proof -
  let ?P = "flow_matches (ntohs e (dport w)) (ntohl e (flowid w))"
  obtain r where r: "findflow fs (ntohs e (dport w)) (ntohl e (flowid w)) = Some r"
    using findflow_bits [OF assms(1)] by blast
  note sel = findflow_selects [OF assms(1) r]
  have rows: "flow_rows e who w r 0 fs 0 = Some (rows_from e who w ?P fs 0)"
    using sel assms(1) by (intro flow_rows_eq) auto
  have none: "(r = 0) = (filter ?P fs = [])"
    using sel by (simp add: filter_empty_conv)
  show ?thesis
    using assms rows none
    by (auto simp: consume_def short_read_iff message_rows_def r level_def rows_from_primary
        split: list.splits)
qed

section \<open>Lemmas: what a configured flow selects\<close>

lemma word_range:
  fixes p :: "'a::len word"
  assumes "a < 2 ^ LENGTH('a)" "b < 2 ^ LENGTH('a)"
  shows "of_nat a \<le> p \<and> p \<le> of_nat b \<longleftrightarrow> a \<le> unat p \<and> unat p \<le> b"
  using assms by (simp add: word_le_nat_alt unsigned_of_nat take_bit_nat_eq_self)

lemma word_of_nat_nonzero: "0 < a \<Longrightarrow> a < 2 ^ LENGTH('a) \<Longrightarrow> of_nat a \<noteq> (0 :: 'a::len word)"
proof
  assume a: "0 < a" "a < 2 ^ LENGTH('a)" and z: "of_nat a = (0 :: 'a word)"
  have "unat (of_nat a :: 'a word) = a" using a(2) by (simp add: unsigned_of_nat take_bit_nat_eq_self)
  then show False using a(1) by (simp add: z)
qed

text \<open>What a line that defines a flow adds, when it is parsed to \<open>f\<close>.\<close>

lemma flow_line_added:
  assumes "parse_flow (show_nat n) v = Inr f" and "\<forall>x \<in> set v. is_digit x \<or> x = CHR ''-'' \<or> x = CHR ''M''"
    and "length (flows c) < MAXFLOWS"
  shows "addconn e at True fd (show_nat n @ CHR ''='' # v @ [CHR 0x0A]) c = Some (c\<lparr>flows := flows c @ [f]\<rparr>, [])"
proof -
  have "CHR 0x0A \<notin> set v" "CHR ''#'' \<notin> set v" using assms(2) by (auto simp: is_digit_def)
  moreover have "CHR 0x0A \<notin> set (show_nat n)" "CHR ''#'' \<notin> set (show_nat n)" "CHR ''='' \<notin> set (show_nat n)"
    by (auto intro!: show_nat_no_char simp: is_digit_def)
  ultimately show ?thesis using assms(1,3) by (simp add: addconn_flow_line add_flow_def)
qed

lemma digits_plain:
  "x \<in> set (show_nat a) \<Longrightarrow> is_digit x \<or> x = CHR ''-'' \<or> x = CHR ''M''"
  "x \<in> set (port_range a b) \<Longrightarrow> is_digit x \<or> x = CHR ''-'' \<or> x = CHR ''M''"
  using show_nat_digits [of a] port_range_plain [of x a b] by auto

definition line_selects ::
  "endian \<Rightarrow> (string \<Rightarrow> u32 option) \<Rightarrow> int \<Rightarrow> collector \<Rightarrow> nat \<Rightarrow> string \<Rightarrow> (nat \<Rightarrow> nat \<Rightarrow> bool) \<Rightarrow> bool" where
  "line_selects e at fd c n v S \<longleftrightarrow> (\<exists>f. addconn e at True fd (show_nat n @ CHR ''='' # v @ [CHR 0x0A]) c =
      Some (c\<lparr>flows := flows c @ [f]\<rparr>, []) \<and> unat (id f) = n \<and>
      (\<forall>p m. flow_matches p m f \<longleftrightarrow> S (unat p) (unat m)))"

lemma line_selectsI:
  assumes "parse_flow (show_nat n) v = Inr f" and "\<forall>x \<in> set v. is_digit x \<or> x = CHR ''-'' \<or> x = CHR ''M''"
    and "length (flows c) < MAXFLOWS" and "unat (id f) = n" and "\<And>p m. flow_matches p m f \<longleftrightarrow> S (unat p) (unat m)"
  shows "line_selects e at fd c n v S"
  using flow_line_added [OF assms(1-3)] assms(4,5) by (auto simp: line_selects_def)

lemma port_flow_matches:
  assumes "0 < a" "a < 65536" "b < 65536"
  shows "flow_matches p m \<lparr>id = n, port0 = of_nat a, port1 = of_nat b, mgenid0 = 0, mgenid1 = 0\<rparr> \<longleftrightarrow> a \<le> unat p \<and> unat p \<le> b"
proof -
  have "of_nat a \<noteq> (0 :: u16)" using assms(1,2) by (intro word_of_nat_nonzero) simp_all
  moreover have "a \<le> unat p \<Longrightarrow> p \<noteq> 0" using assms by auto
  ultimately show ?thesis using word_range [of a b p] assms by (auto simp: flow_matches_def)
qed

lemma mgen_flow_matches:
  assumes "0 < i" "i < 2 ^ 32" "j < 2 ^ 32"
  shows "flow_matches p m \<lparr>id = n, port0 = 0, port1 = 0, mgenid0 = of_nat i, mgenid1 = of_nat j\<rparr> \<longleftrightarrow> i \<le> unat m \<and> unat m \<le> j"
proof -
  have "of_nat i \<noteq> (0 :: u32)" using assms(1,2) by (intro word_of_nat_nonzero) simp_all
  moreover have "i \<le> unat m \<Longrightarrow> m \<noteq> 0" using assms by auto
  ultimately show ?thesis using word_range [of i j m] assms by (auto simp: flow_matches_def)
qed

section \<open>Properties\<close>



text \<open>C4: a packet message of 28 bytes, from a configuration of at most 32 flows, is printed
  once for every flow whose ports or flow ids contain it, in the order of the file, the
  first line at the primary level and the others at the secondary level; a packet in no
  flow is printed once as \<open>X\<close>.\<close>

theorem consume_packet:
  assumes "length fs \<le> 32" and "\<not> is_cpu_report e w" "\<not> is_mem_report e w" and "encapped w = 0"
  shows "consume e fs who 28 w prev = Some (0,
    (case filter (flow_matches (ntohs e (dport w)) (ntohl e (flowid w))) fs of
       [] \<Rightarrow> [row (stamp e w) who ''X'' (bits_of e w) ''0'']
     | f # gs \<Rightarrow> row (stamp e w) who (show_nat (unat (id f))) (bits_of e w) ''0'' #
         map (\<lambda>g. row (stamp e w) who (show_nat (unat (id g))) (bits_of e w) ''1'') gs), sec w)"
  using assms by (rule consume_rows)

text \<open>A message cut short is an error: nothing is printed and the caller is told to drop
  the connection.\<close>

theorem consume_short:
  assumes "0 \<le> n" "n < 28"
  shows "consume e fs who n w prev = Some (- 1, [], prev)"
  using assms by (simp add: consume_def short_read_iff)

text \<open>A failed \<open>recv\<close> is not an error to \<open>consume\<close>: -1 passes the unsigned comparison, and
  the record left on the stack is printed as if it had been received.\<close>

theorem consume_failed_recv:
  "consume e fs who (- 1) w prev = consume e fs who 28 w prev"
proof -
  have "\<not> short_read (- 1)" by (simp add: short_read_def WIRE_SIZE_def not_less)
  then show ?thesis by (simp add: consume_def short_read_iff)
qed

text \<open>C36: although 64 flows may be configured, with more than 32 the shift that numbers them is
  undefined for every packet that belongs to some flow.\<close>

theorem consume_many_flows_undefined:
  assumes "32 < length fs" and "\<not> is_cpu_report e w" "\<not> is_mem_report e w"
    and "\<exists>f \<in> set fs. flow_matches (ntohs e (dport w)) (ntohl e (flowid w)) f"
  shows "consume e fs who 28 w prev = None"
proof (cases "findflow fs (ntohs e (dport w)) (ntohl e (flowid w))")
  case None
  then show ?thesis using assms by (simp add: consume_def short_read_iff message_rows_def)
next
  case (Some r)
  then have "r \<noteq> 0"
    using findflow_loop_nonzero [OF Some [unfolded findflow_def]] assms(4) by blast
  then show ?thesis
    using assms Some flow_rows_undefined [of 0 fs]
    by (simp add: consume_def short_read_iff message_rows_def)
qed

definition sample_flow :: "nat \<Rightarrow> flow" where
  "sample_flow n = \<lparr>id = of_nat n, port0 = 2000, port1 = 2100, mgenid0 = 0, mgenid1 = 0\<rparr>"

definition sample_packet :: wire where
  "sample_packet = wire_zero\<lparr>dport := 2000, len := 100, sec := 5\<rparr>"

theorem consume_packet_witness:
  "consume Big [sample_flow 1, sample_flow 2] ''7'' 28 sample_packet 0 = Some (0,
     [row (stamp Big sample_packet) ''7'' (show_nat 1) 800 ''0'',
      row (stamp Big sample_packet) ''7'' (show_nat 2) 800 ''1''], 5)"
proof -
  have h: "length [sample_flow 1, sample_flow 2] \<le> 32" "\<not> is_cpu_report Big sample_packet"
    "\<not> is_mem_report Big sample_packet" "encapped sample_packet = 0"
    by (simp_all add: is_cpu_report_def is_mem_report_def sample_packet_def wire_zero_def)
  show ?thesis
    using consume_packet [OF h, of "''7''" 0]
    by (simp add: sample_packet_def wire_zero_def sample_flow_def flow_matches_def bits_of_def)
qed

theorem consume_short_witness:
  "consume Little [] ''1'' 27 sample_packet 9 = Some (- 1, [], 9)"
  by (rule consume_short) simp_all

theorem consume_many_flows_undefined_witness:
  "consume Big (map sample_flow [1..<34]) ''7'' 28 sample_packet 0 = None"
proof (rule consume_many_flows_undefined)
  show "\<exists>f \<in> set (map sample_flow [1..<34]).
      flow_matches (ntohs Big (dport sample_packet)) (ntohl Big (flowid sample_packet)) f"
    by (auto simp: sample_packet_def wire_zero_def sample_flow_def flow_matches_def
        intro!: bexI [of _ 1])
qed (simp_all add: is_cpu_report_def is_mem_report_def sample_packet_def wire_zero_def)

end
