(* ===== verification/Svcmaps.thy ===== *)
theory Svcmaps
  imports CLib
begin

text \<open>
  The tables of \<open>svcreqollect.c\<close>: the ports of interest read from the configuration, the
  hosts with their addresses, and the buffer of the HTTP reply. The results of
  \<open>realloc\<close> are parameters.
\<close>

unbundle bit_operations_syntax

definition LINELEN_svc :: nat where "LINELEN_svc = 32"
definition UINT_MAX :: u32 where "UINT_MAX = 0xFFFFFFFF"

section \<open>Ports\<close>

text \<open>
  \<open>priorities\<close>, without its counters: entry 0 is allocated zeroed, for the requests of no
  configured port. What precedes the equals sign is ignored: a port is numbered by its
  position in the file.
\<close>

definition priorities_init :: "u16 list" where
  "priorities_init = [0]"

definition addprio :: "bool \<Rightarrow> string \<Rightarrow> u16 list \<Rightarrow> u16 list" where
  "addprio realloc_ok line ps =
    (let s = cut_at (CHR ''#'') (cut_at (CHR 0x0A) line) in
     case split_first (CHR ''='') s of None \<Rightarrow> ps
     | Some (_, v) \<Rightarrow> if realloc_ok then
         (let p = (word_of_int (atoi v) :: u16) in if p \<noteq> 0 then ps @ [p] else ps) else ps)"

function load_prio :: "(nat \<Rightarrow> bool) \<Rightarrow> nat \<Rightarrow> string \<Rightarrow> u16 list \<Rightarrow> u16 list" where
  "load_prio env k f ps = (case fgets LINELEN_svc f of None \<Rightarrow> ps
     | Some (l, r) \<Rightarrow> load_prio env (k + 1) r (addprio (env k) l ps))"
  by pat_completeness auto
termination
  by (relation "measure (\<lambda>(env, k, f, ps). length f)") (auto dest: fgets_shrinks)

declare load_prio.simps [simp del]

fun find_port_from :: "nat \<Rightarrow> u16 list \<Rightarrow> u16 \<Rightarrow> u32" where
  "find_port_from i [] p = UINT_MAX"
| "find_port_from i (q # qs) p = (if q = p then of_nat i else find_port_from (i + 1) qs p)"

definition find_port :: "u16 list \<Rightarrow> u16 \<Rightarrow> u32" where
  "find_port ps p = find_port_from 0 ps p"

section \<open>Hosts\<close>

record host_to_ip =
  host :: string
  ips :: "string list"

definition cut_prefix :: "string \<Rightarrow> string" where
  "cut_prefix ip = cut_at (CHR ''/'') ip"

fun host_index :: "host_to_ip list \<Rightarrow> string \<Rightarrow> nat" where
  "host_index [] nm = 0"
| "host_index (h # hs) nm = (if host h = nm then 0 else host_index hs nm + 1)"

definition add_ip_to_host ::
  "bool \<Rightarrow> bool \<Rightarrow> string \<Rightarrow> string \<Rightarrow> host_to_ip list \<Rightarrow> host_to_ip list" where
  "add_ip_to_host realloc1 realloc2 nm ip m =
    (let i = host_index m nm in
     if i \<ge> length m \<and> \<not> realloc1 then m
     else (let m1 = (if i \<ge> length m then m @ [\<lparr>host = nm, ips = []\<rparr>] else m) in
       if realloc2 then m1[i := (m1 ! i)\<lparr>ips := ips (m1 ! i) @ [cut_prefix ip]\<rparr>] else m1))"

fun find_host_from :: "nat \<Rightarrow> host_to_ip list \<Rightarrow> string \<Rightarrow> u32" where
  "find_host_from i [] ip = UINT_MAX"
| "find_host_from i (h # hs) ip = (if ip \<in> set (ips h) then of_nat i else find_host_from (i + 1) hs ip)"

definition find_host :: "host_to_ip list \<Rightarrow> string \<Rightarrow> u32" where
  "find_host m ip = find_host_from 0 m ip"

section \<open>The reply\<close>

text \<open>
  \<open>jsontext\<close> and \<open>jsonlen\<close>; the buffer is without its terminating NUL. The result is the
  number of bytes taken, 0 when the buffer cannot grow.
\<close>

record reply =
  jsontext :: "string option"
  jsonlen :: nat

definition reply_init :: reply where
  "reply_init = \<lparr>jsontext = None, jsonlen = 0\<rparr>"

definition curldata :: "bool \<Rightarrow> string \<Rightarrow> reply \<Rightarrow> nat \<times> reply" where
  "curldata realloc_ok chunk r = (if realloc_ok
     then (length chunk, \<lparr>jsontext = Some (take (jsonlen r) (case jsontext r of None \<Rightarrow> [] | Some t \<Rightarrow> t) @ chunk),
        jsonlen = jsonlen r + length chunk\<rparr>)
     else (0, r))"

section \<open>A first-match index\<close>

text \<open>
  What the accounting relies on: a lookup gives the position of the first entry that
  matches, as a 32-bit number, or the number \<open>UINT_MAX\<close>.
\<close>

locale first_match =
  fixes find :: "'t \<Rightarrow> 'k \<Rightarrow> u32" and count :: "'t \<Rightarrow> nat" and matches :: "'t \<Rightarrow> nat \<Rightarrow> 'k \<Rightarrow> bool"
  assumes missing: "(\<forall>i < count t. \<not> matches t i k) \<Longrightarrow> find t k = UINT_MAX"
    and found: "i < count t \<Longrightarrow> matches t i k \<Longrightarrow> (\<forall>j < i. \<not> matches t j k) \<Longrightarrow> find t k = of_nat i"
begin

lemma first_exists:
  assumes "i < count t" and "matches t i k"
  obtains j where "j \<le> i" "matches t j k" "\<forall>n < j. \<not> matches t n k" "find t k = of_nat j"
proof -
  define j where "j = (LEAST n. matches t n k)"
  have j: "matches t j k" "j \<le> i" "\<forall>n < j. \<not> matches t n k"
    unfolding j_def using assms(2) by (auto intro: LeastI Least_le dest: not_less_Least)
  with assms(1) have "find t k = of_nat j" by (intro found) auto
  with j show ?thesis using that by blast
qed

lemma find_bound:
  assumes "count t < 2 ^ 32 - 1" and "find t k \<noteq> UINT_MAX"
  shows "unat (find t k) < count t \<and> matches t (unat (find t k)) k"
proof -
  from assms(2) missing obtain i where i: "i < count t" "matches t i k" by blast
  then obtain j where j: "j \<le> i" "matches t j k" "find t k = of_nat j" by (rule first_exists) blast
  have "unat (find t k) = j" using j i assms(1) by (simp add: unat_of_nat)
  with j i show ?thesis by simp
qed

lemma find_missing_iff:
  assumes "count t < 2 ^ 32 - 1"
  shows "find t k = UINT_MAX \<longleftrightarrow> (\<forall>i < count t. \<not> matches t i k)"
proof
  assume max: "find t k = UINT_MAX"
  show "\<forall>i < count t. \<not> matches t i k"
  proof (intro allI impI notI)
    fix i assume i: "i < count t" "matches t i k"
    then obtain j where j: "j \<le> i" "find t k = of_nat j" by (rule first_exists) blast
    then have "unat (of_nat j :: u32) = 2 ^ 32 - 1"
      using max by (simp add: UINT_MAX_def)
    then show False using j i assms by (simp add: unat_of_nat)
  qed
qed (rule missing)

end

lemma find_port_from_missing:
  "(\<forall>i < length ps. ps ! i \<noteq> p) \<Longrightarrow> find_port_from n ps p = UINT_MAX"
  by (induction ps arbitrary: n) (auto simp: All_less_Suc2)

lemma find_port_from_found:
  "i < length ps \<Longrightarrow> ps ! i = p \<Longrightarrow> (\<forall>j < i. ps ! j \<noteq> p) \<Longrightarrow> find_port_from n ps p = of_nat (n + i)"
proof (induction ps arbitrary: n i)
  case Nil
  then show ?case by simp
next
  case (Cons q qs)
  then show ?case by (cases i) (auto simp: All_less_Suc2 add_ac)
qed

lemma find_host_from_missing:
  "(\<forall>i < length m. ip \<notin> set (ips (m ! i))) \<Longrightarrow> find_host_from n m ip = UINT_MAX"
  by (induction m arbitrary: n) (auto simp: All_less_Suc2)

lemma find_host_from_found:
  "i < length m \<Longrightarrow> ip \<in> set (ips (m ! i)) \<Longrightarrow> (\<forall>j < i. ip \<notin> set (ips (m ! j))) \<Longrightarrow>
    find_host_from n m ip = of_nat (n + i)"
proof (induction m arbitrary: n i)
  case Nil
  then show ?case by simp
next
  case (Cons h hs)
  then show ?case by (cases i) (auto simp: All_less_Suc2 add_ac)
qed

interpretation port: first_match find_port length "\<lambda>ps i p. ps ! i = p"
  by unfold_locales (auto simp: find_port_def find_port_from_missing find_port_from_found)

interpretation hostmap: first_match find_host length "\<lambda>m i ip. ip \<in> set (ips (m ! i))"
  by unfold_locales (auto simp: find_host_def find_host_from_missing find_host_from_found)

section \<open>The ports\<close>

lemma addprio_cases: "addprio b l ps = ps \<or> (\<exists>p. p \<noteq> 0 \<and> addprio b l ps = ps @ [p])"
  by (auto simp: addprio_def Let_def split: option.splits)

lemma addprio_shape: "\<exists>qs. addprio b l (p # ps) = p # ps @ qs \<and> (\<forall>q \<in> set qs. q \<noteq> 0)"
  using addprio_cases [of b l "p # ps"] by fastforce

lemma load_prio_shape:
  "\<exists>qs. load_prio env k f (p # ps) = p # ps @ qs \<and> (\<forall>q \<in> set qs. q \<noteq> 0)"
proof (induction env k f "p # ps" arbitrary: ps rule: load_prio.induct)
  case (1 env k f)
  show ?case
  proof (cases "fgets LINELEN_svc f")
    case None
    then show ?thesis by (subst load_prio.simps) simp
  next
    case (Some lr)
    then obtain l r where lr: "fgets LINELEN_svc f = Some (l, r)" by (cases lr) auto
    obtain qs where qs: "addprio (env k) l (p # ps) = p # ps @ qs" "\<forall>q \<in> set qs. q \<noteq> 0"
      using addprio_shape by blast
    obtain qs' where "load_prio env (k + 1) r (p # ps @ qs) = p # (ps @ qs) @ qs'" "\<forall>q \<in> set qs'. q \<noteq> 0"
      using 1(1) [OF lr refl qs(1)] by blast
    with lr qs show ?thesis by (subst load_prio.simps) (auto intro: exI [of _ "qs @ qs'"])
  qed
qed

text \<open>After the configuration is read, entry 0 is the only one without a port, and a request's
  port is never entry 0's, so a lookup gives either \<open>UINT_MAX\<close> or the position of the first
  line that configured the port.\<close>

theorem configured_ports:
  assumes "length (load_prio env 0 f priorities_init) < 2 ^ 32 - 1" and "p \<noteq> 0"
  shows "load_prio env 0 f priorities_init ! 0 = 0 \<and>
    (\<forall>q \<in> set (tl (load_prio env 0 f priorities_init)). q \<noteq> 0) \<and>
    (if p \<in> set (load_prio env 0 f priorities_init)
     then (let i = unat (find_port (load_prio env 0 f priorities_init) p) in
       0 < i \<and> i < length (load_prio env 0 f priorities_init) \<and>
       load_prio env 0 f priorities_init ! i = p)
     else find_port (load_prio env 0 f priorities_init) p = UINT_MAX)"
proof -
  obtain qs where qs: "load_prio env 0 f priorities_init = 0 # qs" "\<forall>q \<in> set qs. q \<noteq> 0"
    using load_prio_shape [of env 0 f 0 "[]"] by (auto simp: priorities_init_def)
  have len: "length (0 # qs) < 2 ^ 32 - 1" using assms(1) qs(1) by simp
  have "0 < unat (find_port (0 # qs) p) \<and> unat (find_port (0 # qs) p) < length (0 # qs) \<and>
      (0 # qs) ! unat (find_port (0 # qs) p) = p" if "p \<in> set (0 # qs)"
  proof -
    have "find_port (0 # qs) p \<noteq> UINT_MAX"
      using that port.find_missing_iff [OF len, of p] by (auto simp: in_set_conv_nth)
    from port.find_bound [OF len this] show ?thesis
      using assms(2) by (cases "unat (find_port (0 # qs) p)") auto
  qed
  moreover have "find_port (0 # qs) p = UINT_MAX" if "p \<notin> set (0 # qs)"
    using that by (intro port.missing) (metis nth_mem)
  ultimately show ?thesis
    using qs(2) unfolding qs(1) Let_def
    by (cases "p \<in> set (0 # qs)") (simp_all only: if_True if_False nth_Cons_0 list.sel simp_thms)
qed

theorem configured_ports_witness:
  "find_port (load_prio (\<lambda>_. True) 0 ''1=80'' priorities_init) 81 = UINT_MAX"
proof -
  have l: "load_prio (\<lambda>_. True) 0 ''1=80'' priorities_init = [0, 80]" by code_simp
  show ?thesis using configured_ports [of "\<lambda>_. True" "''1=80''" 81] unfolding l by simp
qed

section \<open>The hosts\<close>

lemma host_index_bound: "host_index m nm \<le> length m"
  by (induction m) auto

lemma host_index_found: "host_index m nm < length m \<Longrightarrow> host (m ! host_index m nm) = nm"
  by (induction m) (auto split: if_splits)

lemma host_index_iff: "host_index m nm < length m \<longleftrightarrow> nm \<in> host ` set m"
  by (induction m) auto

lemma add_ip_hosts:
  "map host (add_ip_to_host r1 r2 nm ip m) =
    (if nm \<in> host ` set m \<or> \<not> r1 then map host m else map host m @ [nm])"
  using host_index_iff [of m nm] host_index_bound [of m nm]
  by (auto simp: add_ip_to_host_def Let_def map_update nth_append list_update_append not_less
      intro!: nth_equalityI simp: nth_list_update)

lemma list_update_mem_other:
  "i < length xs \<Longrightarrow> y \<noteq> x \<Longrightarrow> y \<noteq> xs ! i \<Longrightarrow> y \<in> set (xs[i := x]) \<longleftrightarrow> y \<in> set xs"
  by (auto simp: in_set_conv_nth nth_list_update)

text \<open>With memory to spare, \<open>add_ip_to_host\<close> appends the address without its prefix length to
  the addresses of the host and changes no other host; a new host is appended at the end.
  No host is ever listed twice.\<close>

theorem add_ip_to_host_adds:
  assumes "distinct (map host m)"
  shows "distinct (map host (add_ip_to_host r1 r2 nm ip m)) \<and>
    (\<forall>h \<in> set (add_ip_to_host True True nm ip m). host h = nm \<longrightarrow>
       ips h = (if nm \<in> host ` set m then ips (m ! host_index m nm) else []) @ [cut_prefix ip]) \<and>
    {h \<in> set (add_ip_to_host True True nm ip m). host h \<noteq> nm} = {h \<in> set m. host h \<noteq> nm} \<and>
    nm \<in> host ` set (add_ip_to_host True True nm ip m)"
proof -
  let ?m = "add_ip_to_host True True nm ip m" and ?i = "host_index m nm"
  have d: "distinct (map host (add_ip_to_host r1 r2 nm ip m))" for r1 r2
    using assms by (auto simp: add_ip_hosts)
  show ?thesis
  proof (cases "nm \<in> host ` set m")
    case True
    then have i: "?i < length m" "host (m ! ?i) = nm"
      using host_index_iff host_index_found by blast+
    then have m: "?m = m[?i := (m ! ?i)\<lparr>ips := ips (m ! ?i) @ [cut_prefix ip]\<rparr>]"
      by (simp add: add_ip_to_host_def Let_def)
    have uniq: "j = ?i" if "j < length m" "host (m ! j) = nm" for j
      using assms i that unfolding distinct_conv_nth by (metis length_map nth_map)
    have "h \<in> set ?m \<longleftrightarrow> h \<in> set m" if "host h \<noteq> nm" for h
      unfolding m using i that by (intro list_update_mem_other) auto
    then have "{h \<in> set ?m. host h \<noteq> nm} = {h \<in> set m. host h \<noteq> nm}" by blast
    moreover have "ips h = ips (m ! ?i) @ [cut_prefix ip]" if "h \<in> set ?m" "host h = nm" for h
    proof -
      from that(1) obtain j where j: "j < length m" "h = ?m ! j" by (auto simp: m in_set_conv_nth)
      show ?thesis
      proof (cases "j = ?i")
        case True
        then show ?thesis using j i by (simp add: m)
      next
        case False
        then have "h = m ! j" using j by (simp add: m)
        with uniq [OF j(1)] that(2) False show ?thesis by simp
      qed
    qed
    moreover have "nm \<in> host ` set ?m"
      using i set_update_memI [of ?i m "(m ! ?i)\<lparr>ips := ips (m ! ?i) @ [cut_prefix ip]\<rparr>"]
      by (force simp: m)
    ultimately show ?thesis using d True by simp
  next
    case False
    then have i: "?i = length m" using host_index_iff [of m nm] host_index_bound [of m nm] by auto
    then have m: "?m = m @ [\<lparr>host = nm, ips = [cut_prefix ip]\<rparr>]"
      by (simp add: add_ip_to_host_def Let_def)
    show ?thesis using d False by (auto simp: m)
  qed
qed

theorem add_ip_to_host_adds_witness:
  "ips (add_ip_to_host True True ''HostA'' ''10.0.0.1/24'' [\<lparr>host = ''HostA'', ips = [''a'']\<rparr>] ! 0) =
     [''a'', ''10.0.0.1'']"
proof -
  have m: "add_ip_to_host True True ''HostA'' ''10.0.0.1/24'' [\<lparr>host = ''HostA'', ips = [''a'']\<rparr>] =
      [\<lparr>host = ''HostA'', ips = [''a'', ''10.0.0.1'']\<rparr>]" by code_simp
  show ?thesis
    using add_ip_to_host_adds [of "[\<lparr>host = ''HostA'', ips = [''a'']\<rparr>]" True True "''HostA''" "''10.0.0.1/24''"]
    by (simp add: m cut_prefix_def cut_at_def)
qed

section \<open>The reply\<close>

text \<open>The chunks of a reply, handed over one by one while memory lasts, leave their
  concatenation in the buffer and its length in \<open>jsonlen\<close>, and each call reports the whole
  chunk as taken.\<close>

theorem curldata_collects:
  "fold (\<lambda>ch r. snd (curldata True ch r)) (c # cs) reply_init =
     \<lparr>jsontext = Some (concat (c # cs)), jsonlen = length (concat (c # cs))\<rparr> \<and>
   fst (curldata True c r) = length c"
proof -
  have "fold (\<lambda>ch r. snd (curldata True ch r)) cs \<lparr>jsontext = Some t, jsonlen = length t\<rparr> =
      \<lparr>jsontext = Some (t @ concat cs), jsonlen = length (t @ concat cs)\<rparr>" for t
    by (induction cs arbitrary: t) (simp_all add: curldata_def flip: length_append append_assoc)
  then show ?thesis by (simp add: curldata_def reply_init_def)
qed

end
