(* ===== verification/Svcpoll.thy ===== *)
theory Svcpoll
  imports Svcmaps Collect
begin

text \<open>
  One turn of \<open>svcreqollect.c\<close>: fetch the list of service requests as JSON, count them
  per port and host, print the counts, wait. \<open>json-c\<close>, \<open>curl\<close>, the clock and \<open>usleep\<close>
  are parameters.
\<close>

section \<open>JSON\<close>

text \<open>
  The functions of \<open>json-c\<close> the code calls. A \<open>json_object *\<close> that may be NULL is an
  option; reading the members of something that is no object, NULL included, gives None
  and crashes the program.
\<close>

record 'j json_api =
  jget :: "'j option \<Rightarrow> string \<Rightarrow> 'j option"
  jint :: "'j \<Rightarrow> int"
  jstr :: "'j \<Rightarrow> string option"
  jarray :: "'j option \<Rightarrow> 'j option list option"
  jpairs :: "'j option \<Rightarrow> (string \<times> 'j option) list option"

definition json_get_object :: "'j json_api \<Rightarrow> 'j option \<Rightarrow> string \<Rightarrow> 'j option" where
  "json_get_object api j k = jget api j k"

definition json_get_uint16 :: "'j json_api \<Rightarrow> 'j option \<Rightarrow> string \<Rightarrow> u16" where
  "json_get_uint16 api j k = (case json_get_object api j k of None \<Rightarrow> 0
     | Some h \<Rightarrow> (let v = jint api h in if v < 0 \<or> v > 0xFFFF then 0 else word_of_int v))"

definition json_get_string :: "'j json_api \<Rightarrow> 'j option \<Rightarrow> string \<Rightarrow> string option" where
  "json_get_string api j k = (case json_get_object api j k of None \<Rightarrow> None | Some h \<Rightarrow> jstr api h)"

section \<open>The hosts of the node file\<close>

fun strstr_found :: "string \<Rightarrow> string \<Rightarrow> bool" where
  "strstr_found p [] = (p = [])"
| "strstr_found p (c # s) = (take (length p) (c # s) = p \<or> strstr_found p s)"

fun mid_pairs :: "'j json_api \<Rightarrow> string \<Rightarrow> (string \<times> 'j option) list \<Rightarrow> (string \<times> string) list" where
  "mid_pairs api tk [] = []"
| "mid_pairs api tk ((_, v) # r) = (case json_get_string api v ''address'' of
     None \<Rightarrow> mid_pairs api tk r | Some word \<Rightarrow> (tk, word) # mid_pairs api tk r)"

fun top_pairs :: "'j json_api \<Rightarrow> (string \<times> 'j option) list \<Rightarrow> (string \<times> string) list option" where
  "top_pairs api [] = Some []"
| "top_pairs api ((k, v) # r) = (if strstr_found ''Host'' k
     then (case jpairs api v of None \<Rightarrow> None
       | Some ms \<Rightarrow> map_option ((@) (mid_pairs api k ms)) (top_pairs api r))
     else top_pairs api r)"

text \<open>\<open>mem k\<close> says which of the two allocations of the call number \<open>k\<close> succeed.\<close>

definition load_hosts ::
  "(nat \<Rightarrow> bool \<times> bool) \<Rightarrow> 'j json_api \<Rightarrow> 'j option \<Rightarrow> host_to_ip list option" where
  "load_hosts mem api j = (case jpairs api j of None \<Rightarrow> None
     | Some tops \<Rightarrow> map_option (\<lambda>ps. fold (\<lambda>(k, nm, ip). add_ip_to_host (fst (mem k)) (snd (mem k)) nm ip)
           (enumerate 0 ps) []) (top_pairs api tops))"

section \<open>Counting\<close>

record tally =
  accepted :: "u64 list list"
  rejected :: "u64 list list"
  aa :: u64
  rr :: u64
  senders :: u64

definition tally_init :: "nat \<Rightarrow> nat \<Rightarrow> tally" where
  "tally_init nprio nhosts = \<lparr>accepted = replicate nprio (replicate nhosts 0),
     rejected = replicate nprio (replicate nhosts 0), aa = 0, rr = 0, senders = 0\<rparr>"

definition bump :: "nat \<Rightarrow> nat \<Rightarrow> u64 list list \<Rightarrow> u64 list list" where
  "bump p h tbl = tbl[p := (tbl ! p)[h := tbl ! p ! h + 1]]"

definition to_lower :: "char \<Rightarrow> char" where
  "to_lower c = (if of_char c \<ge> (65 :: nat) \<and> of_char c \<le> (90 :: nat) then char_of (of_char c + (32 :: nat)) else c)"

definition strcaseeq :: "string \<Rightarrow> string \<Rightarrow> bool" where
  "strcaseeq s t = (map to_lower s = map to_lower t)"

text \<open>What the checks of one request establish: its host, its port and whether it counts.\<close>

definition classify ::
  "'j json_api \<Rightarrow> host_to_ip list \<Rightarrow> 'j option \<Rightarrow> int + u32 \<times> u16 \<times> bool" where
  "classify api hosts h =
    (if h = None then Inl 7
     else let zero = json_get_object api h ''#0'' in
     if zero = None then Inl 9
     else (case json_get_string api zero ''src_ip'' of None \<Rightarrow> Inl 15
     | Some srcip \<Rightarrow> (case json_get_string api zero ''dst_ip'' of None \<Rightarrow> Inl 20
     | Some destip \<Rightarrow>
        (let tgt0 = find_host hosts srcip;
             tgthost = (if tgt0 = UINT_MAX then find_host hosts destip else tgt0)
         in if tgthost = UINT_MAX then Inl 12
         else let srcport = json_get_uint16 api zero ''destination-port'' in
         if srcport = 0 then Inl 14
         else (case json_get_string api zero ''roles'' of None \<Rightarrow> Inl 10
         | Some role \<Rightarrow> Inr (tgthost, srcport, strcaseeq role ''SENDER''))))))"

definition has_path :: "'j json_api \<Rightarrow> 'j option \<Rightarrow> bool" where
  "has_path api h = (case json_get_object api h ''path'' of None \<Rightarrow> False
     | Some path \<Rightarrow> (case jarray api (Some path) of None \<Rightarrow> False | Some paths \<Rightarrow> length paths > 0))"

definition port_index :: "u16 list \<Rightarrow> u16 \<Rightarrow> nat" where
  "port_index ports p = (if find_port ports p = UINT_MAX then 0 else unat (find_port ports p))"

definition account_one ::
  "'j json_api \<Rightarrow> u16 list \<Rightarrow> host_to_ip list \<Rightarrow> 'j option \<Rightarrow> tally \<Rightarrow> int + tally" where
  "account_one api ports hosts h t = (case classify api hosts h of Inl rv \<Rightarrow> Inl rv
     | Inr (tgthost, srcport, sender) \<Rightarrow>
         if sender then
           (let t1 = t\<lparr>senders := senders t + 1\<rparr>; p = port_index ports srcport; k = unat tgthost in
            Inr (if has_path api h then t1\<lparr>accepted := bump p k (accepted t1), aa := aa t1 + 1\<rparr>
                 else t1\<lparr>rejected := bump p k (rejected t1), rr := rr t1 + 1\<rparr>))
         else Inr t)"

fun account_all ::
  "'j json_api \<Rightarrow> u16 list \<Rightarrow> host_to_ip list \<Rightarrow> 'j option list \<Rightarrow> tally \<Rightarrow> int + tally" where
  "account_all api ports hosts [] t = Inr t"
| "account_all api ports hosts (h # hs) t = (case account_one api ports hosts h t of Inl rv \<Rightarrow> Inl rv
     | Inr t' \<Rightarrow> account_all api ports hosts hs t')"

section \<open>Printing\<close>

definition svc_stamp :: "int \<times> int \<Rightarrow> string" where
  "svc_stamp tv = show_int (fst tv) @ ''.'' @ show_06d (snd tv)"

definition svc_row :: "int \<times> int \<Rightarrow> nat \<Rightarrow> string \<Rightarrow> u64 \<Rightarrow> string \<Rightarrow> string" where
  "svc_row tv j fl val lvl = svc_stamp tv @ '':'' @ show_nat (j + 1) @ '':'' @ fl @ '':'' @
     show_nat (unat val) @ '':'' @ lvl @ [CHR 0x0A]"

text \<open>Both loops read the counters of entry 0.\<close>

definition host_rows :: "int \<times> int \<Rightarrow> string \<Rightarrow> nat \<Rightarrow> tally \<Rightarrow> string list" where
  "host_rows tv fl nhosts t = concat (map (\<lambda>j.
     [svc_row tv j fl (accepted t ! 0 ! j) ''0'', svc_row tv j fl (rejected t ! 0 ! j) ''1'']) [0..<nhosts])"

definition output_rows :: "int \<times> int \<Rightarrow> nat \<Rightarrow> nat \<Rightarrow> tally \<Rightarrow> string list" where
  "output_rows tv nprio nhosts t = host_rows tv ''X'' nhosts t @
     concat (map (\<lambda>i. host_rows tv (show_nat i) nhosts t) [1..<nprio])"

section \<open>Waiting\<close>

text \<open>
  \<open>sleeps k\<close> is how the call number \<open>k\<close> of \<open>usleep\<close> ends, and \<open>clock k\<close> what
  \<open>gettimeofday\<close> gives after it was interrupted. None: out of fuel.
\<close>

datatype usleep_result = Slept | Interrupted | Refused

definition still_waiting :: "int \<times> int \<Rightarrow> bool" where
  "still_waiting d \<longleftrightarrow> fst d \<ge> 0 \<and> snd d \<ge> 0 \<and> (fst d \<noteq> 0 \<and> snd d \<noteq> 0)"

fun wait_loop ::
  "nat \<Rightarrow> (nat \<Rightarrow> usleep_result) \<Rightarrow> (nat \<Rightarrow> (int \<times> int) option) \<Rightarrow> int \<times> int \<Rightarrow> int \<times> int \<Rightarrow> nat \<Rightarrow>
   (int option) option" where
  "wait_loop 0 sleeps clock tv1 tv3 k = None"
| "wait_loop (Suc n) sleeps clock tv1 tv3 k =
    (if still_waiting tv3 then
       (case sleeps k of Slept \<Rightarrow> wait_loop n sleeps clock tv1 tv3 (k + 1)
        | Refused \<Rightarrow> Some None
        | Interrupted \<Rightarrow> (case clock k of None \<Rightarrow> Some (Some 16)
            | Some tv2 \<Rightarrow> wait_loop n sleeps clock tv1 (timersub tv1 tv2) (k + 1)))
     else Some None)"

section \<open>A turn\<close>

record 'j document =
  addr :: u64
  node :: "'j option"

record 'j turn_env =
  first_clock :: "(int \<times> int) option"
  curl_rv :: int
  chunks :: "(bool \<times> string) list"
  parse :: "string \<Rightarrow> 'j document"
  from_file :: "string \<Rightarrow> 'j document"
  second_clock :: "(int \<times> int) option"

definition fetch :: "bool \<Rightarrow> nat \<Rightarrow> 'j turn_env \<Rightarrow> int + 'j document" where
  "fetch live turn env = (if live then
      (if curl_rv env \<noteq> 0 then Inl 18
       else (case jsontext (fold (\<lambda>(ok, ch) r. snd (curldata ok ch r)) (chunks env) reply_init) of
         None \<Rightarrow> Inl 19 | Some t \<Rightarrow> Inr (parse env (cut_at (CHR 0x00) t))))
    else Inr (from_file env (if turn mod 2 = 1 then ''servicerequests-1.json'' else ''servicerequests-2.json'')))"

datatype outcome = Exit int "string list" | Wait "int \<times> int" "int \<times> int" "string list"

text \<open>\<open>rv = (int)(long)json\<close> is tested for being negative. The time that \<open>gmtime\<close> converts in
  the first turn comes from a \<open>tv2\<close> that is not set yet; it goes to the error stream only and is
  not modelled.\<close>

definition poll_turn ::
  "'j json_api \<Rightarrow> u16 list \<Rightarrow> host_to_ip list \<Rightarrow> int \<Rightarrow> bool \<Rightarrow> nat \<Rightarrow> 'j turn_env \<Rightarrow> outcome" where
  "poll_turn api ports hosts interval live turn env =
    (case first_clock env of None \<Rightarrow> Exit 5 []
     | Some tv1 \<Rightarrow> (case fetch live turn env of Inl rv \<Rightarrow> Exit rv []
     | Inr doc \<Rightarrow> (let rv = (ucast (addr doc) :: u32) in
         if sint rv < 0 then Exit (sint (- rv)) []
         else (case jarray api (node doc) of None \<Rightarrow> Exit 6 []
     | Some arr \<Rightarrow>
        (case account_all api ports hosts arr (tally_init (length ports) (length hosts)) of Inl rv \<Rightarrow> Exit rv []
     | Inr t \<Rightarrow> (let rows = output_rows tv1 (length ports) (length hosts) t;
                  tv1' = (fst tv1 + interval, snd tv1) in
        case second_clock env of None \<Rightarrow> Exit 13 rows
        | Some tv2 \<Rightarrow> Wait tv1' (timersub tv1' tv2) rows))))))"

section \<open>The command line and the start\<close>

record svc_options =
  cfg :: string
  nif :: string
  interval :: int
  uri :: string
  live :: bool
  badflag :: bool

definition default_svc_options :: svc_options where
  "default_svc_options = \<lparr>cfg = ''collector.conf'', nif = ''node_info.json'', interval = 15,
     uri = ''http://127.0.0.1:8618/stats/net/servicerequests'', live = True, badflag = False\<rparr>"

definition bad :: "svc_options \<Rightarrow> svc_options" where
  "bad opts = opts\<lparr>badflag := True\<rparr>"

definition set_interval :: "string \<Rightarrow> svc_options \<Rightarrow> svc_options" where
  "set_interval s opts = (let opts1 = opts\<lparr>interval := atoi s\<rparr> in
     if atoi s < 1 then bad opts1 else opts1)"

text \<open>
  An option letter with what is done with its argument, which is the rest of the word or
  else the next word.
\<close>

definition svc_option :: "char \<Rightarrow> (string \<Rightarrow> svc_options \<Rightarrow> svc_options) option" where
  "svc_option c = (if c = CHR ''c'' then Some (\<lambda>s opts. opts\<lparr>cfg := s\<rparr>)
     else if c = CHR ''j'' then Some (\<lambda>s opts. opts\<lparr>nif := s\<rparr>)
     else if c = CHR ''t'' then Some set_interval
     else if c = CHR ''u'' then Some (\<lambda>s opts. opts\<lparr>uri := s\<rparr>) else None)"

fun svc_args :: "string list \<Rightarrow> svc_options \<Rightarrow> svc_options" where
  "svc_args [] opts = opts"
| "svc_args (a # as) opts =
    (if length a < 2 \<or> hd a \<noteq> CHR ''-'' then svc_args as (bad opts)
     else (case svc_option (a ! 1) of
          Some f \<Rightarrow> (if drop 2 a \<noteq> [] then svc_args as (f (drop 2 a) opts)
            else (case as of b # bs \<Rightarrow> svc_args bs (f b opts) | [] \<Rightarrow> bad opts))
        | None \<Rightarrow> if a ! 1 = CHR ''x'' then svc_args as (opts\<lparr>live := False\<rparr>) else svc_args as (bad opts)))"

text \<open>
  Up to the main loop: the exit status, or the two tables. None: the program crashes on a
  node file that is missing or no object.
\<close>

definition EINVAL :: int where "EINVAL = 22"

record 'j start_env =
  conf_file :: "int + string"
  prio_mem :: "nat \<Rightarrow> bool"
  node_file :: "'j option"
  host_mem :: "nat \<Rightarrow> bool \<times> bool"
  curl_global :: int
  curl_easy :: bool

definition svc_start ::
  "'j json_api \<Rightarrow> 'j start_env \<Rightarrow> svc_options \<Rightarrow> (int + u16 list \<times> host_to_ip list) option" where
  "svc_start api env opts = (if badflag opts then Some (Inl 1)
     else (case conf_file env of Inl err \<Rightarrow> Some (Inl err)
     | Inr f \<Rightarrow> (let ports = load_prio (prio_mem env) 0 f priorities_init in
        case load_hosts (host_mem env) api (node_file env) of None \<Rightarrow> None
        | Some hosts \<Rightarrow> if hosts = [] then Some (Inl EINVAL)
            else if curl_global env \<noteq> 0 then Some (Inl (curl_global env))
            else if \<not> curl_easy env then Some (Inl 0)
            else Some (Inr (ports, hosts)))))"

section \<open>Counting: lemmas\<close>

definition tally_ok :: "nat \<Rightarrow> nat \<Rightarrow> tally \<Rightarrow> bool" where
  "tally_ok np nh t \<longleftrightarrow> length (accepted t) = np \<and> length (rejected t) = np \<and>
     (\<forall>p < np. length (accepted t ! p) = nh \<and> length (rejected t ! p) = nh)"

definition counted ::
  "'j json_api \<Rightarrow> u16 list \<Rightarrow> host_to_ip list \<Rightarrow> bool \<Rightarrow> nat \<Rightarrow> nat \<Rightarrow> 'j option \<Rightarrow> bool" where
  "counted api ports hosts ok p k h = (case classify api hosts h of Inl _ \<Rightarrow> False
     | Inr (tgthost, srcport, sender) \<Rightarrow>
         sender \<and> port_index ports srcport = p \<and> unat tgthost = k \<and> has_path api h = ok)"

definition is_sender :: "'j json_api \<Rightarrow> host_to_ip list \<Rightarrow> 'j option \<Rightarrow> bool" where
  "is_sender api hosts h = (case classify api hosts h of Inl _ \<Rightarrow> False | Inr (_, _, s) \<Rightarrow> s)"

lemma length_bump [simp]: "length (bump p h tbl) = length tbl"
  by (simp add: bump_def)

lemma length_bump_nth [simp]: "length (bump p h tbl ! q) = length (tbl ! q)"
  by (cases "p < length tbl") (auto simp: bump_def nth_list_update not_less list_update_beyond)

lemma bump_nth:
  "p < length tbl \<Longrightarrow> h < length (tbl ! p) \<Longrightarrow>
   bump p h tbl ! q ! k = tbl ! q ! k + (if q = p \<and> k = h then 1 else 0)"
  by (auto simp: bump_def nth_list_update)

lemma port_index_bound:
  assumes "ports \<noteq> []" and "length ports < 2 ^ 32 - 1"
  shows "port_index ports p < length ports"
proof (cases "find_port ports p = UINT_MAX")
  case True
  then show ?thesis using assms(1) by (simp add: port_index_def)
next
  case False
  then show ?thesis using port.find_bound [OF assms(2) False] by (simp add: port_index_def)
qed

lemma classify_host:
  assumes "classify api hosts h = Inr (tg, sp, s)" and "length hosts < 2 ^ 32 - 1"
  shows "unat tg < length hosts"
proof -
  from assms(1) obtain ip where "tg = find_host hosts ip" "tg \<noteq> UINT_MAX"
    by (auto simp: classify_def Let_def split: if_splits option.splits)
  with hostmap.find_bound [OF assms(2)] show ?thesis by blast
qed

lemma account_one_step:
  assumes "account_one api ports hosts h t = Inr t'"
    and "ports \<noteq> []" "length ports < 2 ^ 32 - 1" "length hosts < 2 ^ 32 - 1"
    and "tally_ok (length ports) (length hosts) t"
  shows "tally_ok (length ports) (length hosts) t' \<and>
    accepted t' ! p ! k = accepted t ! p ! k + (if counted api ports hosts True p k h then 1 else 0) \<and>
    rejected t' ! p ! k = rejected t ! p ! k + (if counted api ports hosts False p k h then 1 else 0) \<and>
    aa t' + rr t' - senders t' = aa t + rr t - senders t \<and>
    senders t' = senders t + (if is_sender api hosts h then 1 else 0)"
proof -
  from assms(1) obtain tg sp s where cl: "classify api hosts h = Inr (tg, sp, s)"
    by (auto simp: account_one_def split: sum.splits)
  have b: "port_index ports sp < length ports" "unat tg < length hosts"
    using port_index_bound [OF assms(2,3)] classify_host [OF cl assms(4)] by auto
  have l: "port_index ports sp < length (accepted t)" "unat tg < length (accepted t ! port_index ports sp)"
    "port_index ports sp < length (rejected t)" "unat tg < length (rejected t ! port_index ports sp)"
    using assms(5) b by (auto simp: tally_ok_def)
  show ?thesis
    using assms(1,5) cl
    by (cases s; cases "has_path api h")
      (auto simp: account_one_def Let_def tally_ok_def counted_def is_sender_def
        bump_nth [OF l(1,2)] bump_nth [OF l(3,4)])
qed

lemma account_all_total:
  assumes "account_all api ports hosts arr t = Inr t'"
    and "ports \<noteq> []" "length ports < 2 ^ 32 - 1" "length hosts < 2 ^ 32 - 1"
    and "tally_ok (length ports) (length hosts) t"
  shows "tally_ok (length ports) (length hosts) t' \<and>
    accepted t' ! p ! k = accepted t ! p ! k + of_nat (length (filter (counted api ports hosts True p k) arr)) \<and>
    rejected t' ! p ! k = rejected t ! p ! k + of_nat (length (filter (counted api ports hosts False p k) arr)) \<and>
    aa t' + rr t' - senders t' = aa t + rr t - senders t \<and>
    senders t' = senders t + of_nat (length (filter (is_sender api hosts) arr))"
  using assms(1,5)
proof (induction arr arbitrary: t)
  case Nil
  then show ?case by simp
next
  case (Cons h arr)
  from Cons.prems(1) obtain t1 where t1: "account_one api ports hosts h t = Inr t1"
    "account_all api ports hosts arr t1 = Inr t'" by (auto split: sum.splits)
  note one = account_one_step [OF t1(1) assms(2-4) Cons.prems(2), of p k]
  have ok: "tally_ok (length ports) (length hosts) t1" using one by blast
  note IH = Cons.IH [OF t1(2) ok]
  have "aa t' + rr t' - senders t' = aa t1 + rr t1 - senders t1"
    "aa t1 + rr t1 - senders t1 = aa t + rr t - senders t" using IH one by blast+
  then have "aa t' + rr t' - senders t' = aa t + rr t - senders t" by (rule trans)
  with IH one show ?case by (auto simp: add_ac simp del: diff_eq_eq eq_diff_eq)
qed

lemma account_all_Inl:
  "account_all api ports hosts arr t = Inl rv \<longleftrightarrow>
    (\<exists>i < length arr. classify api hosts (arr ! i) = Inl rv \<and>
      (\<forall>j < i. \<not> isl (classify api hosts (arr ! j))))"
proof (induction arr arbitrary: t)
  case Nil
  then show ?case by simp
next
  case (Cons h arr)
  show ?case
  proof (cases "classify api hosts h")
    case (Inl e)
    then show ?thesis by (auto simp: account_one_def Ex_less_Suc2 All_less_Suc2)
  next
    case (Inr x)
    then have "\<exists>t1. account_one api ports hosts h t = Inr t1"
      by (auto simp: account_one_def Let_def split: prod.splits)
    then obtain t1 where "account_one api ports hosts h t = Inr t1" ..
    with Inr Cons.IH show ?thesis by (auto simp: Ex_less_Suc2 All_less_Suc2)
  qed
qed

section \<open>Properties\<close>

text \<open>C25: when every request passes the checks, each counter holds the number of the requests of
  its host and port whose sender has a path, respectively has none; the accepted and the
  rejected total add up to the number of senders.\<close>

theorem requests_are_counted:
  assumes "account_all api ports hosts arr (tally_init (length ports) (length hosts)) = Inr t"
    and "ports \<noteq> []" "length ports < 2 ^ 32 - 1" "length hosts < 2 ^ 32 - 1"
    and "p < length ports" "k < length hosts"
  shows "accepted t ! p ! k = of_nat (length (filter (counted api ports hosts True p k) arr)) \<and>
    rejected t ! p ! k = of_nat (length (filter (counted api ports hosts False p k) arr)) \<and>
    aa t + rr t = senders t \<and> senders t = of_nat (length (filter (is_sender api hosts) arr))"
proof -
  have "tally_ok (length ports) (length hosts) (tally_init (length ports) (length hosts))"
    by (simp add: tally_ok_def tally_init_def)
  from account_all_total [OF assms(1-4) this, of p k] assms(5,6)
  show ?thesis by (simp add: tally_init_def)
qed

text \<open>The exit status of a turn that finds a faulty request is that of the first faulty
  request, whatever follows it, and a turn with none does not end the program there.\<close>

theorem first_faulty_request_decides:
  assumes "first_clock env = Some tv1" and "fetch lv turn env = Inr doc"
    and "\<not> sint (ucast (addr doc) :: u32) < 0" and "jarray api (node doc) = Some arr"
    and "i < length arr" and "classify api hosts (arr ! i) = Inl rv"
    and "\<forall>j < i. \<not> isl (classify api hosts (arr ! j))"
  shows "poll_turn api ports hosts iv lv turn env = Exit rv []"
proof -
  have "account_all api ports hosts arr (tally_init (length ports) (length hosts)) = Inl rv"
    using assms(5-7) account_all_Inl by blast
  then show ?thesis using assms(1-4) by (simp add: poll_turn_def Let_def)
qed

text \<open>C30: what is printed depends on the counters of entry 0 alone: the requests counted for a
  configured port never show, and every configured port is printed with the counts of the
  requests of no configured port.\<close>

theorem configured_ports_never_shown:
  assumes "accepted t ! 0 = accepted t' ! 0" and "rejected t ! 0 = rejected t' ! 0"
  shows "output_rows tv np nh t = output_rows tv np nh t' \<and>
    (i < np \<and> 0 < i \<and> j < nh \<longrightarrow>
      svc_row tv j (show_nat i) (accepted t ! 0 ! j) ''0'' \<in> set (output_rows tv np nh t))"
proof -
  have row: "svc_row tv j fl (accepted t ! 0 ! j) ''0'' \<in> set (host_rows tv fl nh t)" if "j < nh" for fl
    using that by (auto simp: host_rows_def)
  have "set (host_rows tv (show_nat i) nh t) \<subseteq> set (output_rows tv np nh t)" if "i < np" "0 < i"
    using that by (auto simp: output_rows_def)
  moreover have "output_rows tv np nh t = output_rows tv np nh t'"
    using assms by (simp add: output_rows_def host_rows_def)
  ultimately show ?thesis using row by blast
qed

text \<open>The wait for the next turn either does not sleep at all, when less than a second or a
  whole number of seconds is left, or never ends while \<open>usleep\<close> succeeds, since the time
  left is only computed anew after an interruption.\<close>

theorem wait_all_or_nothing:
  "(\<not> still_waiting tv3 \<longrightarrow> wait_loop (Suc n) sleeps clock tv1 tv3 k = Some None) \<and>
   (still_waiting tv3 \<longrightarrow> (\<forall>i. sleeps i = Slept) \<longrightarrow> wait_loop n sleeps clock tv1 tv3 k = None)"
proof -
  have "wait_loop n sleeps clock tv1 tv3 k = None" if "still_waiting tv3" "\<forall>i. sleeps i = Slept"
    using that by (induction n arbitrary: k) auto
  then show ?thesis by simp
qed

text \<open>C29: with an interval of at least two seconds, a turn that completes within a second, but not
  within the same microsecond, is the last: the program then sleeps for ever.\<close>

theorem second_turn_never_comes:
  assumes "first_clock env = Some (s, u)" and "second_clock env = Some (s2, u2)"
    and "poll_turn api ports hosts iv lv turn env = Wait tv1 tv3 rows"
    and "iv \<ge> 2" and "0 \<le> u" "u < 1000000" "0 \<le> u2" "u2 < 1000000" and "u \<noteq> u2"
    and "1000000 * s2 + u2 < 1000000 * s + u + 1000000" and "\<forall>i. sleeps i = Slept"
  shows "wait_loop n sleeps clock tv1 tv3 0 = None"
proof -
  have "tv3 = timersub (s + iv, u) (s2, u2)"
    using assms(1-3) by (auto simp: poll_turn_def Let_def split: sum.splits option.splits if_splits)
  then have "still_waiting tv3"
    using assms(4-10) by (auto simp: timersub_def Let_def still_waiting_def)
  then show ?thesis using wait_all_or_nothing assms(11) by blast
qed

text \<open>A reply is taken for a parse error because of its address: whenever bit 31 of the
  address is set the program exits, although the document is well formed.\<close>

theorem document_rejected_by_address:
  assumes "first_clock env = Some tv1" and "fetch lv turn env = Inr doc"
    and "bit (addr doc) 31"
  shows "poll_turn api ports hosts iv lv turn env = Exit (sint (- (ucast (addr doc) :: u32))) []"
proof -
  have "sint (ucast (addr doc) :: u32) < 0"
    using assms(3) by (simp add: bit_last_iff [symmetric] bit_ucast_iff)
  then show ?thesis using assms(1,2) by (simp add: poll_turn_def Let_def)
qed

lemma svc_args_interval:
  "(badflag opts \<or> interval opts \<ge> 1) \<Longrightarrow> badflag (svc_args as opts) \<or> interval (svc_args as opts) \<ge> 1"
proof (induction as opts rule: svc_args.induct)
  case (2 a as opts)
  have f: "badflag (f s opts) \<or> interval (f s opts) \<ge> 1" if "svc_option c = Some f" for c f s
    using that 2(6) by (auto simp: svc_option_def set_interval_def bad_def Let_def split: if_splits)
  show ?case
    using 2(1-5) f [of "a ! 1"] 2(6) by (auto simp: bad_def split: option.splits list.splits)
qed simp

text \<open>A command line that is accepted gives an interval of at least one second.\<close>

theorem accepted_interval_positive:
  assumes "\<not> badflag (svc_args as default_svc_options)"
  shows "interval (svc_args as default_svc_options) \<ge> 1"
  using assms svc_args_interval [of default_svc_options as] by (simp add: default_svc_options_def)

lemma distinct_add_ip:
  "distinct (map host m) \<Longrightarrow> distinct (map host (add_ip_to_host r1 r2 nm ip m))"
  by (auto simp: add_ip_hosts)

lemma distinct_load_hosts:
  "load_hosts mem api j = Some hosts \<Longrightarrow> distinct (map host hosts)"
proof -
  have "distinct (map host (fold (\<lambda>(k, nm, ip). add_ip_to_host (fst (mem k)) (snd (mem k)) nm ip) ps m))"
    if "distinct (map host m)" for ps m
    using that by (induction ps arbitrary: m) (auto intro: distinct_add_ip)
  then show "load_hosts mem api j = Some hosts \<Longrightarrow> distinct (map host hosts)"
    by (auto simp: load_hosts_def split: option.splits)
qed

text \<open>The main loop starts with an entry for the requests of no configured port, with at
  least one host, and with no host listed twice; no other entry has the port 0.\<close>

theorem start_tables:
  assumes "svc_start api env opts = Some (Inr (ports, hosts))"
  shows "ports \<noteq> [] \<and> hd ports = 0 \<and> (\<forall>p \<in> set (tl ports). p \<noteq> 0) \<and> hosts \<noteq> [] \<and>
    distinct (map host hosts)"
proof -
  obtain f where f: "ports = load_prio (prio_mem env) 0 f priorities_init"
    and hosts: "load_hosts (host_mem env) api (node_file env) = Some hosts" "hosts \<noteq> []"
    using assms by (auto simp: svc_start_def Let_def split: if_splits sum.splits option.splits)
  obtain qs where "ports = 0 # qs" "\<forall>q \<in> set qs. q \<noteq> 0"
    using load_prio_shape [of "prio_mem env" 0 f 0 "[]"] f by (auto simp: priorities_init_def)
  then show ?thesis using hosts distinct_load_hosts [OF hosts(1)] by simp
qed

section \<open>Witnesses\<close>

datatype js = JObj "(string \<times> js) list" | JArr "js list" | JStr string | JInt int

definition js_api :: "js json_api" where
  "js_api = \<lparr>jget = (\<lambda>j k. case j of Some (JObj kvs) \<Rightarrow> map_of kvs k | _ \<Rightarrow> None),
     jint = (\<lambda>j. case j of JInt i \<Rightarrow> i | _ \<Rightarrow> 0),
     jstr = (\<lambda>j. case j of JStr s \<Rightarrow> Some s | _ \<Rightarrow> None),
     jarray = (\<lambda>j. case j of Some (JArr xs) \<Rightarrow> Some (map Some xs) | _ \<Rightarrow> None),
     jpairs = (\<lambda>j. case j of Some (JObj kvs) \<Rightarrow> Some (map (\<lambda>(k, v). (k, Some v)) kvs) | _ \<Rightarrow> None)\<rparr>"

definition js_request :: "int \<Rightarrow> js" where
  "js_request p = JObj [(''#0'', JObj [(''src_ip'', JStr ''10.0.0.1''), (''dst_ip'', JStr ''10.0.0.2''),
     (''destination-port'', JInt p), (''roles'', JStr ''Sender'')]), (''path'', JArr [JInt 1])]"

definition js_hosts :: "host_to_ip list" where
  "js_hosts = [\<lparr>host = ''HostA'', ips = [''10.0.0.1'']\<rparr>]"

definition js_env :: "js turn_env" where
  "js_env = \<lparr>first_clock = Some (100, 5), curl_rv = 0, chunks = [(True, ''[]'')],
     parse = (\<lambda>_. \<lparr>addr = 0x10, node = Some (JArr [js_request 80, JInt 0])\<rparr>),
     from_file = (\<lambda>_. \<lparr>addr = 0x80000000, node = Some (JArr [])\<rparr>), second_clock = Some (100, 9)\<rparr>"

theorem requests_are_counted_witness:
  "\<exists>t. account_all js_api [0, 80] js_hosts [Some (js_request 80)] (tally_init 2 1) = Inr t \<and>
     accepted t ! 1 ! 0 = 1"
proof -
  let ?t = "\<lparr>accepted = [[0], [1]], rejected = [[0], [0]], aa = 1, rr = 0, senders = 1\<rparr>"
  have t: "account_all js_api [0, 80] js_hosts [Some (js_request 80)] (tally_init 2 1) = Inr ?t"
    by code_simp
  have "counted js_api [0, 80] js_hosts True 1 0 (Some (js_request 80))" by code_simp
  then show ?thesis
    using t requests_are_counted [of js_api "[0, 80]" js_hosts "[Some (js_request 80)]" ?t 1 0]
    by (simp add: js_hosts_def)
qed

theorem first_faulty_request_decides_witness:
  "poll_turn js_api [0, 80] js_hosts 15 True 0 js_env = Exit 9 []"
proof (rule first_faulty_request_decides [where i = 1])
  show "fetch True 0 js_env = Inr \<lparr>addr = 0x10, node = Some (JArr [js_request 80, JInt 0])\<rparr>"
    by (simp add: fetch_def js_env_def curldata_def reply_init_def)
  show "classify js_api js_hosts ([Some (js_request 80), Some (JInt 0)] ! 1) = Inl 9"
    "\<forall>j < 1. \<not> isl (classify js_api js_hosts ([Some (js_request 80), Some (JInt 0)] ! j))"
    by code_simp+
qed (simp_all add: js_env_def js_api_def)

theorem configured_ports_never_shown_witness:
  "svc_row (5, 0) 0 (show_nat 1) 0 ''0'' \<in> set (output_rows (5, 0) 2 1
     ((tally_init 2 1)\<lparr>accepted := [[0], [7]]\<rparr>))"
proof -
  let ?t = "(tally_init 2 1)\<lparr>accepted := [[0], [7]]\<rparr>"
  have "accepted ?t ! 0 = accepted (tally_init 2 1) ! 0" "rejected ?t ! 0 = rejected (tally_init 2 1) ! 0"
    by (simp_all add: tally_init_def)
  note conjunct2 [OF configured_ports_never_shown [OF this, of "(5, 0)" 2 1 1 0]]
  then have "svc_row (5, 0) 0 (show_nat 1) (accepted ?t ! 0 ! 0) ''0'' \<in> set (output_rows (5, 0) 2 1 ?t)"
    by simp
  then show ?thesis by simp
qed

theorem wait_all_or_nothing_witness:
  "wait_loop 1000 (\<lambda>_. Slept) (\<lambda>_. None) (115, 5) (14, 999996) 0 = None"
  using wait_all_or_nothing [of "(14, 999996)" _ "\<lambda>_. Slept"] by (simp add: still_waiting_def)

theorem accepted_interval_positive_witness:
  "interval (svc_args [''-t'', ''30'', ''-x''] default_svc_options) \<ge> 1"
  by (rule accepted_interval_positive) code_simp

lemma js_turn:
  "poll_turn js_api [0, 80] js_hosts 15 False 0
      (js_env\<lparr>from_file := (\<lambda>_. \<lparr>addr = 0x10, node = Some (JArr [])\<rparr>)\<rparr>) =
    Wait (115, 5) (14, 999996) (output_rows (100, 5) (length [0 :: u16, 80]) (length js_hosts)
      (tally_init (length [0 :: u16, 80]) (length js_hosts)))"
  by (simp add: poll_turn_def js_env_def fetch_def js_api_def Let_def timersub_def)

theorem second_turn_never_comes_witness:
  "wait_loop 1000 (\<lambda>_. Slept) (\<lambda>_. None) (115, 5) (14, 999996) 0 = None"
  by (rule second_turn_never_comes [OF _ _ js_turn, of 100 5 100 9]) (simp_all add: js_env_def)

theorem document_rejected_by_address_witness:
  "poll_turn js_api [0, 80] js_hosts 15 False 0 js_env = Exit (- (2 ^ 31)) []"
proof -
  have "fetch False 0 js_env = Inr \<lparr>addr = 0x80000000, node = Some (JArr [])\<rparr>"
    by (simp add: fetch_def js_env_def)
  from document_rejected_by_address [OF _ this, of "(100, 5)" js_api "[0, 80]" js_hosts 15]
  show ?thesis by (simp add: js_env_def)
qed

definition js_start :: "js start_env" where
  "js_start = \<lparr>conf_file = Inr ''1=80'', prio_mem = (\<lambda>_. True),
     node_file = Some (JObj [(''Host1'', JObj [(''if0'', JObj [(''address'', JStr ''10.0.0.1/24'')])])]),
     host_mem = (\<lambda>_. (True, True)), curl_global = 0, curl_easy = True\<rparr>"

theorem start_tables_witness:
  "hd [0 :: u16, 80] = 0 \<and> distinct (map host [\<lparr>host = ''Host1'', ips = [''10.0.0.1'']\<rparr>])"
proof -
  have "svc_start js_api js_start default_svc_options =
      Some (Inr ([0, 80], [\<lparr>host = ''Host1'', ips = [''10.0.0.1'']\<rparr>]))"
    by code_simp
  from start_tables [OF this] show ?thesis by blast
qed

end
