(* ===== verification/Grapher.thy ===== *)
theory Grapher
  imports CLib
begin

text \<open>
  The data of the grapher \<open>mwmg.c\<close>: one array of samples per window, which \<open>readin\<close>
  fills from the lines of a collector and \<open>update\<close> displays once per tick; and which
  windows are shown. Drawing is left out. An access outside an array is None.
\<close>

unbundle bit_operations_syntax

section \<open>State\<close>

definition DEFTLEN :: int where "DEFTLEN = 31 * 60"

definition W_MEM :: int where "W_MEM = 0"
definition W_CPU :: int where "W_CPU = 1"
definition W_TIME :: int where "W_TIME = 2"
definition W_NET :: int where "W_NET = 3"
definition W_OTHER :: int where "W_OTHER = 4"
definition W_USER :: int where "W_USER = 5"

lemmas win_defs = W_MEM_def W_CPU_def W_TIME_def W_NET_def W_OTHER_def W_USER_def

record win =
  samps :: "u64 list"
  wname :: string

text \<open>
  \<open>debugging\<close> and \<open>forever\<close> say how the program was built, with \<open>DEBUG\<close> and with
  \<open>RUN_FOREVER\<close>; the Makefile defines both.
\<close>

record grapher =
  wins :: "win list"
  nsys :: int
  curtime :: u64
  start :: int
  started :: bool
  showwins :: u32
  debugging :: bool
  forever :: bool

text \<open>\<open>falloc\<close>: twice \<open>DEFTLEN\<close> samples for each system, all zero.\<close>

definition falloc :: "int \<Rightarrow> u64 list" where
  "falloc n = replicate (nat (2 * DEFTLEN * n)) 0"

text \<open>What the samples of window \<open>k\<close> hold before anything is read: a debugging build fills
  those of \<open>W_NET\<close> with a pattern.\<close>

definition untouched :: "bool \<Rightarrow> nat \<Rightarrow> u64" where
  "untouched dbg k = (if dbg \<and> int k = W_NET then 0xDEADBEEFDEADBEEF else 0)"

definition fresh_samps :: "bool \<Rightarrow> int \<Rightarrow> nat \<Rightarrow> u64 list" where
  "fresh_samps dbg n k = map (\<lambda>x. x + untouched dbg k) (falloc n)"

section \<open>Samples\<close>

text \<open>The index of the sample of a second, a system and a level.\<close>

definition cell :: "int \<Rightarrow> int \<Rightarrow> int \<Rightarrow> bool \<Rightarrow> int" where
  "cell n i who encapped = i * n + who + (if encapped then 1 else 0) * DEFTLEN * n"

definition add_at :: "int \<Rightarrow> u64 \<Rightarrow> u64 list \<Rightarrow> u64 list option" where
  "add_at k incr xs = (if 0 \<le> k \<and> k < int (length xs)
     then Some (xs[nat k := xs ! nat k + incr]) else None)"

definition add_sample :: "int \<Rightarrow> int \<Rightarrow> u64 \<Rightarrow> win list \<Rightarrow> win list option" where
  "add_sample flow k incr ws = (if 0 \<le> flow \<and> flow < int (length ws)
     then map_option (\<lambda>xs. ws[nat flow := (ws ! nat flow)\<lparr>samps := xs\<rparr>])
       (add_at k incr (samps (ws ! nat flow)))
     else None)"

definition sample :: "win list \<Rightarrow> int \<Rightarrow> int \<Rightarrow> u64" where
  "sample ws flow k = samps (ws ! nat flow) ! nat k"

section \<open>readin\<close>

definition flow_window :: "string \<Rightarrow> int" where
  "flow_window s = (if s \<noteq> [] \<and> hd s = CHR ''X'' then W_OTHER
     else if s \<noteq> [] \<and> hd s = CHR ''C'' then W_CPU
     else if s \<noteq> [] \<and> hd s = CHR ''M'' then W_MEM
     else atoi s + W_USER - 1)"

text \<open>A line: the second, the system, the window, the value and the level; None if it is ignored.\<close>

record point =
  tsec :: int
  who :: int
  flow :: int
  incr :: u64
  encapped :: bool

definition parse_line :: "int \<Rightarrow> string \<Rightarrow> point option" where
  "parse_line t0 line = (case strtok '':'' line of None \<Rightarrow> None | Some (s, r1) \<Rightarrow>
     if atoi s < t0 then None
     else (case strtok '':'' r1 of None \<Rightarrow> None | Some (w, r2) \<Rightarrow>
     if atoi w \<le> 0 then None
     else (case strtok '':'' r2 of None \<Rightarrow> None | Some (f, r3) \<Rightarrow>
       (case strtok '':'' r3 of None \<Rightarrow> None | Some (v, r4) \<Rightarrow>
         (case strtok [CHR 0x0A] r4 of None \<Rightarrow> None | Some (l, _) \<Rightarrow>
           Some \<lparr>tsec = atoi s, who = atoi w, flow = flow_window f, incr = strtoul10 v,
             encapped = (hd l \<noteq> CHR ''0'')\<rparr>)))))"

definition begin_graph :: "int \<Rightarrow> grapher \<Rightarrow> grapher" where
  "begin_graph now g = (if started g then g else g\<lparr>start := now, started := True\<rparr>)"

text \<open>
  \<open>now\<close> is the time of the call and \<open>line\<close> what \<open>fgets\<close> read. The flag is whether the
  main loop is told to quit; the result is None when the sample is outside the arrays. Once
  the display is full a debugging build counts the samples of \<open>W_NET\<close> that were touched, over
  eight times their number.
\<close>

definition readin :: "int \<Rightarrow> string option \<Rightarrow> grapher \<Rightarrow> (grapher \<times> bool) option" where
  "readin now line g0 = (let g = begin_graph now g0 in
     if curtime g \<ge> word_of_int DEFTLEN then
       (if debugging g \<and> curtime g = word_of_int DEFTLEN then None else Some (g, \<not> forever g))
     else (case line of None \<Rightarrow> Some (g, \<not> forever g)
     | Some l \<Rightarrow> (case parse_line (start g) l of None \<Rightarrow> Some (g, False)
         | Some p \<Rightarrow> map_option (\<lambda>ws. (g\<lparr>wins := ws\<rparr>, False))
             (add_sample (flow p) (cell (nsys g) (tsec p - start g) (who p - 1) (encapped p)) (incr p) (wins g)))))"

section \<open>update and the visible windows\<close>

definition win_bit :: "nat \<Rightarrow> u32 option" where
  "win_bit i = (if i < 32 then Some (push_bit i 1) else None)"

definition toggle_event :: "nat \<Rightarrow> grapher \<Rightarrow> grapher option" where
  "toggle_event i g = map_option (\<lambda>b. g\<lparr>showwins := showwins g XOR b\<rparr>) (win_bit i)"

definition shown :: "grapher \<Rightarrow> nat \<Rightarrow> bool option" where
  "shown g i = map_option (\<lambda>b. showwins g AND b \<noteq> 0) (win_bit i)"

text \<open>The windows redrawn, and whether the timer goes on.\<close>

fun drawn_from :: "grapher \<Rightarrow> nat list \<Rightarrow> nat list option" where
  "drawn_from g [] = Some []"
| "drawn_from g (i # is) = (case shown g i of None \<Rightarrow> None
     | Some b \<Rightarrow> map_option (\<lambda>r. if b then i # r else r) (drawn_from g is))"

definition update :: "grapher \<Rightarrow> (grapher \<times> nat list \<times> bool) option" where
  "update g = map_option (\<lambda>d. (g\<lparr>curtime := curtime g + 1\<rparr>, d, curtime g + 1 < word_of_int DEFTLEN))
     (drawn_from g [0..<length (wins g)])"

section \<open>The samples as a grid\<close>

text \<open>
  What the display relies on: the index of a sample stays inside the array and determines
  the second, the system and the level.
\<close>

locale grid =
  fixes index :: "int \<Rightarrow> int \<Rightarrow> bool \<Rightarrow> int" and rows :: int and cols :: int and size :: int
  assumes index_bound: "0 \<le> i \<Longrightarrow> i < rows \<Longrightarrow> 0 \<le> w \<Longrightarrow> w < cols \<Longrightarrow> 0 \<le> index i w e \<and> index i w e < size"
    and index_inj: "0 \<le> i \<Longrightarrow> i < rows \<Longrightarrow> 0 \<le> w \<Longrightarrow> w < cols \<Longrightarrow> 0 \<le> i' \<Longrightarrow> i' < rows \<Longrightarrow>
      0 \<le> w' \<Longrightarrow> w' < cols \<Longrightarrow> index i w e = index i' w' e' \<Longrightarrow> i = i' \<and> w = w' \<and> e = e'"
begin

definition inside :: "int \<Rightarrow> int \<Rightarrow> bool" where
  "inside i w \<longleftrightarrow> 0 \<le> i \<and> i < rows \<and> 0 \<le> w \<and> w < cols"

lemma add_inside:
  assumes "inside i w" and "length xs = nat size"
  obtains ys where "add_at (index i w e) v xs = Some ys" and "length ys = length xs"
    and "\<And>i' w' e'. inside i' w' \<Longrightarrow> ys ! nat (index i' w' e') =
      xs ! nat (index i' w' e') + (if i' = i \<and> w' = w \<and> e' = e then v else 0)"
proof
  have b: "0 \<le> index i' w' e'" "index i' w' e' < size" if "inside i' w'" for i' w' e'
    using index_bound [of i' w' e'] that by (auto simp: inside_def)
  let ?ys = "xs[nat (index i w e) := xs ! nat (index i w e) + v]"
  show "add_at (index i w e) v xs = Some ?ys"
    using b [OF assms(1), of e] assms(2) by (simp add: add_at_def)
  show "length ?ys = length xs" by simp
  show "?ys ! nat (index i' w' e') =
      xs ! nat (index i' w' e') + (if i' = i \<and> w' = w \<and> e' = e then v else 0)"
    if "inside i' w'" for i' w' e'
  proof (cases "i' = i \<and> w' = w \<and> e' = e")
    case True
    then show ?thesis using b [OF assms(1), of e] assms(2) by simp
  next
    case False
    then have "index i' w' e' \<noteq> index i w e"
      using index_inj [of i' w' i w e' e] that assms(1) by (auto simp: inside_def)
    then have "nat (index i' w' e') \<noteq> nat (index i w e)"
      using b [OF assms(1), of e] b [OF that, of e'] by simp
    then have "?ys ! nat (index i' w' e') = xs ! nat (index i' w' e')" by simp
    then show ?thesis by (simp only: if_not_P [OF False] add_0_right)
  qed
qed

end

lemma cell_bound:
  assumes "0 \<le> i" "i < DEFTLEN" "0 \<le> w" "w < n"
  shows "0 \<le> cell n i w e \<and> cell n i w e < 2 * DEFTLEN * n"
proof -
  have n: "0 < n" using assms by simp
  have "i * n + w < DEFTLEN * n"
  proof -
    have "i * n + w < (i + 1) * n" using assms(4) by (simp add: algebra_simps)
    also have "\<dots> \<le> DEFTLEN * n" using assms(2) n by (intro mult_right_mono) auto
    finally show ?thesis .
  qed
  moreover have "0 \<le> i * n + w" "0 \<le> DEFTLEN * n" using assms n by (simp_all add: DEFTLEN_def)
  ultimately show ?thesis by (auto simp: cell_def)
qed

lemma cell_inj:
  assumes "0 \<le> i" "i < DEFTLEN" "0 \<le> w" "w < n" "0 \<le> i'" "i' < DEFTLEN" "0 \<le> w'" "w' < n"
    and "cell n i w e = cell n i' w' e'"
  shows "i = i' \<and> w = w' \<and> e = e'"
proof -
  have n: "0 < n" using assms by simp
  define a where "a = i + (if e then DEFTLEN else 0)"
  define a' where "a' = i' + (if e' then DEFTLEN else 0)"
  have "w + a * n = w' + a' * n"
    using assms(9) by (simp add: cell_def a_def a'_def algebra_simps split: if_splits)
  then have "(w + a * n) div n = (w' + a' * n) div n" "(w + a * n) mod n = (w' + a' * n) mod n"
    by simp_all
  then have "a = a'" "w = w'" using assms n by simp_all
  then show ?thesis using assms(1,2,5,6) by (auto simp: a_def a'_def split: if_splits)
qed

interpretation samples: grid "cell n" DEFTLEN n "2 * DEFTLEN * n" for n
  by unfold_locales (use cell_bound cell_inj in \<open>blast+\<close>)

definition grapher_ok :: "grapher \<Rightarrow> bool" where
  "grapher_ok g \<longleftrightarrow> W_USER \<le> int (length (wins g)) \<and>
     (\<forall>w \<in> set (wins g). length (samps w) = nat (2 * DEFTLEN * nsys g))"

lemma add_at_length: "add_at k v xs = Some ys \<Longrightarrow> length ys = length xs"
  by (auto simp: add_at_def split: if_splits)

lemma add_sample_shape:
  assumes "add_sample f k v ws = Some ws'"
  shows "length ws' = length ws" and "map (length \<circ> samps) ws' = map (length \<circ> samps) ws"
    and "map wname ws' = map wname ws"
proof -
  from assms obtain xs where f: "0 \<le> f" "f < int (length ws)"
    and xs: "add_at k v (samps (ws ! nat f)) = Some xs"
    and ws': "ws' = ws[nat f := (ws ! nat f)\<lparr>samps := xs\<rparr>]"
    by (auto simp: add_sample_def split: if_splits)
  show "length ws' = length ws" by (simp add: ws')
  show "map (length \<circ> samps) ws' = map (length \<circ> samps) ws" "map wname ws' = map wname ws"
    using f add_at_length [OF xs]
    by (auto simp: ws' map_update intro!: nth_equalityI simp: nth_list_update)
qed

lemma readin_ok:
  assumes "readin now line g = Some (g', q)" and "grapher_ok g"
  shows "grapher_ok g' \<and> nsys g' = nsys g \<and> curtime g' = curtime g \<and> length (wins g') = length (wins g)"
proof -
  have keep: "grapher_ok (g1\<lparr>wins := ws\<rparr>)"
    if "add_sample f k v (wins g1) = Some ws" "grapher_ok g1" for f k v ws g1
  proof -
    have "map (length \<circ> samps) ws = map (length \<circ> samps) (wins g1)"
      using add_sample_shape(2) [OF that(1)] .
    then have "(length \<circ> samps) ` set ws = (length \<circ> samps) ` set (wins g1)" by (metis set_map)
    then show ?thesis using that(2) add_sample_shape(1) [OF that(1)]
      by (fastforce simp: grapher_ok_def)
  qed
  have "grapher_ok (begin_graph now g)" using assms(2) by (simp add: begin_graph_def grapher_ok_def)
  then show ?thesis
    using assms(1) keep [of _ _ _ "begin_graph now g"] add_sample_shape(1)
    by (auto simp: readin_def Let_def begin_graph_def split: if_splits option.splits)
qed

lemma parse_line_range: "parse_line t0 l = Some p \<Longrightarrow> t0 \<le> tsec p \<and> 0 < who p"
  by (auto simp: parse_line_def split: option.splits if_splits)

lemma parse_line_row:
  assumes "int s < 2 ^ 31" "t0 \<le> int s" and "CHR '':'' \<notin> set us" and "0 < k" "k < 2 ^ 31"
    and "f \<noteq> []" "CHR '':'' \<notin> set f" and "v < 2 ^ 64"
    and "l \<noteq> []" "CHR 0x0A \<notin> set l"
  shows "parse_line t0 (show_nat s @ ''.'' @ us @ '':'' @ show_nat k @ '':'' @ f @ '':'' @ show_nat v @
      '':'' @ l @ [CHR 0x0A]) = Some \<lparr>tsec = int s, who = int k, flow = flow_window f, incr = of_nat v,
      encapped = (hd l \<noteq> CHR ''0'')\<rparr>"
proof -
  have 1: "strtok '':'' ((show_nat s @ ''.'' @ us) @ CHR '':'' # r) = Some (show_nat s @ ''.'' @ us, r)" for r
    using assms(3) by (intro strtok_token) auto
  have 2: "strtok '':'' (show_nat n @ CHR '':'' # r) = Some (show_nat n, r)" for n r
    by (intro strtok_token) auto
  have 3: "strtok '':'' (f @ CHR '':'' # r) = Some (f, r)" for r
    using assms(6,7) by (intro strtok_token) auto
  have 4: "strtok [CHR 0x0A] (l @ [CHR 0x0A]) = Some (l, [])"
    using assms(9,10) by (intro strtok_token) auto
  have a: "atoi (show_nat s @ ''.'' @ us) = int s" using assms(1) by (intro atoi_show_nat) (auto simp: is_digit_def)
  have b: "atoi (show_nat k) = int k" using assms(5) atoi_show_nat [of "[]" k] by simp
  have c: "strtoul10 (show_nat v) = of_nat v" using assms(8) strtoul10_show_nat [of "[]" v] by simp
  show ?thesis using 1 2 3 4 a b c assms(2,4) by (simp add: parse_line_def)
qed

lemma readin_point:
  assumes "grapher_ok g" and "started g" and "curtime g < word_of_int DEFTLEN"
    and "parse_line (start g) l = Some p" and "0 \<le> flow p" "flow p < int (length (wins g))"
    and "tsec p < start g + DEFTLEN" and "who p \<le> nsys g"
  shows "\<exists>g'. readin now (Some l) g = Some (g', False) \<and>
    (\<forall>f i w e. 0 \<le> f \<longrightarrow> f < int (length (wins g)) \<longrightarrow> 0 \<le> i \<longrightarrow> i < DEFTLEN \<longrightarrow> 0 \<le> w \<longrightarrow> w < nsys g \<longrightarrow>
      sample (wins g') f (cell (nsys g) i w e) = sample (wins g) f (cell (nsys g) i w e) +
        (if f = flow p \<and> i = tsec p - start g \<and> w = who p - 1 \<and> e = encapped p then incr p else 0))"
proof -
  let ?i = "tsec p - start g" and ?w = "who p - 1" and ?W = "wins g ! nat (flow p)"
  have ins: "samples.inside (nsys g) ?i ?w"
    using parse_line_range [OF assms(4)] assms(7,8) by (auto simp: samples.inside_def)
  have len: "length (samps ?W) = nat (2 * DEFTLEN * nsys g)"
    using assms(1,5,6) by (simp add: grapher_ok_def nat_less_iff)
  obtain ys where ys: "add_at (cell (nsys g) ?i ?w (encapped p)) (incr p) (samps ?W) = Some ys"
    and upd: "\<And>i' w' e'. samples.inside (nsys g) i' w' \<Longrightarrow> ys ! nat (cell (nsys g) i' w' e') =
      samps ?W ! nat (cell (nsys g) i' w' e') + (if i' = ?i \<and> w' = ?w \<and> e' = encapped p then incr p else 0)"
    using samples.add_inside [OF ins len, of "encapped p" "incr p"] by metis
  let ?ws = "(wins g)[nat (flow p) := ?W\<lparr>samps := ys\<rparr>]"
  have "readin now (Some l) g = Some (g\<lparr>wins := ?ws\<rparr>, False)"
    using assms(2-6) ys by (auto simp: readin_def begin_graph_def add_sample_def Let_def not_le)
  moreover have "sample ?ws f (cell (nsys g) i w e) = sample (wins g) f (cell (nsys g) i w e) +
        (if f = flow p \<and> i = ?i \<and> w = ?w \<and> e = encapped p then incr p else 0)"
    if "0 \<le> f" "f < int (length (wins g))" "0 \<le> i" "i < DEFTLEN" "0 \<le> w" "w < nsys g" for f i w e
  proof (cases "f = flow p")
    case True
    then show ?thesis
      using upd [of i w e] that by (simp add: sample_def samples.inside_def nat_less_iff)
  next
    case False
    then have "nat f \<noteq> nat (flow p)" using that(1) assms(5) by auto
    then have "sample ?ws f (cell (nsys g) i w e) = sample (wins g) f (cell (nsys g) i w e)"
      by (simp add: sample_def)
    then show ?thesis using False by simp
  qed
  ultimately show ?thesis by auto
qed

lemma readin_start:
  "readin now line g = Some (g', q) \<Longrightarrow> started g \<Longrightarrow> started g' \<and> start g' = start g"
  by (auto simp: readin_def begin_graph_def Let_def split: if_splits option.splits)

section \<open>Properties\<close>

text \<open>C16: a line for a window that exists, a system within \<open>-n\<close> and a second within the display
  adds its value to the one sample of its window, second, system and level, and changes no
  other sample of any window.\<close>

theorem readin_adds_one_sample:
  assumes "grapher_ok g" and "started g" and "curtime g < word_of_int DEFTLEN"
    and "parse_line (start g) l = Some p" and "0 \<le> flow p" "flow p < int (length (wins g))"
    and "tsec p < start g + DEFTLEN" and "who p \<le> nsys g"
  shows "\<exists>g'. readin now (Some l) g = Some (g', False) \<and>
    (\<forall>f i w e. 0 \<le> f \<longrightarrow> f < int (length (wins g)) \<longrightarrow> 0 \<le> i \<longrightarrow> i < DEFTLEN \<longrightarrow> 0 \<le> w \<longrightarrow> w < nsys g \<longrightarrow>
      sample (wins g') f (cell (nsys g) i w e) = sample (wins g) f (cell (nsys g) i w e) +
        (if f = flow p \<and> i = tsec p - start g \<and> w = who p - 1 \<and> e = encapped p then incr p else 0))"
  using assms by (rule readin_point)

text \<open>A line older than the start of the display, or with a system below 1, changes nothing;
  once the display is full, or the input ends, nothing is read, and the program quits unless
  it was built to run for ever.\<close>

theorem readin_ignores:
  assumes "started g" and "s \<noteq> []" "CHR '':'' \<notin> set s" and "w \<noteq> []" "CHR '':'' \<notin> set w"
  shows "(curtime g \<ge> word_of_int DEFTLEN \<longrightarrow> \<not> debugging g \<longrightarrow> readin now line g = Some (g, \<not> forever g)) \<and>
    (curtime g < word_of_int DEFTLEN \<longrightarrow> readin now None g = Some (g, \<not> forever g)) \<and>
    (curtime g < word_of_int DEFTLEN \<longrightarrow> atoi s < start g \<or> atoi w \<le> 0 \<longrightarrow>
      readin now (Some (s @ '':'' @ w @ '':'' @ rest)) g = Some (g, False))"
proof -
  have "strtok '':'' (s @ CHR '':'' # r) = Some (s, r)" "strtok '':'' (w @ CHR '':'' # r) = Some (w, r)" for r
    using assms(2-5) by (auto intro!: strtok_token)
  then have "parse_line (start g) (s @ '':'' @ w @ '':'' @ rest) = None"
    if "atoi s < start g \<or> atoi w \<le> 0"
    using that by (auto simp: parse_line_def)
  then show ?thesis using assms(1) by (auto simp: readin_def begin_graph_def Let_def not_le)
qed

text \<open>Nothing checks the system and the second against the display: a system above \<open>-n\<close> is
  charged to another system one second later, and a second behind the last one is charged,
  as relayed traffic, to the second \<open>DEFTLEN\<close> before it.\<close>

theorem readin_misattributes:
  assumes "parse_line (start (begin_graph now g)) l = Some p"
  shows "(parse_line (start (begin_graph now g)) l' = Some (p\<lparr>who := who p - nsys g, tsec := tsec p + 1\<rparr>) \<longrightarrow>
      readin now (Some l) g = readin now (Some l') g) \<and>
    (\<not> encapped p \<longrightarrow>
      parse_line (start (begin_graph now g)) l' = Some (p\<lparr>tsec := tsec p - DEFTLEN, encapped := True\<rparr>) \<longrightarrow>
      readin now (Some l) g = readin now (Some l') g)"
proof -
  have n: "nsys (begin_graph now g) = nsys g" by (simp add: begin_graph_def)
  have "cell n (i + 1) (w - n) e = cell n i w e" "cell n (i - DEFTLEN) w True = cell n i w False" for n i w e
    by (simp_all add: cell_def algebra_simps)
  from this(1) [of "nsys g" "tsec p - start (begin_graph now g)" "who p - 1" "encapped p"]
    this(2) [of "nsys g" "tsec p - start (begin_graph now g)" "who p - 1"]
  show ?thesis using assms by (auto simp: readin_def Let_def n algebra_simps)
qed

text \<open>C37: for a line that is not ignored, while time is left, the program writes outside memory it
  owns exactly when the flow names no window or the place lies behind both levels: when the
  seconds since the start, one more for every \<open>-n\<close> systems by which the system's number is too
  large, and \<open>DEFTLEN\<close> more for relayed traffic, are at least twice \<open>DEFTLEN\<close>. Nothing checks it.\<close>

theorem readin_out_of_bounds:
  assumes "grapher_ok g" and "started g" and "curtime g < word_of_int DEFTLEN" and "0 < nsys g"
    and "parse_line (start g) l = Some p"
  shows "readin now (Some l) g = None \<longleftrightarrow> flow p < 0 \<or> int (length (wins g)) \<le> flow p \<or>
    2 * DEFTLEN \<le> (tsec p - start g) + (who p - 1) div nsys g + (if encapped p then DEFTLEN else 0)"
proof -
  let ?t = "tsec p - start g" and ?w = "who p - 1" and ?l = "if encapped p then DEFTLEN else 0"
  let ?c = "cell (nsys g) ?t ?w (encapped p)"
  have r: "0 \<le> ?t" "0 \<le> ?w" using parse_line_range [OF assms(5)] by auto
  have c: "?c = (?t + ?l) * nsys g + ?w" by (simp add: cell_def algebra_simps)
  have "0 \<le> ?l" by (simp add: DEFTLEN_def)
  then have "0 \<le> ?c" unfolding c using r assms(4) by simp
  have "?c div nsys g * nsys g \<le> ?c"
    using div_mult_mod_eq [of ?c "nsys g"] pos_mod_sign [OF assms(4), of ?c] by linarith
  then have "2 * DEFTLEN * nsys g \<le> ?c" if "2 * DEFTLEN \<le> ?c div nsys g"
    using mult_right_mono [OF that, of "nsys g"] assms(4) by linarith
  moreover have "2 * DEFTLEN \<le> ?c div nsys g" if "2 * DEFTLEN * nsys g \<le> ?c"
    using zdiv_mono1 [OF that assms(4)] assms(4) by simp
  ultimately have "2 * DEFTLEN * nsys g \<le> ?c \<longleftrightarrow> 2 * DEFTLEN \<le> ?c div nsys g" by blast
  also have "?c div nsys g = ?t + ?w div nsys g + ?l" unfolding c using assms(4) by simp
  finally have behind: "2 * DEFTLEN * nsys g \<le> ?c \<longleftrightarrow> 2 * DEFTLEN \<le> ?t + ?w div nsys g + ?l" .
  have "length (samps (wins g ! nat (flow p))) = nat (2 * DEFTLEN * nsys g)"
    if "0 \<le> flow p" "flow p < int (length (wins g))"
    using assms(1) that by (simp add: grapher_ok_def nat_less_iff)
  then have "add_sample (flow p) ?c (incr p) (wins g) = None \<longleftrightarrow> flow p < 0 \<or> int (length (wins g)) \<le> flow p \<or>
      2 * DEFTLEN * nsys g \<le> ?c"
    using \<open>0 \<le> ?c\<close> assms(4) by (auto simp: add_sample_def add_at_def DEFTLEN_def not_less)
  moreover have "\<not> word_of_int DEFTLEN \<le> curtime g" using assms(3) by (simp add: not_le)
  then have "readin now (Some l) g = None \<longleftrightarrow> add_sample (flow p) ?c (incr p) (wins g) = None"
    using assms(2,5) by (simp add: readin_def begin_graph_def Let_def)
  ultimately show ?thesis using behind by simp
qed

text \<open>Reading keeps the shape of the arrays: the number of windows, and two levels of
  \<open>DEFTLEN\<close> seconds for every system in each of them.\<close>

theorem readin_keeps_shape:
  assumes "readin now line g = Some (g', q)" and "grapher_ok g"
  shows "grapher_ok g' \<and> nsys g' = nsys g \<and> curtime g' = curtime g \<and> length (wins g') = length (wins g)"
  using assms by (rule readin_ok)

section \<open>Ticks\<close>

text \<open>A number of ticks, with the windows each of them redraws.\<close>

fun ticks :: "nat \<Rightarrow> grapher \<Rightarrow> (grapher \<times> nat list list \<times> bool) option" where
  "ticks 0 g = Some (g, [], True)"
| "ticks (Suc n) g = (case update g of None \<Rightarrow> None
     | Some (g', d, go) \<Rightarrow> if go then map_option (\<lambda>(g'', ds, go'). (g'', d # ds, go')) (ticks n g')
         else Some (g', [d], False))"

abbreviation visible_wins :: "grapher \<Rightarrow> nat list" where
  "visible_wins g \<equiv> filter (\<lambda>i. bit (showwins g) i) [0..<length (wins g)]"

lemma drawn_from_defined:
  "\<forall>i \<in> set is. i < 32 \<Longrightarrow> drawn_from g is = Some (filter (\<lambda>i. bit (showwins g) i) is)"
proof (induction "is")
  case Nil
  then show ?case by simp
next
  case (Cons i "is")
  then have i: "i < 32" by simp
  have "(showwins g AND push_bit i 1 \<noteq> 0) = bit (showwins g) i"
    by (simp add: and_exp_eq_0_iff_not_bit)
  with Cons i show ?case by (simp add: shown_def win_bit_def)
qed

lemma update_defined:
  assumes "length (wins g) \<le> 32"
  shows "update g = Some (g\<lparr>curtime := curtime g + 1\<rparr>,
    filter (\<lambda>i. bit (showwins g) i) [0..<length (wins g)], curtime g + 1 < word_of_int DEFTLEN)"
proof -
  have "drawn_from g [0..<length (wins g)] = Some (filter (\<lambda>i. bit (showwins g) i) [0..<length (wins g)])"
    using assms by (intro drawn_from_defined) auto
  then show ?thesis by (simp add: update_def)
qed

lemma ticks_time:
  assumes "length (wins g) \<le> 32" and "unat (curtime g) + n < 1860"
  shows "ticks n g = Some (g\<lparr>curtime := curtime g + of_nat n\<rparr>, replicate n (visible_wins g), True)"
  using assms
proof (induction n arbitrary: g)
  case 0
  then show ?case by simp
next
  case (Suc n)
  have u: "unat (curtime g + 1) = unat (curtime g) + 1"
    using Suc.prems(2) by (subst unat_add_lem [THEN iffD1]) auto
  then have "curtime g + 1 < word_of_int DEFTLEN"
    using Suc.prems(2) by (simp add: word_less_nat_alt DEFTLEN_def)
  then show ?case using Suc.IH [of "g\<lparr>curtime := curtime g + 1\<rparr>"] Suc.prems u
    by (simp add: update_defined add_ac)
qed

lemma ticks_split: "ticks (n + m) g = (case ticks n g of None \<Rightarrow> None
    | Some (g', ds, go) \<Rightarrow> if go then map_option (\<lambda>(g'', ds', go'). (g'', ds @ ds', go')) (ticks m g') else Some (g', ds, go))"
proof (induction n arbitrary: g)
  case 0
  then show ?case by (cases "ticks m g") auto
next
  case (Suc n)
  then show ?case by (auto simp: option.map_comp comp_def split_def split: option.splits)
qed

text \<open>C38: with at most 32 windows the display runs for exactly \<open>DEFTLEN\<close> ticks, each of which redraws
  the windows that are shown, in their order; the last one stops the timer. From then on no
  line is looked at: the program quits on the next input, or ignores it for ever if it was
  built to; but built with \<open>DEBUG\<close> it counts samples behind the end of an array, which is
  undefined.\<close>

theorem display_runs_out:
  assumes "length (wins g) \<le> 32" and "curtime g = 0" and "started g"
  shows "(\<forall>n < 1860. ticks n g = Some (g\<lparr>curtime := of_nat n\<rparr>, replicate n (visible_wins g), True)) \<and>
    ticks 1860 g = Some (g\<lparr>curtime := 1860\<rparr>, replicate 1860 (visible_wins g), False) \<and>
    readin now line (g\<lparr>curtime := 1860\<rparr>) = (if debugging g then None else Some (g\<lparr>curtime := 1860\<rparr>, \<not> forever g))"
proof -
  have run: "ticks n g = Some (g\<lparr>curtime := of_nat n\<rparr>, replicate n (visible_wins g), True)" if "n < 1860" for n
    using ticks_time [OF assms(1), of n] assms(2) that by simp
  define D where "D = visible_wins g"
  have "ticks (1859 + 1) g = Some (g\<lparr>curtime := 1860\<rparr>, replicate 1859 D @ [D], False)"
    unfolding ticks_split D_def using run [of 1859] assms(1)
    by (simp add: update_defined DEFTLEN_def)
  also have "replicate 1859 D @ [D] = replicate (1859 + 1) D" by (simp only: replicate_add replicate_Suc replicate_0 One_nat_def)
  finally have "ticks 1860 g = Some (g\<lparr>curtime := 1860\<rparr>, replicate 1860 D, False)"
    by simp
  then show ?thesis using run assms(3)
    by (simp add: readin_def begin_graph_def DEFTLEN_def D_def)
qed

lemma shown_bit: "i < 32 \<Longrightarrow> shown g i = Some (bit (showwins g) i)"
  using drawn_from_defined [of "[i]" g] by (cases "shown g i") (auto split: if_splits)

lemma toggle_bit:
  "i < 32 \<Longrightarrow> toggle_event i g = Some (g\<lparr>showwins := showwins g XOR push_bit i 1\<rparr>)"
  by (simp add: toggle_event_def win_bit_def)

lemma toggled_bit:
  "i < 32 \<Longrightarrow> j < 32 \<Longrightarrow> bit (w XOR push_bit i 1) j = (if j = i then \<not> bit w j else bit (w :: u32) j)"
  by (auto simp: bit_simps)

text \<open>Toggling a window changes whether it is shown and nothing else about any window, and
  toggling it twice changes nothing; from the 33rd window on the shift is undefined.\<close>

theorem toggle_flips_one_window:
  assumes "i < 32" and "j < 32"
  shows "\<exists>g'. toggle_event i g = Some g' \<and>
      shown g' j = (if j = i then map_option Not (shown g j) else shown g j) \<and>
      toggle_event i g' = Some g \<and> toggle_event (32 + k) g = None"
proof -
  have "toggle_event i (g\<lparr>showwins := showwins g XOR push_bit i 1\<rparr>) = Some g"
    using assms(1) by (simp add: toggle_bit xor.assoc)
  then show ?thesis
    using assms toggled_bit [OF assms, of "showwins g"]
    by (simp add: toggle_bit shown_bit) (simp add: toggle_event_def win_bit_def)
qed

section \<open>Witnesses\<close>

definition sample_grapher :: grapher where
  "sample_grapher = \<lparr>wins = replicate 5 \<lparr>samps = falloc 2, wname = ''w''\<rparr>, nsys = 2, curtime = 0,
     start = 100, started = True, showwins = 0, debugging = True, forever = True\<rparr>"

definition line_of :: "nat \<Rightarrow> nat \<Rightarrow> string \<Rightarrow> string" where
  "line_of s k f = show_nat s @ ''.'' @ ''000003'' @ '':'' @ show_nat k @ '':'' @ f @ '':'' @
     show_nat 7 @ '':'' @ ''0'' @ [CHR 0x0A]"

lemma sample_grapher_ok: "grapher_ok sample_grapher"
  by (simp add: grapher_ok_def sample_grapher_def falloc_def W_USER_def)

lemma sample_lines:
  "parse_line 100 (line_of 105 1 ''X'') = Some \<lparr>tsec = 105, who = 1, flow = 4, incr = 7, encapped = False\<rparr>"
  "parse_line 100 (line_of 104 3 ''X'') = Some \<lparr>tsec = 104, who = 3, flow = 4, incr = 7, encapped = False\<rparr>"
  "parse_line 100 (line_of 104 3 (show_nat 9)) =
     Some \<lparr>tsec = 104, who = 3, flow = 13, incr = 7, encapped = False\<rparr>"
proof -
  have f: "flow_window ''X'' = 4" "flow_window (show_nat 9) = 13"
  proof -
    have "\<not> is_digit (CHR ''X'')" "\<not> is_digit (CHR ''C'')" "\<not> is_digit (CHR ''M'')"
      by (simp_all add: is_digit_def)
    then have "hd (show_nat 9) \<noteq> CHR ''X''" "hd (show_nat 9) \<noteq> CHR ''C''" "hd (show_nat 9) \<noteq> CHR ''M''"
      using hd_show_nat [of 9] by metis+
    then show "flow_window (show_nat 9) = 13"
      using atoi_show_nat [of "[]" 9] by (simp add: flow_window_def win_defs)
  qed (simp add: flow_window_def win_defs)
  note row = parse_line_row [where us = "''000003''" and l = "''0''" and v = 7 and ?t0.0 = 100]
  show "parse_line 100 (line_of 105 1 ''X'') = Some \<lparr>tsec = 105, who = 1, flow = 4, incr = 7, encapped = False\<rparr>"
    unfolding line_of_def by (subst row) (simp_all add: f)
  show "parse_line 100 (line_of 104 3 ''X'') = Some \<lparr>tsec = 104, who = 3, flow = 4, incr = 7, encapped = False\<rparr>"
    unfolding line_of_def by (subst row) (simp_all add: f)
  show "parse_line 100 (line_of 104 3 (show_nat 9)) =
     Some \<lparr>tsec = 104, who = 3, flow = 13, incr = 7, encapped = False\<rparr>"
    unfolding line_of_def by (subst row) (simp_all add: f)
qed

theorem readin_adds_one_sample_witness:
  "\<exists>g'. readin 0 (Some (line_of 105 1 ''X'')) sample_grapher = Some (g', False) \<and>
     sample (wins g') 4 (cell 2 5 0 False) = 7"
proof -
  let ?p = "\<lparr>tsec = 105, who = 1, flow = 4, incr = 7, encapped = False\<rparr> :: point"
  have h: "started sample_grapher" "curtime sample_grapher < word_of_int DEFTLEN"
    "parse_line (start sample_grapher) (line_of 105 1 ''X'') = Some ?p"
    "0 \<le> flow ?p" "flow ?p < int (length (wins sample_grapher))"
    "tsec ?p < start sample_grapher + DEFTLEN" "who ?p \<le> nsys sample_grapher"
    using sample_lines by (simp_all add: sample_grapher_def DEFTLEN_def)
  have "sample (wins sample_grapher) 4 (cell 2 5 0 False) = 0"
    by (simp add: sample_def sample_grapher_def falloc_def cell_def DEFTLEN_def)
  moreover have "nsys sample_grapher = 2" "int (length (wins sample_grapher)) = 5" "start sample_grapher = 100"
    by (simp_all add: sample_grapher_def)
  ultimately show ?thesis
    using readin_adds_one_sample [OF sample_grapher_ok h, of 0] by (fastforce simp: DEFTLEN_def)
qed

theorem readin_ignores_witness:
  "readin 0 (Some (show_nat 99 @ '':'' @ ''1'' @ '':'' @ ''X:7:0'')) sample_grapher =
     Some (sample_grapher, False)"
proof -
  have "atoi (show_nat 99) = 99" using atoi_show_nat [of "[]" 99] by simp
  then show ?thesis
    using readin_ignores [of sample_grapher "show_nat 99" "''1''" 0 _ "''X:7:0''"]
    by (simp add: sample_grapher_def DEFTLEN_def)
qed

theorem readin_misattributes_witness:
  "readin 0 (Some (line_of 104 3 ''X'')) sample_grapher =
   readin 0 (Some (line_of 105 1 ''X'')) sample_grapher"
proof -
  have st: "start (begin_graph 0 sample_grapher) = 100" "nsys sample_grapher = 2"
    by (simp_all add: begin_graph_def sample_grapher_def)
  show ?thesis
    using readin_misattributes [of 0 sample_grapher "line_of 104 3 ''X''"] sample_lines
    unfolding st by (simp add: st)
qed

theorem readin_out_of_bounds_witness:
  "readin 0 (Some (line_of 104 3 (show_nat 9))) sample_grapher = None"
proof -
  have "started sample_grapher" "curtime sample_grapher < word_of_int DEFTLEN" "0 < nsys sample_grapher"
    "parse_line (start sample_grapher) (line_of 104 3 (show_nat 9)) =
      Some \<lparr>tsec = 104, who = 3, flow = 13, incr = 7, encapped = False\<rparr>"
    using sample_lines by (simp_all add: sample_grapher_def DEFTLEN_def)
  then show ?thesis
    using readin_out_of_bounds [OF sample_grapher_ok] by (simp add: sample_grapher_def)
qed

theorem readin_keeps_shape_witness:
  "grapher_ok sample_grapher \<and> nsys sample_grapher = 2"
  using readin_keeps_shape [of 0 None sample_grapher sample_grapher False] sample_grapher_ok
  by (simp add: readin_def begin_graph_def sample_grapher_def DEFTLEN_def)

theorem display_runs_out_witness:
  "\<exists>ds. ticks 1860 (sample_grapher\<lparr>showwins := 4\<rparr>) =
      Some (sample_grapher\<lparr>showwins := 4, curtime := 1860\<rparr>, ds, False) \<and> hd ds = [2]"
proof -
  let ?g = "sample_grapher\<lparr>showwins := 4\<rparr>"
  have h: "length (wins ?g) \<le> 32" "curtime ?g = 0" "started ?g" by (simp_all add: sample_grapher_def)
  have "visible_wins ?g = [2]" by (simp add: sample_grapher_def upt_rec)
  then show ?thesis using display_runs_out [OF h] by (simp add: hd_replicate)
qed

theorem toggle_flips_one_window_witness:
  "\<exists>g'. toggle_event 3 sample_grapher = Some g' \<and> shown g' 3 = Some True"
proof -
  have "shown sample_grapher 3 = Some False"
    by (simp add: shown_def win_bit_def sample_grapher_def)
  then show ?thesis using toggle_flips_one_window [of 3 3 sample_grapher] by auto
qed

end
