(* ===== verification/Protocol.thy ===== *)
theory Protocol
  imports Capture Procstat Collect Svcpoll Grapher
begin

text \<open>
  Where the programs meet: the lines a collector prints are the lines the grapher reads.
  Both collectors provide the same interface, stated as a locale, and what the grapher
  shows after reading their output is proved once, over the interface.
\<close>

section \<open>The interface between collectors and the grapher\<close>

text \<open>
  \<open>emit\<close> is the line printed for a result, \<open>meaning\<close> the point of the graph it stands
  for; a result is \<open>good\<close> when its numbers are within what the grapher can read.
\<close>

fun feed :: "int \<Rightarrow> string list \<Rightarrow> grapher \<Rightarrow> grapher option" where
  "feed now [] g = Some g"
| "feed now (l # ls) g = (case readin now (Some l) g of None \<Rightarrow> None | Some (g', _) \<Rightarrow> feed now ls g')"

definition on_display :: "grapher \<Rightarrow> point \<Rightarrow> bool" where
  "on_display g p \<longleftrightarrow> start g \<le> tsec p \<and> tsec p < start g + DEFTLEN \<and> 0 < who p \<and> who p \<le> nsys g \<and>
     0 \<le> Grapher.flow p \<and> Grapher.flow p < int (length (wins g))"

definition share :: "int \<Rightarrow> int \<Rightarrow> int \<Rightarrow> int \<Rightarrow> bool \<Rightarrow> point \<Rightarrow> u64" where
  "share t0 f i w en p = (if f = Grapher.flow p \<and> i = tsec p - t0 \<and> w = who p - 1 \<and> en = Grapher.encapped p
     then incr p else 0)"

locale line_source =
  fixes emit :: "'r \<Rightarrow> string" and meaning :: "'r \<Rightarrow> point" and good :: "'r \<Rightarrow> bool"
  assumes read_back: "good r \<Longrightarrow> s0 \<le> tsec (meaning r) \<Longrightarrow> parse_line s0 (emit r) = Some (meaning r)"
begin

lemma feed_adds:
  assumes "grapher_ok g" and "started g" and "curtime g < word_of_int DEFTLEN"
    and "\<forall>r \<in> set rs. good r \<and> on_display g (meaning r)"
  shows "\<exists>g'. feed now (map emit rs) g = Some g' \<and>
    (\<forall>f i w en. 0 \<le> f \<longrightarrow> f < int (length (wins g)) \<longrightarrow> 0 \<le> i \<longrightarrow> i < DEFTLEN \<longrightarrow> 0 \<le> w \<longrightarrow> w < nsys g \<longrightarrow>
      sample (wins g') f (cell (nsys g) i w en) =
        sample (wins g) f (cell (nsys g) i w en) + (\<Sum>r\<leftarrow>rs. share (start g) f i w en (meaning r)))"
  using assms
proof (induction rs arbitrary: g)
  case Nil
  then show ?case by simp
next
  case (Cons r rs)
  have d: "good r" "on_display g (meaning r)" using Cons.prems(4) by auto
  then have p: "parse_line (start g) (emit r) = Some (meaning r)"
    by (intro read_back) (auto simp: on_display_def)
  obtain g1 where g1: "readin now (Some (emit r)) g = Some (g1, False)"
    and add: "\<And>f i w en. 0 \<le> f \<Longrightarrow> f < int (length (wins g)) \<Longrightarrow> 0 \<le> i \<Longrightarrow> i < DEFTLEN \<Longrightarrow> 0 \<le> w \<Longrightarrow> w < nsys g \<Longrightarrow>
      sample (wins g1) f (cell (nsys g) i w en) =
        sample (wins g) f (cell (nsys g) i w en) + share (start g) f i w en (meaning r)"
    using readin_point [OF Cons.prems(1-3) p, of now] d(2) unfolding on_display_def share_def by auto
  have keep: "grapher_ok g1 \<and> nsys g1 = nsys g \<and> curtime g1 = curtime g \<and> length (wins g1) = length (wins g)"
    "started g1" "start g1 = start g"
    using readin_ok [OF g1 Cons.prems(1)] readin_start [OF g1 Cons.prems(2)] by auto
  then have "\<forall>r \<in> set rs. good r \<and> on_display g1 (meaning r)"
    using Cons.prems(4) by (simp add: on_display_def)
  then obtain g' where g': "feed now (map emit rs) g1 = Some g'"
    and rest: "\<And>f i w en. 0 \<le> f \<Longrightarrow> f < int (length (wins g)) \<Longrightarrow> 0 \<le> i \<Longrightarrow> i < DEFTLEN \<Longrightarrow> 0 \<le> w \<Longrightarrow> w < nsys g \<Longrightarrow>
      sample (wins g') f (cell (nsys g) i w en) =
        sample (wins g1) f (cell (nsys g) i w en) + (\<Sum>r\<leftarrow>rs. share (start g) f i w en (meaning r))"
    using Cons.IH [of g1] keep Cons.prems(3) by auto
  show ?case using g1 g' by (auto simp: add rest algebra_simps)
qed

end

section \<open>The two collectors\<close>

lemma flow_window_number:
  assumes "n < 2 ^ 31"
  shows "flow_window (show_nat n) = int n + W_USER - 1"
proof -
  have "\<not> is_digit (CHR ''X'')" "\<not> is_digit (CHR ''C'')" "\<not> is_digit (CHR ''M'')"
    by (simp_all add: is_digit_def)
  then have "hd (show_nat n) \<noteq> CHR ''X''" "hd (show_nat n) \<noteq> CHR ''C''" "hd (show_nat n) \<noteq> CHR ''M''"
    using hd_show_nat [of n] by metis+
  then show ?thesis using atoi_show_nat [of "[]" n] assms by (simp add: flow_window_def)
qed

lemma flow_window_letter [simp]:
  "flow_window ''X'' = W_OTHER" "flow_window ''C'' = W_CPU" "flow_window ''M'' = W_MEM"
  by (simp_all add: flow_window_def)

lemma show_06d_colon [simp]: "CHR '':'' \<notin> set (show_06d i)"
  using show_06d_chars [of "CHR '':''" i] by (auto simp: is_digit_def)

definition lvl_text :: "bool \<Rightarrow> string" where
  "lvl_text b = (if b then ''1'' else ''0'')"

lemma lvl_text [simp]: "lvl_text b \<noteq> []" "CHR 0x0A \<notin> set (lvl_text b)" "hd (lvl_text b) \<noteq> CHR ''0'' \<longleftrightarrow> b"
  "hd (lvl_text b) = CHR ''0'' \<longleftrightarrow> \<not> b"
  by (simp_all add: lvl_text_def)

record agent_line =
  al_end :: endian
  al_wire :: wire
  al_who :: nat
  al_tag :: string
  al_val :: nat
  al_lvl :: bool

definition agent_emit :: "agent_line \<Rightarrow> string" where
  "agent_emit r = row (stamp (al_end r) (al_wire r)) (show_nat (al_who r)) (al_tag r) (al_val r)
     (lvl_text (al_lvl r))"

definition agent_meaning :: "agent_line \<Rightarrow> point" where
  "agent_meaning r = \<lparr>tsec = uint (ntohl (al_end r) (sec (al_wire r))), who = int (al_who r),
     flow = flow_window (al_tag r), incr = of_nat (al_val r), encapped = al_lvl r\<rparr>"

definition tag_ok :: "string \<Rightarrow> bool" where
  "tag_ok s \<longleftrightarrow> s \<noteq> [] \<and> CHR '':'' \<notin> set s"

definition agent_good :: "agent_line \<Rightarrow> bool" where
  "agent_good r \<longleftrightarrow> uint (ntohl (al_end r) (sec (al_wire r))) < 2 ^ 31 \<and> 0 < al_who r \<and>
     al_who r < 2 ^ 31 \<and> tag_ok (al_tag r) \<and> al_val r < 2 ^ 64"

interpretation agents: line_source agent_emit agent_meaning agent_good
proof
  fix r s0 assume "agent_good r" "s0 \<le> tsec (agent_meaning r)"
  then show "parse_line s0 (agent_emit r) = Some (agent_meaning r)"
    unfolding agent_emit_def row_def stamp_def
    by (subst append_assoc, subst append_assoc, subst parse_line_row)
      (simp_all add: agent_good_def agent_meaning_def tag_ok_def)
qed

record svc_line =
  sl_tv :: "int \<times> int"
  sl_host :: nat
  sl_tag :: string
  sl_val :: u64
  sl_lvl :: bool

definition svc_emit :: "svc_line \<Rightarrow> string" where
  "svc_emit r = svc_row (sl_tv r) (sl_host r) (sl_tag r) (sl_val r) (lvl_text (sl_lvl r))"

definition svc_meaning :: "svc_line \<Rightarrow> point" where
  "svc_meaning r = \<lparr>tsec = fst (sl_tv r), who = int (sl_host r) + 1, flow = flow_window (sl_tag r),
     incr = sl_val r, encapped = sl_lvl r\<rparr>"

definition svc_good :: "svc_line \<Rightarrow> bool" where
  "svc_good r \<longleftrightarrow> 0 \<le> fst (sl_tv r) \<and> fst (sl_tv r) < 2 ^ 31 \<and> sl_host r + 1 < 2 ^ 31 \<and> tag_ok (sl_tag r)"

interpretation requests: line_source svc_emit svc_meaning svc_good
proof
  fix r s0 assume r: "svc_good r" "s0 \<le> tsec (svc_meaning r)"
  have s: "show_int (fst (sl_tv r)) = show_nat (nat (fst (sl_tv r)))"
    using r(1) by (simp add: svc_good_def show_int_def)
  have "unat (sl_val r) < 2 ^ LENGTH(64)" by (rule unsigned_less)
  then have v: "unat (sl_val r) < 2 ^ 64" by simp
  show "parse_line s0 (svc_emit r) = Some (svc_meaning r)"
    using r v unfolding svc_emit_def svc_row_def svc_stamp_def s
    by (subst append_assoc, subst append_assoc, subst parse_line_row)
      (simp_all add: svc_good_def svc_meaning_def tag_ok_def nat_less_iff)
qed

end
