(* ===== verification/Filterspec.thy ===== *)
theory Filterspec
  imports Capture
begin

text \<open>
  Start-up of \<open>pcapper.c\<close>: the command line, the retry loops that wait for the
  interface, the BPF filter text (\<open>pcprintf\<close> for a filter given by the user), and the
  order in which \<open>main\<close> acquires and releases its resources.
\<close>

section \<open>pcprintf\<close>

text \<open>
  A buffer is the list of its characters, NUL included; what was never written is
  whatever it was before the call. \<open>snprintf\<close> into the \<open>n\<close> characters from offset \<open>i\<close>
  writes the text, cut to \<open>n - 1\<close>, and a NUL; it returns the length of the whole text.
\<close>

definition write_at :: "nat \<Rightarrow> string \<Rightarrow> string \<Rightarrow> string" where
  "write_at i s buf = take i buf @ s @ drop (i + length s) buf"

definition snprintf_at :: "nat \<Rightarrow> nat \<Rightarrow> string \<Rightarrow> string \<Rightarrow> string" where
  "snprintf_at i n s buf = (if n = 0 then buf else write_at i (take (n - 1) s @ [CHR 0x00]) buf)"

text \<open>
  The loop of \<open>pcprintf\<close>: \<open>i\<close> is \<open>dst - dest\<close>. The code passes \<open>ip\<close> and \<open>mac\<close> as the format of
  \<open>snprintf\<close>; they are copied as they are, which is right for the addresses \<open>main\<close> passes, as
  these have no \<open>%\<close>. Literal characters are copied without
  being counted in the return value, and nothing terminates the text at the end.
\<close>

fun pcprintf_loop :: "nat \<Rightarrow> string \<Rightarrow> string \<Rightarrow> string \<Rightarrow> nat \<Rightarrow> int \<Rightarrow> string \<Rightarrow> int \<times> string" where
  "pcprintf_loop n ip mac [] i rv buf = (rv, buf)"
| "pcprintf_loop n ip mac (c # src) i rv buf =
    (if \<not> i < n then (rv, buf)
     else if c = CHR ''%'' then
       (case src of [] \<Rightarrow> (rv, buf)
        | d # src' \<Rightarrow>
            let count = (if d = CHR ''i'' then length ip else if d = CHR ''m'' then length mac else 1);
                buf' = (if d = CHR ''i'' then snprintf_at i (n - i) ip buf
                        else if d = CHR ''m'' then snprintf_at i (n - i) mac buf
                        else write_at i [d] buf);
                rv' = rv + int count
            in if count \<ge> n - i then (rv', buf')
               else pcprintf_loop n ip mac src' (i + count) rv' buf')
     else pcprintf_loop n ip mac src (i + 1) rv (write_at i [c] buf))"

definition pcprintf :: "string \<Rightarrow> nat \<Rightarrow> string \<Rightarrow> string \<Rightarrow> string \<Rightarrow> int \<times> string" where
  "pcprintf dest n format ip mac = pcprintf_loop n ip mac format 0 0 dest"

section \<open>The filter text\<close>

datatype mode = MODE_NONE | MODE_SRC | MODE_DST | MODE_SPOOF | MODE_BPF string

definition FILTERLEN :: nat where "FILTERLEN = 8192"
definition IFNAMSIZ :: nat where "IFNAMSIZ = 16"

definition fill_filter :: "mode \<Rightarrow> string \<Rightarrow> string \<Rightarrow> string \<Rightarrow> string" where
  "fill_filter m ip mac buf = (case m of
       MODE_NONE \<Rightarrow> buf
     | MODE_SRC \<Rightarrow> snprintf_at 0 (FILTERLEN - 1) (''ether src '' @ mac) buf
     | MODE_DST \<Rightarrow> snprintf_at 0 (FILTERLEN - 1) (''ether src not '' @ mac) buf
     | MODE_SPOOF \<Rightarrow> snprintf_at 0 (FILTERLEN - 1)
         (''src '' @ ip @ '' and ether src not '' @ mac) buf
     | MODE_BPF f \<Rightarrow> snd (pcprintf buf (FILTERLEN - 1) f ip mac))"

text \<open>The text \<open>pcap_compile\<close> sees, after \<open>filterstr[IFNAMSIZ - 1] = 0\<close>.\<close>

definition filter_text :: "mode \<Rightarrow> string \<Rightarrow> string \<Rightarrow> string \<Rightarrow> string" where
  "filter_text m ip mac buf =
     cut_at (CHR 0x00) ((fill_filter m ip mac buf)[IFNAMSIZ - 1 := CHR 0x00])"

section \<open>The command line\<close>

text \<open>
  \<open>rtrdev\<close> is a pointer to \<open>listendev\<close> until \<open>-r\<close> is given, which is None here.
\<close>

record options =
  port :: u16
  logfn :: string
  listendev :: string
  rtrdev :: "string option"
  mode :: mode

definition default_options :: options where
  "default_options = \<lparr>port = 7073, logfn = ''pcapper.log'', listendev = ''eth0'', rtrdev = None,
     mode = MODE_SRC\<rparr>"

definition mode_of :: "string \<Rightarrow> mode" where
  "mode_of s = (if s = ''none'' then MODE_NONE else if s = ''src'' then MODE_SRC
     else if s = ''dst'' then MODE_DST else if s = ''spoof'' then MODE_SPOOF else MODE_BPF s)"

text \<open>The options loop: Inl is the exit status. A missing argument of \<open>-r\<close> is only reported.\<close>

fun pcapper_args :: "string list \<Rightarrow> options \<Rightarrow> int + options" where
  "pcapper_args [] opts = Inr opts"
| "pcapper_args (a # as) opts =
    (if a = ''-p'' then
       (case as of [] \<Rightarrow> Inl 14
        | v # as' \<Rightarrow> let p = word_of_int (atoi v) in
            if p = 0 then Inl 15 else pcapper_args as' (opts\<lparr>port := p\<rparr>))
     else if a = ''-f'' then
       (case as of [] \<Rightarrow> Inl 18 | v # as' \<Rightarrow> pcapper_args as' (opts\<lparr>logfn := v\<rparr>))
     else if a = ''-i'' then
       (case as of [] \<Rightarrow> Inl 13
        | v # as' \<Rightarrow> pcapper_args as' (opts\<lparr>listendev := take (IFNAMSIZ - 1) v\<rparr>))
     else if a = ''-m'' then
       (case as of [] \<Rightarrow> Inl 20 | v # as' \<Rightarrow> pcapper_args as' (opts\<lparr>mode := mode_of v\<rparr>))
     else if a = ''-r'' then
       (case as of [] \<Rightarrow> pcapper_args [] opts
        | v # as' \<Rightarrow> pcapper_args as' (opts\<lparr>rtrdev := Some v\<rparr>))
     else Inl 12)"

definition router_device :: "options \<Rightarrow> string" where
  "router_device opts = (case rtrdev opts of None \<Rightarrow> listendev opts | Some d \<Rightarrow> d)"

section \<open>Waiting for the interface\<close>

text \<open>
  \<open>while ((i = getip(...)))\<close>: retried once a second until it returns 0; the 61st failure
  ends the program. \<open>res k\<close> is the result of the call number \<open>k\<close>.
\<close>

function wait_addr :: "(nat \<Rightarrow> int) \<Rightarrow> int \<Rightarrow> nat \<Rightarrow> nat \<Rightarrow> int + nat" where
  "wait_addr res code k counter = (if res k = 0 then Inr k
     else if counter + 1 > 60 then Inl code else wait_addr res code (k + 1) (counter + 1))"
  by pat_completeness auto
termination
  by (relation "measure (\<lambda>(res, code, k, counter). 61 - counter)") auto

declare wait_addr.simps [simp del]

section \<open>Resources\<close>

text \<open>
  What the calls of \<open>main\<close> after the filter is built return, and what \<open>main\<close> does with the
  resources, in order, until it returns. \<open>pthread_create\<close> returns an error number, which is
  positive, and the code tests for a negative one: after a failure the thread is detached and
  cancelled all the same, although its variable was never set (\<open>Misuse\<close>).
\<close>

datatype resource = Pcap | Listener | Acceptor | Watcher
datatype event = Acquire resource | Release resource | Misuse resource

record calls =
  c_open :: bool
  c_compile :: bool
  c_setfilter :: bool
  c_socket :: bool
  c_bind :: bool
  c_listen :: bool
  c_thread1 :: int
  c_thread2 :: int

definition start_thread :: "resource \<Rightarrow> int \<Rightarrow> event list" where
  "start_thread r res = (if res = 0 then [Acquire r] else [Misuse r])"

definition cancel_thread :: "resource \<Rightarrow> int \<Rightarrow> event list" where
  "cancel_thread r res = (if res = 0 then [Release r] else [Misuse r])"

definition main_run :: "mode \<Rightarrow> calls \<Rightarrow> int \<times> event list" where
  "main_run m c =
    (if \<not> c_open c then (4, [])
     else if m \<noteq> MODE_NONE \<and> \<not> c_compile c then (6, [Acquire Pcap, Release Pcap])
     else if m \<noteq> MODE_NONE \<and> \<not> c_setfilter c then (7, [Acquire Pcap, Release Pcap])
     else if \<not> c_socket c then (1, [Acquire Pcap, Release Pcap])
     else if \<not> c_bind c then (2, [Acquire Pcap, Acquire Listener, Release Listener, Release Pcap])
     else if \<not> c_listen c then (3, [Acquire Pcap, Acquire Listener, Release Listener, Release Pcap])
     else if c_thread1 c < 0
       then (8, [Acquire Pcap, Acquire Listener, Release Listener, Release Pcap])
     else (0, [Acquire Pcap, Acquire Listener] @ start_thread Acceptor (c_thread1 c) @
       (if c_thread2 c < 0 then []
        else start_thread Watcher (c_thread2 c) @ cancel_thread Watcher (c_thread2 c)) @
       cancel_thread Acceptor (c_thread1 c) @ [Release Pcap, Release Listener]))"

section \<open>Lemmas\<close>

fun expand :: "string \<Rightarrow> string \<Rightarrow> string \<Rightarrow> string" where
  "expand ip mac [] = []"
| "expand ip mac [c] = (if c = CHR ''%'' then [] else [c])"
| "expand ip mac (c # d # s) =
    (if c = CHR ''%'' then
       (if d = CHR ''i'' then ip else if d = CHR ''m'' then mac else [d]) @ expand ip mac s
     else c # expand ip mac (d # s))"

lemma expand_literal: "c \<noteq> CHR ''%'' \<Longrightarrow> expand ip mac (c # s) = c # expand ip mac s"
  by (cases s) auto

lemma length_write_at: "i + length s \<le> length buf \<Longrightarrow> length (write_at i s buf) = length buf"
  by (simp add: write_at_def)

lemma take_write_at: "i + length s \<le> length buf \<Longrightarrow>
    take (i + length s) (write_at i s buf) = take i buf @ s"
  by (simp add: write_at_def)

lemma snprintf_at_fits: "i + length s < n \<Longrightarrow> n \<le> length buf \<Longrightarrow>
    length (snprintf_at i (n - i) s buf) = length buf \<and>
    take (i + length s) (snprintf_at i (n - i) s buf) = take i buf @ s"
  by (auto simp: snprintf_at_def write_at_def)

text \<open>What one directive stands for, and that writing it puts it at the current offset.\<close>

definition directive :: "string \<Rightarrow> string \<Rightarrow> char \<Rightarrow> string" where
  "directive ip mac d = (if d = CHR ''i'' then ip else if d = CHR ''m'' then mac else [d])"

definition put_directive :: "nat \<Rightarrow> string \<Rightarrow> string \<Rightarrow> char \<Rightarrow> nat \<Rightarrow> string \<Rightarrow> string" where
  "put_directive n ip mac d i buf = (if d = CHR ''i'' then snprintf_at i (n - i) ip buf
     else if d = CHR ''m'' then snprintf_at i (n - i) mac buf else write_at i [d] buf)"

lemma put_directive_fits:
  assumes "i + length (directive ip mac d) < n" and "n \<le> length buf"
  shows "length (put_directive n ip mac d i buf) = length buf \<and>
    take (i + length (directive ip mac d)) (put_directive n ip mac d i buf) =
      take i buf @ directive ip mac d"
  using assms snprintf_at_fits [of i ip n buf] snprintf_at_fits [of i mac n buf]
    length_write_at [of i "[d]" buf] take_write_at [of i "[d]" buf]
  by (auto simp: put_directive_def directive_def)

lemma pcprintf_loop_directive:
  assumes "i + length (directive ip mac d) < n"
  shows "pcprintf_loop n ip mac (CHR ''%'' # d # src) i rv buf =
    pcprintf_loop n ip mac src (i + length (directive ip mac d))
      (rv + int (length (directive ip mac d))) (put_directive n ip mac d i buf)"
  using assms by (auto simp: directive_def put_directive_def Let_def split: if_splits)

lemma pcprintf_loop_literal:
  "c \<noteq> CHR ''%'' \<Longrightarrow> i < n \<Longrightarrow> pcprintf_loop n ip mac (c # src) i rv buf =
    pcprintf_loop n ip mac src (i + 1) rv (write_at i [c] buf)"
  by simp

lemma expand_directive:
  "expand ip mac (CHR ''%'' # d # s) = directive ip mac d @ expand ip mac s"
  by (simp add: directive_def)

lemma pcprintf_loop_expand:
  assumes "i + length (expand ip mac src) < n" and "n \<le> length buf"
  shows "take (i + length (expand ip mac src)) (snd (pcprintf_loop n ip mac src i rv buf)) =
    take i buf @ expand ip mac src"
  using assms
proof (induction ip mac src arbitrary: i rv buf rule: expand.induct)
  case (1 ip mac)
  then show ?case by simp
next
  case (2 ip mac c)
  then show ?case using take_write_at [of i "[c]" buf] by auto
next
  case (3 ip mac c d s)
  show ?case
  proof (cases "c = CHR ''%''")
    case True
    let ?t = "directive ip mac d"
    have fits: "i + length ?t < n" and rest: "(i + length ?t) + length (expand ip mac s) < n"
      using 3(3) True by (simp_all add: expand_directive del: expand.simps)
    note put = put_directive_fits [OF fits 3(4)]
    show ?thesis
      using 3(1) [OF True rest, of "put_directive n ip mac d i buf"] put 3(4)
      unfolding True pcprintf_loop_directive [OF fits] expand_directive
      by (simp add: add.assoc)
  next
    case False
    then have i: "i < n" "i + length [c] \<le> length buf"
      and rest: "(i + 1) + length (expand ip mac (d # s)) < n"
      using 3(3,4) by (simp_all add: expand_literal del: expand.simps)
    have "n \<le> length (write_at i [c] buf)" using 3(4) i length_write_at [OF i(2)] by simp
    from 3(2) [OF False rest this] show ?thesis
      unfolding pcprintf_loop_literal [OF False i(1)] expand_literal [OF False]
      using take_write_at [OF i(2)] by simp
  qed
qed

section \<open>Properties\<close>

text \<open>C34: a user's filter is expanded as documented: every \<open>%i\<close> becomes the address and
  every \<open>%m\<close> the MAC, any other character behind a percent sign stands for itself, and
  the rest is copied. The result is at the front of the buffer whenever it fits.\<close>

theorem pcprintf_expands:
  assumes "length (expand ip mac fmt) < n" and "n \<le> length dest"
  shows "take (length (expand ip mac fmt)) (snd (pcprintf dest n fmt ip mac)) = expand ip mac fmt"
  using pcprintf_loop_expand [of 0 ip mac fmt n dest 0] assms by (simp add: pcprintf_def)

theorem pcprintf_expands_witness:
  "expand ''1.2'' ''m'' ''dst %i or %%'' = ''dst 1.2 or %'' \<and>
   take (length (expand ''1.2'' ''m'' ''dst %i or %%''))
     (snd (pcprintf (replicate 20 CHR ''?'') 20 ''dst %i or %%'' ''1.2'' ''m'')) =
     expand ''1.2'' ''m'' ''dst %i or %%''"
  by (intro conjI pcprintf_expands) simp_all

text \<open>Whatever the mode, the addresses and the previous contents of the buffer, the filter
  handed to \<open>pcap_compile\<close> has at most 15 characters: the terminator is stored at
  \<open>IFNAMSIZ - 1\<close> and not at the end of the buffer. The default filter therefore keeps
  only the first five characters of the interface's MAC address.\<close>

theorem filter_text_truncated:
  assumes "length buf = FILTERLEN"
  shows "length (filter_text m ip mac buf) \<le> 15 \<and>
    (CHR 0x00 \<notin> set mac \<and> length mac = 17 \<longrightarrow>
       filter_text MODE_SRC ip mac buf = ''ether src '' @ take 5 mac)"
proof (intro conjI impI)
  show "length (filter_text m ip mac buf) \<le> 15"
    using cut_at_upd_length [of _ _ 15] by (simp add: filter_text_def IFNAMSIZ_def)
next
  assume mac: "CHR 0x00 \<notin> set mac \<and> length mac = 17"
  let ?b = "fill_filter MODE_SRC ip mac buf"
  have b: "?b = (''ether src '' @ mac) @ CHR 0x00 # drop 28 buf"
    using assms mac by (simp add: fill_filter_def snprintf_at_def write_at_def FILTERLEN_def)
  have "cut_at (CHR 0x00) (?b[15 := CHR 0x00]) = cut_at (CHR 0x00) (take 15 ?b)"
    using assms mac unfolding b by (intro cut_at_upd) (simp add: FILTERLEN_def)
  also have "take 15 ?b = ''ether src '' @ take 5 mac" using mac unfolding b by simp
  also have "cut_at (CHR 0x00) \<dots> = \<dots>" using mac by (intro cut_at_id) (auto dest: in_set_takeD)
  finally show "filter_text MODE_SRC ip mac buf = ''ether src '' @ take 5 mac"
    by (simp add: filter_text_def IFNAMSIZ_def)
qed

theorem filter_text_truncated_witness:
  "filter_text MODE_SRC ''10.0.0.1'' ''02:00:00:aa:bb:cc'' (replicate FILTERLEN CHR 0x01) =
     ''ether src 02:00''"
proof -
  have "length (replicate FILTERLEN CHR 0x01) = FILTERLEN" by simp
  from filter_text_truncated [OF this, of MODE_SRC "''10.0.0.1''" "''02:00:00:aa:bb:cc''"]
  show ?thesis by simp
qed

lemma wait_addr_spec: "counter \<le> 60 \<Longrightarrow> wait_addr res code k counter =
    (case find (\<lambda>j. res j = 0) [k..<k + 61 - counter] of Some j \<Rightarrow> Inr j | None \<Rightarrow> Inl code)"
proof (induction res code k counter rule: wait_addr.induct)
  case (1 res code k counter)
  have up: "[k..<k + 61 - counter] = k # [k + 1..<k + 61 - counter]"
    using 1(2) by (subst upt_conv_Cons) auto
  show ?case
    using 1 unfolding up by (subst wait_addr.simps) (auto simp: add.commute)
qed

text \<open>Waiting for the interface ends: with the number of the first of the first 61 calls
  that succeeds, or with the error status when all 61 fail.\<close>

theorem wait_addr_result:
  "wait_addr res code 0 0 = (case find (\<lambda>j. res j = 0) [0..<61] of Some j \<Rightarrow> Inr j | None \<Rightarrow> Inl code)"
  by (simp add: wait_addr_spec)

lemma pcapper_args_invariant:
  assumes "pcapper_args as opts = Inr opts'" and "port opts \<noteq> 0" and "length (listendev opts) \<le> 15"
  shows "port opts' \<noteq> 0 \<and> length (listendev opts') \<le> 15"
  using assms
  by (induction as opts rule: pcapper_args.induct)
    (auto simp: Let_def IFNAMSIZ_def split: if_splits list.splits)

text \<open>The options the program goes on with have a port that is not zero and an interface
  name that fits its buffer, whatever the command line.\<close>

theorem pcapper_args_ok:
  assumes "pcapper_args as default_options = Inr opts"
  shows "port opts \<noteq> 0 \<and> length (listendev opts) < IFNAMSIZ"
  using pcapper_args_invariant [OF assms] by (simp add: default_options_def IFNAMSIZ_def)

theorem pcapper_args_ok_witness:
  "\<exists>opts. pcapper_args [''-p'', ''7074'', ''-i'', ''a-very-long-interface''] default_options = Inr opts \<and>
     length (listendev opts) < 16"
proof -
  obtain opts where o: "pcapper_args [''-p'', ''7074'', ''-i'', ''a-very-long-interface''] default_options = Inr opts"
    by (simp add: atoi_def strtol10_def sign_split_def is_space_def is_digit_def dec_value_def
        digit_val_def Let_def)
  then show ?thesis using pcapper_args_ok [OF o] by (auto simp: IFNAMSIZ_def)
qed

text \<open>On every path through \<open>main\<close> each resource is released exactly as often as it was acquired;
  but a failure to create a thread is not noticed, and the thread that does not exist is then
  cancelled.\<close>

theorem main_run_balanced:
  "count_list (snd (main_run m c)) (Acquire r) = count_list (snd (main_run m c)) (Release r) \<and>
    (fst (main_run m c) = 0 \<longrightarrow> (0 < c_thread1 c \<longleftrightarrow> Misuse Acceptor \<in> set (snd (main_run m c))))"
proof -
  have "count_list (snd (main_run m c)) (Acquire r) = count_list (snd (main_run m c)) (Release r)"
    by (cases r) (simp_all add: main_run_def start_thread_def cancel_thread_def)
  moreover have "0 < c_thread1 c \<longleftrightarrow> Misuse Acceptor \<in> set (snd (main_run m c))" if "fst (main_run m c) = 0"
    using that by (auto simp: main_run_def start_thread_def cancel_thread_def split: if_splits)
  ultimately show ?thesis by blast
qed

end
