(* ===== verification/Connect.thy ===== *)
theory Connect
  imports Collect
begin

text \<open>
  Connections in \<open>recollect.c\<close>: the main loop serves the agents \<open>select\<close> reports and
  replaces the socket of an agent that failed (\<open>clobber\<close>); the thread \<open>conner\<close> marks an
  agent as connected. This theory has the sequential routines and the invariant they
  keep; \<open>Threads\<close> interleaves them.
\<close>

section \<open>clobber and one pass of the main loop\<close>

abbreviation sock_of :: "collector \<Rightarrow> nat \<Rightarrow> int" where
  "sock_of c i \<equiv> sock (sys c ! i)"

definition set_sock :: "nat \<Rightarrow> int \<Rightarrow> collector \<Rightarrow> collector" where
  "set_sock i fd c = c\<lparr>sys := (sys c)[i := (sys c ! i)\<lparr>sock := fd\<rparr>]\<rparr>"

text \<open>The first half, up to the new socket, and the second half with its result \<open>fd\<close>.\<close>

definition clobber_close :: "nat \<Rightarrow> collector \<Rightarrow> collector option" where
  "clobber_close i c = map_option (\<lambda>s. c\<lparr>bigfs := s\<rparr>) (FD_CLR (sock_of c i) (bigfs c))"

definition clobber_open :: "int \<Rightarrow> nat \<Rightarrow> collector \<Rightarrow> (int \<times> collector) option" where
  "clobber_open fd i c = (let c1 = set_sock i fd c in
     if fd < 0 then Some (1, c1)
     else map_option (\<lambda>s. (0, c1\<lparr>lastsock := max fd (lastsock c1), needconn := s\<rparr>))
       (FD_SET (int i) (needconn c1)))"

definition clobber :: "int \<Rightarrow> nat \<Rightarrow> collector \<Rightarrow> (int \<times> collector) option" where
  "clobber fd i c = (case clobber_close i c of None \<Rightarrow> None | Some c1 \<Rightarrow> clobber_open fd i c1)"

text \<open>
  What the turn for one system depends on: the result of \<open>recv\<close> with the record it left,
  and the result of \<open>socket\<close>.
\<close>

record serve_env =
  recvd :: "nat \<Rightarrow> int \<times> wire"
  newsock :: "nat \<Rightarrow> int"

record served =
  col :: collector
  prev_sec :: u32
  out :: "string list"
  shouldsig :: nat

definition replace_sock :: "serve_env \<Rightarrow> nat \<Rightarrow> served \<Rightarrow> served option" where
  "replace_sock env i st = map_option (\<lambda>(rv, c). st\<lparr>col := c,
       shouldsig := (if rv = 0 then shouldsig st + 1 else shouldsig st)\<rparr>)
     (clobber (newsock env i) i (col st))"

definition serve_one ::
  "endian \<Rightarrow> serve_env \<Rightarrow> fd_set \<Rightarrow> fd_set \<Rightarrow> nat \<Rightarrow> served \<Rightarrow> served option" where
  "serve_one e env rfs xfs i st = (case FD_ISSET (sock_of (col st) i) xfs of None \<Rightarrow> None
     | Some True \<Rightarrow> replace_sock env i st
     | Some False \<Rightarrow> (case FD_ISSET (sock_of (col st) i) rfs of None \<Rightarrow> None
         | Some False \<Rightarrow> Some st
         | Some True \<Rightarrow>
             (case consume e (flows (col st)) (name (sys (col st) ! i)) (fst (recvd env i))
                (snd (recvd env i)) (prev_sec st) of None \<Rightarrow> None
              | Some (rv, rows, prev) \<Rightarrow>
                  (let st1 = st\<lparr>out := out st @ rows, prev_sec := prev\<rparr> in
                   if rv \<noteq> 0 then replace_sock env i st1 else Some st1))))"

fun serve_from :: "endian \<Rightarrow> serve_env \<Rightarrow> fd_set \<Rightarrow> fd_set \<Rightarrow> nat list \<Rightarrow> served \<Rightarrow> served option" where
  "serve_from e env rfs xfs [] st = Some st"
| "serve_from e env rfs xfs (i # is) st = (case serve_one e env rfs xfs i st of None \<Rightarrow> None
     | Some st' \<Rightarrow> serve_from e env rfs xfs is st')"

text \<open>
  The body of the loop: \<open>sel\<close> is the result of \<open>select\<close>. The flag is whether the
  connecting thread is signalled.
\<close>

definition main_pass ::
  "endian \<Rightarrow> serve_env \<Rightarrow> int \<Rightarrow> fd_set \<Rightarrow> fd_set \<Rightarrow> served \<Rightarrow> (served \<times> bool) option" where
  "main_pass e env sel rfs xfs st =
    (if sel > 0 then
       map_option (\<lambda>st'. (st'\<lparr>shouldsig := 0\<rparr>, shouldsig st' > 0))
         (serve_from e env rfs xfs [0..<length (sys (col st))] st)
     else Some (st, False))"

text \<open>What \<open>conner\<close> does, with the lock held, once \<open>connect\<close> succeeded.\<close>

definition mark_connected :: "nat \<Rightarrow> collector \<Rightarrow> collector" where
  "mark_connected i c = c\<lparr>bigfs := fd_add (nat (sock_of c i)) (bigfs c),
     needconn := fd_remove i (needconn c)\<rparr>"

section \<open>The invariant\<close>

text \<open>
  \<open>r\<close> is the system whose socket is being replaced. Every descriptor is valid or -1 and
  used by one system; a pending system is not connected; every connected descriptor
  belongs to a system; and every system with a descriptor is pending or connected,
  except the one being replaced.
\<close>

definition coll_inv :: "nat option \<Rightarrow> collector \<Rightarrow> bool" where
  "coll_inv r c \<longleftrightarrow> length (sys c) \<le> FD_SETSIZE \<and>
     (\<forall>i < length (sys c). sock_of c i = - 1 \<or> fd_ok (sock_of c i)) \<and>
     (\<forall>i < length (sys c). \<forall>j < length (sys c). i \<noteq> j \<longrightarrow> fd_ok (sock_of c i) \<longrightarrow>
        sock_of c i \<noteq> sock_of c j) \<and>
     (\<forall>i. fd_has (needconn c) i \<longrightarrow> i < length (sys c) \<and> fd_ok (sock_of c i) \<and>
        \<not> fd_has (bigfs c) (nat (sock_of c i)) \<and> r \<noteq> Some i) \<and>
     (\<forall>k. fd_has (bigfs c) k \<longrightarrow> (\<exists>i < length (sys c). sock_of c i = int k \<and> r \<noteq> Some i)) \<and>
     (\<forall>i < length (sys c). fd_ok (sock_of c i) \<longrightarrow> r \<noteq> Some i \<longrightarrow>
        fd_has (needconn c) i \<or> fd_has (bigfs c) (nat (sock_of c i))) \<and>
     (\<forall>i. r = Some i \<longrightarrow> i < length (sys c) \<and> fd_ok (sock_of c i))"

lemma coll_invD:
  assumes "coll_inv r c"
  shows "length (sys c) \<le> FD_SETSIZE"
    and "i < length (sys c) \<Longrightarrow> sock_of c i = - 1 \<or> fd_ok (sock_of c i)"
    and "i < length (sys c) \<Longrightarrow> j < length (sys c) \<Longrightarrow> i \<noteq> j \<Longrightarrow> fd_ok (sock_of c i) \<Longrightarrow>
      sock_of c i \<noteq> sock_of c j"
    and "fd_has (needconn c) i \<Longrightarrow> i < length (sys c) \<and> fd_ok (sock_of c i) \<and>
      \<not> fd_has (bigfs c) (nat (sock_of c i)) \<and> r \<noteq> Some i"
    and "fd_has (bigfs c) k \<Longrightarrow> \<exists>i < length (sys c). sock_of c i = int k \<and> r \<noteq> Some i"
    and "i < length (sys c) \<Longrightarrow> fd_ok (sock_of c i) \<Longrightarrow> r \<noteq> Some i \<Longrightarrow>
      fd_has (needconn c) i \<or> fd_has (bigfs c) (nat (sock_of c i))"
    and "r = Some i \<Longrightarrow> i < length (sys c) \<and> fd_ok (sock_of c i)"
  using assms unfolding coll_inv_def by simp_all

lemma nat_fd_eq: "fd_ok a \<Longrightarrow> fd_ok b \<Longrightarrow> nat a = nat b \<longleftrightarrow> a = b"
  by (auto simp: fd_ok_def)

lemma fd_has_mark [simp]:
  "fd_ok (sock_of c i) \<Longrightarrow> fd_has (bigfs (mark_connected i c)) k \<longleftrightarrow>
     k = nat (sock_of c i) \<or> fd_has (bigfs c) k"
  "fd_has (needconn (mark_connected i c)) k \<longleftrightarrow> k \<noteq> i \<and> fd_has (needconn c) k"
  "sys (mark_connected i c) = sys c"
  using fd_ok_nat [of "sock_of c i"]
  by (auto simp: mark_connected_def fd_has_add fd_has_remove)

lemma mark_connected_inv:
  assumes c: "coll_inv r c" and i: "fd_has (needconn c) i"
  shows "coll_inv r (mark_connected i c)"
proof -
  note D = coll_invD [OF c]
  have si: "i < length (sys c)" "fd_ok (sock_of c i)" "r \<noteq> Some i" using D(4) [OF i] by auto
  have other: "nat (sock_of c j) \<noteq> nat (sock_of c i)"
    if "fd_has (needconn c) j" "j \<noteq> i" for j
    using D(3) [of j i] D(4) [OF that(1)] si that(2) by (auto simp: nat_fd_eq)
  have big: "\<exists>j < length (sys c). sock_of c j = int k \<and> r \<noteq> Some j"
    if "k = nat (sock_of c i) \<or> fd_has (bigfs c) k" for k
    using that
  proof
    assume "k = nat (sock_of c i)"
    then show ?thesis using si by (auto simp: fd_ok_def)
  qed (rule D(5))
  show ?thesis
    unfolding coll_inv_def
  proof (intro conjI allI impI)
    fix j assume "j < length (sys (mark_connected i c))" "fd_ok (sock_of (mark_connected i c) j)"
      "r \<noteq> Some j"
    then show "fd_has (needconn (mark_connected i c)) j \<or>
        fd_has (bigfs (mark_connected i c)) (nat (sock_of (mark_connected i c) j))"
      using D(6) [of j] si by auto
  qed (use D(1,2,3,4,7) other big si in auto)
qed

lemma clobber_close_inv:
  assumes c: "coll_inv None c" and i: "i < length (sys c)" "fd_has (bigfs c) (nat (sock_of c i))"
    and c': "clobber_close i c = Some c'"
  shows "coll_inv (Some i) c' \<and> needconn c' = needconn c \<and> sys c' = sys c \<and>
    (\<forall>k. fd_has (bigfs c') k \<longleftrightarrow> k \<noteq> nat (sock_of c i) \<and> fd_has (bigfs c) k)"
proof -
  note D = coll_invD [OF c]
  from c' have ok: "fd_ok (sock_of c i)" and eq: "c' = c\<lparr>bigfs := fd_remove (nat (sock_of c i)) (bigfs c)\<rparr>"
    by (auto simp: clobber_close_def FD_CLR_def split: if_splits)
  have fields: "needconn c' = needconn c" "sys c' = sys c"
    "\<And>k. fd_has (bigfs c') k \<longleftrightarrow> k \<noteq> nat (sock_of c i) \<and> fd_has (bigfs c) k"
    by (auto simp: eq fd_has_remove)
  have need: "fd_has (needconn c) j \<Longrightarrow> j \<noteq> i" for j using D(4) [of j] i by auto
  have other: "nat (sock_of c j) \<noteq> nat (sock_of c i)"
    if "j < length (sys c)" "fd_ok (sock_of c j)" "j \<noteq> i" for j
    using D(3) [of j i] ok i that by (auto simp: nat_fd_eq)
  have big: "\<exists>j < length (sys c). sock_of c j = int k \<and> j \<noteq> i"
    if "k \<noteq> nat (sock_of c i)" "fd_has (bigfs c) k" for k
    using D(5) [OF that(2)] that(1) by auto
  have "coll_inv (Some i) c'"
    unfolding coll_inv_def fields
  proof (intro conjI allI impI)
    fix k assume "k \<noteq> nat (sock_of c i) \<and> fd_has (bigfs c) k"
    then show "\<exists>j < length (sys c). sock_of c j = int k \<and> Some i \<noteq> Some j" using big by auto
  next
    fix j assume "j < length (sys c)" "fd_ok (sock_of c j)" "Some i \<noteq> Some j"
    then show "fd_has (needconn c) j \<or> nat (sock_of c j) \<noteq> nat (sock_of c i) \<and>
      fd_has (bigfs c) (nat (sock_of c j))" using D(6) [of j] other [of j] by auto
  qed (use D(1,2,3,4) i ok need in auto)
  then show ?thesis by (simp add: fields)
qed

lemma set_sock_simps [simp]:
  "needconn (set_sock i fd c) = needconn c" "bigfs (set_sock i fd c) = bigfs c"
  "length (sys (set_sock i fd c)) = length (sys c)"
  "i < length (sys c) \<Longrightarrow> sock_of (set_sock i fd c) j = (if j = i then fd else sock_of c j)"
  by (auto simp: set_sock_def nth_list_update)

lemma clobber_open_inv:
  assumes c: "coll_inv (Some i) c" and fd: "fd_ok fd" "\<forall>j < length (sys c). j \<noteq> i \<longrightarrow> sock_of c j \<noteq> fd"
    and c': "clobber_open fd i c = Some (rv, c')"
  shows "rv = 0 \<and> coll_inv None c' \<and> length (sys c') = length (sys c) \<and> bigfs c' = bigfs c \<and>
    (\<forall>k. fd_has (needconn c') k \<longleftrightarrow> k = i \<or> fd_has (needconn c) k) \<and>
    (\<forall>j. sock_of c' j = (if j = i then fd else sock_of c j))"
proof -
  note D = coll_invD [OF c]
  have i: "i < length (sys c)" "i < FD_SETSIZE" using D(1) D(7) [OF refl] by auto
  define c1 where "c1 = set_sock i fd c"
  have c1: "needconn c1 = needconn c" "bigfs c1 = bigfs c" "length (sys c1) = length (sys c)"
    "\<And>j. sock_of c1 j = (if j = i then fd else sock_of c j)"
    using i by (simp_all add: c1_def)
  from c' fd(1) i have rv: "rv = 0" and eq: "c' = c1\<lparr>lastsock := max fd (lastsock c1),
      needconn := fd_add i (needconn c1)\<rparr>"
    by (auto simp: clobber_open_def c1_def Let_def fd_ok_def)
  have fields: "length (sys c') = length (sys c)" "bigfs c' = bigfs c"
    "\<And>k. fd_has (needconn c') k \<longleftrightarrow> k = i \<or> fd_has (needconn c) k"
    "\<And>j. sock_of c' j = (if j = i then fd else sock_of c j)"
    using i by (auto simp: eq c1 fd_has_add)
  have free: "\<not> fd_has (bigfs c) (nat fd)"
  proof
    assume "fd_has (bigfs c) (nat fd)"
    from D(5) [OF this] obtain j where "j < length (sys c)" "sock_of c j = int (nat fd)" "j \<noteq> i" by auto
    with fd show False by (auto simp: fd_ok_def)
  qed
  have "coll_inv None c'"
    unfolding coll_inv_def fields
  proof (intro conjI allI impI)
    fix k assume "fd_has (bigfs c) k"
    from D(5) [OF this] show "\<exists>j < length (sys c). (if j = i then fd else sock_of c j) = int k \<and>
      None \<noteq> Some j" by auto
  next
    fix j assume "j < length (sys c)" "fd_ok (if j = i then fd else sock_of c j)"
    then show "(j = i \<or> fd_has (needconn c) j) \<or>
        fd_has (bigfs c) (nat (if j = i then fd else sock_of c j))"
      using D(6) [of j] by (cases "j = i") auto
  next
    fix j assume "j = i \<or> fd_has (needconn c) j"
    then show "fd_ok (if j = i then fd else sock_of c j)"
      "\<not> fd_has (bigfs c) (nat (if j = i then fd else sock_of c j))" "j < length (sys c)"
      using D(4) [of j] fd free i by (auto split: if_splits)
  next
    fix j k assume "j < length (sys c)" "k < length (sys c)" "j \<noteq> k"
      "fd_ok (if j = i then fd else sock_of c j)"
    then show "(if j = i then fd else sock_of c j) \<noteq> (if k = i then fd else sock_of c k)"
      using D(3) [of j k] fd by auto
  next
    fix j assume "j < length (sys c)"
    then show "(if j = i then fd else sock_of c j) = - 1 \<or> fd_ok (if j = i then fd else sock_of c j)"
      using D(2) [of j] fd by auto
  qed (use D(1) in auto)
  then show ?thesis using rv by (simp add: fields)
qed

lemma clobber_lose_inv:
  assumes c: "coll_inv (Some i) c" and c': "clobber_open (- 1) i c = Some (rv, c')"
  shows "rv = 1 \<and> coll_inv None c' \<and> length (sys c') = length (sys c) \<and> bigfs c' = bigfs c \<and>
    needconn c' = needconn c \<and> (\<forall>j. sock_of c' j = (if j = i then - 1 else sock_of c j))"
proof -
  note D = coll_invD [OF c]
  have i: "i < length (sys c)" using D(7) [OF refl] by auto
  have rv: "rv = 1" and eq: "c' = set_sock i (- 1) c"
    using c' by (auto simp: clobber_open_def Let_def)
  have fields: "length (sys c') = length (sys c)" "bigfs c' = bigfs c" "needconn c' = needconn c"
    "\<And>j. sock_of c' j = (if j = i then - 1 else sock_of c j)"
    using i by (auto simp: eq)
  have no: "\<not> fd_ok (- 1)" by (simp add: fd_ok_def)
  have big: "\<exists>j < length (sys c). (if j = i then - 1 else sock_of c j) = int k"
    if "fd_has (bigfs c) k" for k
    using D(5) [OF that] by auto
  have "coll_inv None c'"
    unfolding coll_inv_def fields
  proof (intro conjI allI impI)
    fix j assume "j < length (sys c)" "fd_ok (if j = i then - 1 else sock_of c j)"
    then show "fd_has (needconn c) j \<or> fd_has (bigfs c) (nat (if j = i then - 1 else sock_of c j))"
      using D(6) [of j] no by (auto split: if_splits)
  next
    fix j assume "fd_has (needconn c) j"
    then show "fd_ok (if j = i then - 1 else sock_of c j)"
      "\<not> fd_has (bigfs c) (nat (if j = i then - 1 else sock_of c j))" "j < length (sys c)"
      using D(4) [of j] by auto
  next
    fix j k assume "j < length (sys c)" "k < length (sys c)" "j \<noteq> k"
      "fd_ok (if j = i then - 1 else sock_of c j)"
    then show "(if j = i then - 1 else sock_of c j) \<noteq> (if k = i then - 1 else sock_of c k)"
      using D(3) [of j k] no by (auto split: if_splits)
  qed (use D(1,2) big in auto)
  then show ?thesis using rv by (simp add: fields)
qed

lemma conf_inv_coll_inv:
  assumes "conf_inv c" and "\<forall>s \<in> set (sys c). fd_ok (sock s)" and "distinct (map sock (sys c))"
  shows "coll_inv None c"
proof -
  have "sock_of c i \<noteq> sock_of c j" if "i < length (sys c)" "j < length (sys c)" "i \<noteq> j" for i j
    using that assms(3) by (auto simp: distinct_conv_nth)
  then show ?thesis using assms(1,2) unfolding coll_inv_def conf_inv_def by auto
qed

section \<open>One pass\<close>

lemma consume_total:
  assumes "length fs \<le> 32" and "is_mem_report e w \<longrightarrow> mem_value e w \<noteq> None"
  shows "\<exists>rows prev'. consume e fs who n w prev =
    Some (if short_read n then - 1 else 0, rows, prev')"
proof -
  obtain r where r: "findflow fs (ntohs e (dport w)) (ntohl e (flowid w)) = Some r"
    using findflow_bits [OF assms(1)] by blast
  note sel = findflow_selects [OF assms(1) r]
  have "flow_rows e who w r 0 fs (encapped w) =
      Some (rows_from e who w (flow_matches (ntohs e (dport w)) (ntohl e (flowid w))) fs (encapped w))"
    using sel assms(1) by (intro flow_rows_eq) auto
  then show ?thesis using assms(2) by (auto simp: consume_def message_rows_def r)
qed

text \<open>The systems whose socket a pass replaces: \<open>select\<close> reports an exception, or \<open>consume\<close> fails.\<close>

definition fails :: "serve_env \<Rightarrow> fd_set \<Rightarrow> fd_set \<Rightarrow> collector \<Rightarrow> nat \<Rightarrow> bool" where
  "fails env rfs xfs c i \<longleftrightarrow> fd_has xfs (nat (sock_of c i)) \<or>
     (fd_has rfs (nat (sock_of c i)) \<and> short_read (fst (recvd env i)))"

lemma clobber_spec:
  assumes "i < length (sys c)" "i < FD_SETSIZE" and "fd_ok (sock_of c i)"
  obtains c' where "clobber fd i c = Some (if fd < 0 then 1 else 0, c')" and "length (sys c') = length (sys c)"
    and "flows c' = flows c" and "\<And>j. sock_of c' j = (if j = i then fd else sock_of c j)"
    and "\<And>k. fd_has (needconn c') k \<longleftrightarrow> (k = i \<and> 0 \<le> fd) \<or> fd_has (needconn c) k"
    and "\<And>k. fd_has (bigfs c') k \<longleftrightarrow> k \<noteq> nat (sock_of c i) \<and> fd_has (bigfs c) k"
proof
  define c1 where "c1 = c\<lparr>bigfs := fd_remove (nat (sock_of c i)) (bigfs c)\<rparr>"
  define c2 where "c2 = set_sock i fd c1"
  define c' where "c' = (if fd < 0 then c2
    else c2\<lparr>lastsock := max fd (lastsock c2), needconn := fd_add i (needconn c2)\<rparr>)"
  show "clobber fd i c = Some (if fd < 0 then 1 else 0, c')"
    using assms by (auto simp: clobber_def clobber_close_def clobber_open_def c1_def c2_def c'_def
        Let_def fd_ok_def)
  show "flows c' = flows c" by (simp add: c'_def c2_def c1_def set_sock_def)
  show "length (sys c') = length (sys c)" by (simp add: c'_def c2_def c1_def)
  show "sock_of c' j = (if j = i then fd else sock_of c j)" for j
    using assms by (simp add: c'_def c2_def c1_def)
  show "fd_has (needconn c') k \<longleftrightarrow> (k = i \<and> 0 \<le> fd) \<or> fd_has (needconn c) k" for k
    using assms by (auto simp: c'_def c2_def c1_def fd_has_add)
  show "fd_has (bigfs c') k \<longleftrightarrow> k \<noteq> nat (sock_of c i) \<and> fd_has (bigfs c) k" for k
    by (auto simp: c'_def c2_def c1_def fd_has_remove)
qed

text \<open>
  The state after the systems in \<open>done\<close> have been served, against the one the pass
  started from.
\<close>

definition pass_rel :: "serve_env \<Rightarrow> (nat \<Rightarrow> bool) \<Rightarrow> nat list \<Rightarrow> served \<Rightarrow> served \<Rightarrow> bool" where
  "pass_rel env bad done st st' \<longleftrightarrow>
     length (sys (col st')) = length (sys (col st)) \<and> flows (col st') = flows (col st) \<and>
     (\<forall>i. sock_of (col st') i = (if i \<in> set done \<and> bad i then newsock env i else sock_of (col st) i)) \<and>
     (\<forall>i. fd_has (needconn (col st')) i \<longleftrightarrow>
        (i \<in> set done \<and> bad i \<and> 0 \<le> newsock env i) \<or> fd_has (needconn (col st)) i) \<and>
     (\<forall>k. fd_has (bigfs (col st')) k \<longleftrightarrow> fd_has (bigfs (col st)) k \<and>
        (\<forall>i \<in> set done. bad i \<longrightarrow> nat (sock_of (col st) i) \<noteq> k)) \<and>
     shouldsig st' = shouldsig st + length (filter (\<lambda>i. bad i \<and> 0 \<le> newsock env i) done)"

lemma serve_one_spec:
  assumes "i < length (sys (col st))" "i < FD_SETSIZE" and "fd_ok (sock_of (col st) i)"
    and "is_mem_report e (snd (recvd env i)) \<longrightarrow> mem_value e (snd (recvd env i)) \<noteq> None"
    and "length (flows (col st)) \<le> 32"
  shows "\<exists>st'. serve_one e env rfs xfs i st = Some st' \<and>
    pass_rel env (fails env rfs xfs (col st)) [i] st st'"
proof (cases "fails env rfs xfs (col st) i")
  case True
  obtain c' where c': "clobber (newsock env i) i (col st) = Some (if newsock env i < 0 then 1 else 0, c')"
    "length (sys c') = length (sys (col st))" "flows c' = flows (col st)"
    "\<And>j. sock_of c' j = (if j = i then newsock env i else sock_of (col st) j)"
    "\<And>k. fd_has (needconn c') k \<longleftrightarrow> (k = i \<and> 0 \<le> newsock env i) \<or> fd_has (needconn (col st)) k"
    "\<And>k. fd_has (bigfs c') k \<longleftrightarrow> k \<noteq> nat (sock_of (col st) i) \<and> fd_has (bigfs (col st)) k"
    by (rule clobber_spec [OF assms(1-3), of "newsock env i"]) (rule that)
  let ?sig = "if newsock env i < 0 then shouldsig st else shouldsig st + 1"
  have rel: "pass_rel env (fails env rfs xfs (col st)) [i] st
      (st\<lparr>col := c', shouldsig := ?sig, out := rows, prev_sec := p\<rparr>)" for rows p
    using True by (auto simp: pass_rel_def c')
  have rel2: "pass_rel env (fails env rfs xfs (col st)) [i] st
      (st\<lparr>out := rows, prev_sec := p, col := c', shouldsig := ?sig\<rparr>)" for rows p
    using True by (auto simp: pass_rel_def c')
  obtain rows p where con: "consume e (flows (col st)) (name (sys (col st) ! i)) (fst (recvd env i))
      (snd (recvd env i)) (prev_sec st) = Some (if short_read (fst (recvd env i)) then - 1 else 0, rows, p)"
    using consume_total [OF assms(5,4)] by blast
  show ?thesis
  proof (cases "fd_has xfs (nat (sock_of (col st) i))")
    case x: True
    show ?thesis using rel [where rows = "out st" and p = "prev_sec st"] assms(3) x
      by (cases "newsock env i < 0") (simp_all add: serve_one_def replace_sock_def c')
  next
    case False
    with True have "fd_has rfs (nat (sock_of (col st) i))" "short_read (fst (recvd env i))"
      by (auto simp: fails_def)
    then show ?thesis using rel2 [where rows = "out st @ rows" and p = p] assms(3) False con
      by (cases "newsock env i < 0") (simp_all add: serve_one_def replace_sock_def c' Let_def)
  qed
next
  case False
  obtain rows p where con: "consume e (flows (col st)) (name (sys (col st) ! i)) (fst (recvd env i))
      (snd (recvd env i)) (prev_sec st) = Some (if short_read (fst (recvd env i)) then - 1 else 0, rows, p)"
    using consume_total [OF assms(5,4)] by blast
  have rel: "pass_rel env (fails env rfs xfs (col st)) [i] st (st\<lparr>out := rows', prev_sec := p'\<rparr>)"
    for rows' p' using False by (auto simp: pass_rel_def)
  show ?thesis
    using False assms(3) con rel [where rows' = "out st" and p' = "prev_sec st"]
      rel [where rows' = "out st @ rows" and p' = p]
    by (cases "fd_has rfs (nat (sock_of (col st) i))") (auto simp: serve_one_def fails_def Let_def)
qed

lemma fails_cong: "sock_of c' i = sock_of c i \<Longrightarrow> fails env rfs xfs c' i = fails env rfs xfs c i"
  by (simp add: fails_def)

lemma serve_from_spec:
  assumes "distinct is" and "\<forall>i \<in> set is. i < length (sys (col st)) \<and> i < FD_SETSIZE \<and>
      fd_ok (sock_of (col st) i) \<and>
      (is_mem_report e (snd (recvd env i)) \<longrightarrow> mem_value e (snd (recvd env i)) \<noteq> None) \<and>
      bad i = fails env rfs xfs (col st) i"
    and "length (flows (col st)) \<le> 32"
  shows "\<exists>st'. serve_from e env rfs xfs is st = Some st' \<and> pass_rel env bad is st st'"
  using assms
proof (induction "is" arbitrary: st)
  case Nil
  then show ?case by (simp add: pass_rel_def)
next
  case (Cons i "is")
  have i: "i < length (sys (col st))" "i < FD_SETSIZE" "fd_ok (sock_of (col st) i)"
    "bad i = fails env rfs xfs (col st) i"
    "is_mem_report e (snd (recvd env i)) \<longrightarrow> mem_value e (snd (recvd env i)) \<noteq> None"
    using Cons.prems(2) by auto
  obtain st1 where st1: "serve_one e env rfs xfs i st = Some st1"
    "pass_rel env (fails env rfs xfs (col st)) [i] st st1"
    using serve_one_spec [OF i(1,2,3,5) Cons.prems(3)] by blast
  from st1(2) have rel: "pass_rel env bad [i] st st1" using i(4) by (auto simp: pass_rel_def)
  have same: "sock_of (col st1) j = sock_of (col st) j" if "j \<in> set is" for j
    using rel that Cons.prems(1) by (auto simp: pass_rel_def)
  have "\<forall>j \<in> set is. j < length (sys (col st1)) \<and> j < FD_SETSIZE \<and> fd_ok (sock_of (col st1) j) \<and>
      (is_mem_report e (snd (recvd env j)) \<longrightarrow> mem_value e (snd (recvd env j)) \<noteq> None) \<and>
      bad j = fails env rfs xfs (col st1) j"
    using Cons.prems(2) rel same fails_cong [OF same] by (auto simp: pass_rel_def)
  moreover have "length (flows (col st1)) \<le> 32" using Cons.prems(3) rel by (simp add: pass_rel_def)
  ultimately obtain st' where st': "serve_from e env rfs xfs is st1 = Some st'"
    "pass_rel env bad is st1 st'"
    using Cons.IH [of st1] Cons.prems(1) by auto
  have "pass_rel env bad (i # is) st st'"
    using rel st'(2) same Cons.prems(1) unfolding pass_rel_def by auto
  then show ?case using st1(1) st'(1) by simp
qed

section \<open>Properties\<close>

text \<open>C15: after a pass over systems that all have a socket, with at most 32 flows and no report of
  2 GiB of memory or more, exactly those that \<open>select\<close> reported with an exception, or whose
  message was cut short, have what \<open>socket\<close> returned in place of their socket and are no
  longer polled; where that is a descriptor they wait to be connected, where \<open>socket\<close> failed
  they do not. The others are untouched, and the connecting thread is signalled iff some
  system got a new descriptor.\<close>

theorem main_pass_replaces:
  assumes "sel > 0" and "coll_inv None (col st)" and "length (flows (col st)) \<le> 32"
    and "\<forall>i < length (sys (col st)). fd_ok (sock_of (col st) i) \<and>
      (is_mem_report e (snd (recvd env i)) \<longrightarrow> mem_value e (snd (recvd env i)) \<noteq> None)"
    and "shouldsig st = 0"
  shows "\<exists>st'. main_pass e env sel rfs xfs st =
      Some (st', \<exists>i < length (sys (col st)). fails env rfs xfs (col st) i \<and> 0 \<le> newsock env i) \<and>
    shouldsig st' = 0 \<and>
    (\<forall>i < length (sys (col st)). sock_of (col st') i =
       (if fails env rfs xfs (col st) i then newsock env i else sock_of (col st) i)) \<and>
    (\<forall>i < length (sys (col st)). fd_has (needconn (col st')) i \<longleftrightarrow>
       fd_has (needconn (col st)) i \<or> (fails env rfs xfs (col st) i \<and> 0 \<le> newsock env i)) \<and>
    (\<forall>i < length (sys (col st)). fd_has (bigfs (col st')) (nat (sock_of (col st) i)) \<longleftrightarrow>
       fd_has (bigfs (col st)) (nat (sock_of (col st) i)) \<and> \<not> fails env rfs xfs (col st) i)"
proof -
  let ?n = "length (sys (col st))" and ?bad = "fails env rfs xfs (col st)"
  note D = coll_invD [OF assms(2)]
  have "\<forall>i \<in> set [0..<?n]. i < ?n \<and> i < FD_SETSIZE \<and> fd_ok (sock_of (col st) i) \<and>
      (is_mem_report e (snd (recvd env i)) \<longrightarrow> mem_value e (snd (recvd env i)) \<noteq> None) \<and> ?bad i = ?bad i"
    using assms(4) D(1) by auto
  from serve_from_spec [OF distinct_upt this assms(3)] obtain st1
    where st1: "serve_from e env rfs xfs [0..<?n] st = Some st1" "pass_rel env ?bad [0..<?n] st st1"
    by blast
  have inj: "nat (sock_of (col st) j) \<noteq> nat (sock_of (col st) i)" if "i < ?n" "j < ?n" "i \<noteq> j" for i j
    using D(3) [of i j] that assms(4) by (auto simp: nat_fd_eq)
  have pos: "shouldsig st1 > 0 \<longleftrightarrow> (\<exists>i < ?n. ?bad i \<and> 0 \<le> newsock env i)"
    using st1(2) assms(5) by (auto simp: pass_rel_def filter_empty_conv)
  have big: "fd_has (bigfs (col st1)) (nat (sock_of (col st) i)) \<longleftrightarrow>
      fd_has (bigfs (col st)) (nat (sock_of (col st) i)) \<and> \<not> ?bad i" if "i < ?n" for i
  proof -
    have "(\<forall>j \<in> set [0..<?n]. ?bad j \<longrightarrow> nat (sock_of (col st) j) \<noteq> nat (sock_of (col st) i))
        \<longleftrightarrow> \<not> ?bad i"
      using that inj by (metis atLeastLessThan_iff atLeastLessThan_upt le0)
    then show ?thesis using st1(2) unfolding pass_rel_def by blast
  qed
  show ?thesis
    using st1 pos big assms(1)
    by (intro exI [of _ "st1\<lparr>shouldsig := 0\<rparr>"]) (auto simp: main_pass_def pass_rel_def)
qed

lemma serve_one_other:
  assumes "serve_one e env rfs xfs j st = Some st'" and "i \<noteq> j"
  shows "sock_of (col st') i = sock_of (col st) i"
  using assms
  by (auto simp: serve_one_def replace_sock_def clobber_def clobber_close_def clobber_open_def
      set_sock_def Let_def split: option.splits bool.splits if_splits prod.splits)

lemma serve_from_dropped:
  "i \<in> set is \<Longrightarrow> distinct is \<Longrightarrow> sock_of (col st) i < 0 \<Longrightarrow> serve_from e env rfs xfs is st = None"
proof (induction "is" arbitrary: st)
  case Nil
  then show ?case by simp
next
  case (Cons j "is")
  show ?case
  proof (cases "i = j")
    case True
    then show ?thesis using Cons.prems by (simp add: serve_one_def FD_ISSET_def fd_ok_def)
  next
    case False
    then show ?thesis
      using Cons serve_one_other [of e env rfs xfs j st _ i] by (auto split: option.splits)
  qed
qed

text \<open>An agent dropped because no socket could be created keeps the descriptor -1, and the
  next pass with anything to read tests it in a descriptor set: the collector aborts.\<close>

theorem dropped_agent_aborts:
  assumes "i < length (sys (col st))" and "sock_of (col st) i = - 1" and "sel > 0"
  shows "main_pass e env sel rfs xfs st = None"
  using assms serve_from_dropped [of i "[0..<length (sys (col st))]" st e env rfs xfs]
  by (simp add: main_pass_def)

definition sample_sys :: "int \<Rightarrow> ssys" where
  "sample_sys fd = \<lparr>name = ''1'', sin_addr = 1, sin_port = 1, sock = fd\<rparr>"

definition sample_served :: "int \<Rightarrow> served" where
  "sample_served fd = \<lparr>col = \<lparr>flows = [], sys = [sample_sys fd], needconn = fd_zero,
     bigfs = fd_add 3 fd_zero, lastsock = 3\<rparr>, prev_sec = 0, out = [], shouldsig = 0\<rparr>"

definition sample_env :: serve_env where
  "sample_env = \<lparr>recvd = (\<lambda>_. (0, wire_zero)), newsock = (\<lambda>_. 4)\<rparr>"

lemma sample_served_inv: "coll_inv None (col (sample_served 3))"
  by (auto simp: coll_inv_def sample_served_def sample_sys_def FD_SETSIZE_def fd_ok_def fd_has_add)

theorem main_pass_replaces_witness:
  "\<exists>st'. main_pass Little sample_env 1 (fd_add 3 fd_zero) fd_zero (sample_served 3) = Some (st', True) \<and>
     sock_of (col st') 0 = 4 \<and> fd_has (needconn (col st')) 0 \<and> \<not> fd_has (bigfs (col st')) 3"
proof -
  let ?st = "sample_served 3" and ?R = "fd_add 3 fd_zero"
  have one: "length (sys (col ?st)) = 1" "sock_of (col ?st) 0 = 3" by (simp_all add: sample_served_def sample_sys_def)
  have bad: "fails sample_env ?R fd_zero (col ?st) 0"
    by (simp add: fails_def one sample_env_def short_read_iff fd_has_add FD_SETSIZE_def)
  have h: "\<forall>i < length (sys (col ?st)). fd_ok (sock_of (col ?st) i) \<and>
      (is_mem_report Little (snd (recvd sample_env i)) \<longrightarrow> mem_value Little (snd (recvd sample_env i)) \<noteq> None)"
    by (simp add: one fd_ok_def FD_SETSIZE_def sample_env_def mem_value_def wire_zero_def)
  have l: "length (flows (col ?st)) \<le> 32" "shouldsig ?st = 0" "(1 :: int) > 0"
    by (simp_all add: sample_served_def)
  show ?thesis
    using main_pass_replaces [OF l(3) sample_served_inv l(1) h l(2), of ?R fd_zero] bad
    by (auto simp: one sample_env_def)
qed

theorem dropped_agent_aborts_witness:
  "main_pass Little sample_env 1 (fd_add 3 fd_zero) fd_zero (sample_served (- 1)) = None"
  by (rule dropped_agent_aborts [of 0]) (simp_all add: sample_served_def sample_sys_def)

end
