(* ===== verification/Threads.thy ===== *)
theory Threads
  imports Connect
begin

text \<open>
  The two threads of \<open>recollect.c\<close> as an interleaving: a step is a critical section that
  \<open>connlock\<close> makes atomic, or what a thread does between two of them. \<open>conner\<close> connects
  pending agents and sleeps on \<open>waitconn\<close>; the main thread polls, serves and replaces.
\<close>

section \<open>The two threads\<close>

text \<open>
  Program points. \<open>conner\<close>: about to copy \<open>needconn\<close>; scanning its copy at a system;
  connected it and about to mark it; asleep on the condition variable, with or without
  a time limit. Main: in \<open>select\<close>; serving from a system on; between the two halves of
  \<open>clobber\<close>. Spurious wake-ups are left out.
\<close>

datatype conner_pc = Snap | Scan fd_set nat | Mark fd_set nat | Sleep bool
datatype main_pc = Poll | Pass fd_set nat | Reopen fd_set nat

record world =
  cl :: collector
  cpc :: conner_pc
  mpc :: main_pc
  waiting :: nat
  alreadyfailed :: bool
  signal :: bool

abbreviation nsystems :: "world \<Rightarrow> nat" where "nsystems w \<equiv> length (sys (cl w))"
abbreviation wsock :: "world \<Rightarrow> nat \<Rightarrow> int" where "wsock w i \<equiv> sock_of (cl w) i"

definition sleep_after :: "bool \<Rightarrow> world \<Rightarrow> world" where
  "sleep_after clock_ok w = (if waiting w > 0 \<and> \<not> alreadyfailed w then
     (if clock_ok then w\<lparr>cpc := Sleep True\<rparr> else w\<lparr>cpc := Sleep False, alreadyfailed := True\<rparr>)
     else w\<lparr>cpc := Sleep False\<rparr>)"

definition wake :: "conner_pc \<Rightarrow> conner_pc" where
  "wake p = (case p of Sleep _ \<Rightarrow> Snap | _ \<Rightarrow> p)"

inductive thread_step :: "world \<Rightarrow> world \<Rightarrow> bool" where
  snap: "cpc w = Snap \<Longrightarrow> thread_step w (w\<lparr>cpc := Scan (needconn (cl w)) 0\<rparr>)"
| skip: "cpc w = Scan fs i \<Longrightarrow> i < nsystems w \<Longrightarrow> \<not> fd_has fs i \<Longrightarrow>
    thread_step w (w\<lparr>cpc := Scan fs (i + 1)\<rparr>)"
| refused: "cpc w = Scan fs i \<Longrightarrow> i < nsystems w \<Longrightarrow> fd_has fs i \<Longrightarrow>
    thread_step w (w\<lparr>cpc := Scan fs (i + 1), waiting := waiting w + 1\<rparr>)"
| connected: "cpc w = Scan fs i \<Longrightarrow> i < nsystems w \<Longrightarrow> fd_has fs i \<Longrightarrow>
    thread_step w (w\<lparr>cpc := Mark fs i\<rparr>)"
| mark: "cpc w = Mark fs i \<Longrightarrow> fd_ok (wsock w i) \<Longrightarrow>
    thread_step w (w\<lparr>cl := mark_connected i (cl w), cpc := Scan fs (i + 1)\<rparr>)"
| sleep: "cpc w = Scan fs i \<Longrightarrow> \<not> i < nsystems w \<Longrightarrow> thread_step w (sleep_after clock_ok w)"
| timeout: "cpc w = Sleep True \<Longrightarrow> thread_step w (w\<lparr>cpc := Snap\<rparr>)"
| poll: "mpc w = Poll \<Longrightarrow> \<forall>k. fd_has R k \<longrightarrow> fd_has (bigfs (cl w)) k \<Longrightarrow>
    thread_step w (w\<lparr>mpc := Pass R 0\<rparr>)"
| serve: "mpc w = Pass R i \<Longrightarrow> i < nsystems w \<Longrightarrow> fd_ok (wsock w i) \<Longrightarrow>
    thread_step w (w\<lparr>mpc := Pass R (i + 1)\<rparr>)"
| drop_conn: "mpc w = Pass R i \<Longrightarrow> i < nsystems w \<Longrightarrow> FD_ISSET (wsock w i) R = Some True \<Longrightarrow>
    clobber_close i (cl w) = Some c \<Longrightarrow> thread_step w (w\<lparr>cl := c, mpc := Reopen R i\<rparr>)"
| reopen: "mpc w = Reopen R i \<Longrightarrow> fd_ok fd \<Longrightarrow> \<forall>j < nsystems w. j \<noteq> i \<longrightarrow> wsock w j \<noteq> fd \<Longrightarrow>
    clobber_open fd i (cl w) = Some (rv, c) \<Longrightarrow>
    thread_step w (w\<lparr>cl := c, mpc := Pass R (i + 1), signal := True\<rparr>)"
| lose: "mpc w = Reopen R i \<Longrightarrow> clobber_open (- 1) i (cl w) = Some (rv, c) \<Longrightarrow>
    thread_step w (w\<lparr>cl := c, mpc := Pass R (i + 1)\<rparr>)"
| finish: "mpc w = Pass R i \<Longrightarrow> \<not> i < nsystems w \<Longrightarrow>
    thread_step w (w\<lparr>mpc := Poll, signal := False,
      cpc := (if signal w then wake (cpc w) else cpc w)\<rparr>)"

inductive reachable :: "collector \<Rightarrow> world \<Rightarrow> bool" for c0 where
  start: "reachable c0 \<lparr>cl = c0, cpc = Snap, mpc = Poll, waiting = 0, alreadyfailed = False,
     signal = False\<rparr>"
| step: "reachable c0 w \<Longrightarrow> thread_step w w' \<Longrightarrow> reachable c0 w'"

inductive_cases thread_stepE: "thread_step w w'"

section \<open>The invariant of the interleaving\<close>

definition replacing :: "main_pc \<Rightarrow> nat option" where
  "replacing p = (case p of Reopen R i \<Rightarrow> Some i | _ \<Rightarrow> None)"

text \<open>
  What \<open>conner\<close> still has to visit is pending: only \<open>conner\<close> itself takes a system out of
  \<open>needconn\<close>. What main still has to visit and found readable is still connected.
\<close>

definition cpc_inv :: "conner_pc \<Rightarrow> collector \<Rightarrow> bool" where
  "cpc_inv p c = (case p of
     Scan fs i \<Rightarrow> \<forall>j \<ge> i. fd_has fs j \<longrightarrow> fd_has (needconn c) j
   | Mark fs i \<Rightarrow> fd_has fs i \<and> (\<forall>j \<ge> i. fd_has fs j \<longrightarrow> fd_has (needconn c) j)
   | _ \<Rightarrow> True)"

definition mpc_inv :: "main_pc \<Rightarrow> collector \<Rightarrow> bool" where
  "mpc_inv p c = (case p of
     Pass R i \<Rightarrow> \<forall>j < length (sys c). i \<le> j \<longrightarrow> fd_ok (sock_of c j) \<longrightarrow>
       fd_has R (nat (sock_of c j)) \<longrightarrow> fd_has (bigfs c) (nat (sock_of c j))
   | Reopen R i \<Rightarrow> \<forall>j < length (sys c). i < j \<longrightarrow> fd_ok (sock_of c j) \<longrightarrow>
       fd_has R (nat (sock_of c j)) \<longrightarrow> fd_has (bigfs c) (nat (sock_of c j))
   | Poll \<Rightarrow> True)"

definition world_inv :: "world \<Rightarrow> bool" where
  "world_inv w \<longleftrightarrow> coll_inv (replacing (mpc w)) (cl w) \<and> cpc_inv (cpc w) (cl w) \<and> mpc_inv (mpc w) (cl w)"

lemmas pc_inv_defs = cpc_inv_def mpc_inv_def replacing_def

lemma pc_inv_simps [simp]:
  "cpc_inv Snap c" "cpc_inv (Sleep b) c" "mpc_inv Poll c"
  "cpc_inv (Scan fs i) c \<longleftrightarrow> (\<forall>j \<ge> i. fd_has fs j \<longrightarrow> fd_has (needconn c) j)"
  "replacing Poll = None" "replacing (Pass R i) = None" "replacing (Reopen R i) = Some i"
  by (simp_all add: pc_inv_defs)

lemma sleep_after_fields [simp]:
  "cl (sleep_after b w) = cl w" "mpc (sleep_after b w) = mpc w" "cpc_inv (cpc (sleep_after b w)) c"
  by (simp_all add: sleep_after_def)

lemma cpc_inv_wake [simp]: "cpc_inv p c \<Longrightarrow> cpc_inv (wake p) c"
  by (auto simp: cpc_inv_def wake_def split: conner_pc.splits)

lemma cpc_inv_mono:
  "cpc_inv p c \<Longrightarrow> (\<And>k. fd_has (needconn c) k \<Longrightarrow> fd_has (needconn c') k) \<Longrightarrow> cpc_inv p c'"
  by (auto simp: cpc_inv_def split: conner_pc.splits)

lemma mpc_inv_mono:
  "mpc_inv p c \<Longrightarrow> sys c' = sys c \<Longrightarrow> (\<And>k. fd_has (bigfs c) k \<Longrightarrow> fd_has (bigfs c') k) \<Longrightarrow>
     mpc_inv p c'"
  by (auto simp: mpc_inv_def split: main_pc.splits)

lemma clobber_open_mono:
  assumes "clobber_open fd i c = Some (rv, c')" and "fd_has (needconn c) k" and "i < FD_SETSIZE"
  shows "fd_has (needconn c') k"
  using assms by (auto simp: clobber_open_def Let_def FD_SET_def fd_has_add split: if_splits)

lemma world_inv_step: "thread_step w w' \<Longrightarrow> world_inv w \<Longrightarrow> world_inv w'"
proof (induction rule: thread_step.induct)
  case (mark w fs i)
  then have i: "fd_has (needconn (cl w)) i" and fs: "\<forall>j \<ge> i. fd_has fs j \<longrightarrow> fd_has (needconn (cl w)) j"
    by (auto simp: world_inv_def cpc_inv_def)
  have "cpc_inv (Scan fs (i + 1)) (mark_connected i (cl w))"
    using fs by (auto simp: cpc_inv_def)
  moreover from mark have old: "coll_inv (replacing (mpc w)) (cl w)" "mpc_inv (mpc w) (cl w)"
    by (simp_all add: world_inv_def)
  moreover have "mpc_inv (mpc w) (mark_connected i (cl w))"
    by (rule mpc_inv_mono [OF old(2)]) (simp_all add: mark(2))
  ultimately show ?case using mark_connected_inv [OF old(1) i] by (simp add: world_inv_def)
next
  case (drop_conn w R i c)
  then have inv: "coll_inv None (cl w)"
    and R: "\<forall>j < nsystems w. i \<le> j \<longrightarrow> fd_ok (wsock w j) \<longrightarrow>
       fd_has R (nat (wsock w j)) \<longrightarrow> fd_has (bigfs (cl w)) (nat (wsock w j))"
    by (auto simp: world_inv_def pc_inv_defs)
  have i: "fd_ok (wsock w i)" "fd_has R (nat (wsock w i))"
    using drop_conn(3) by (auto simp: FD_ISSET_def split: if_splits)
  have big: "fd_has (bigfs (cl w)) (nat (wsock w i))" using R i drop_conn(2) by auto
  note close = clobber_close_inv [OF inv drop_conn(2) big drop_conn(4)]
  have "nat (wsock w j) \<noteq> nat (wsock w i)" if "j < nsystems w" "i < j" "fd_ok (wsock w j)" for j
    using coll_invD(3) [OF inv, of i j] that drop_conn(2) i by (auto simp: nat_fd_eq)
  then have "mpc_inv (Reopen R i) c" using R close by (auto simp: mpc_inv_def)
  moreover from drop_conn have old: "cpc_inv (cpc w) (cl w)" by (simp add: world_inv_def)
  have "cpc_inv (cpc w) c" by (rule cpc_inv_mono [OF old]) (simp add: close)
  ultimately show ?case using close by (simp add: world_inv_def replacing_def)
next
  case (reopen w R i fd rv c)
  then have inv: "coll_inv (Some i) (cl w)" by (simp add: world_inv_def replacing_def)
  note new = clobber_open_inv [OF inv reopen(2) reopen(3) reopen(4)]
  have old: "cpc_inv (cpc w) (cl w)" "mpc_inv (Reopen R i) (cl w)"
    using reopen by (simp_all add: world_inv_def)
  have "cpc_inv (cpc w) c" by (rule cpc_inv_mono [OF old(1)]) (simp add: new)
  moreover have "mpc_inv (Pass R (i + 1)) c" using old(2) new by (simp add: mpc_inv_def)
  ultimately show ?case using new by (simp add: world_inv_def replacing_def)
next
  case (lose w R i rv c)
  then have inv: "coll_inv (Some i) (cl w)" by (simp add: world_inv_def replacing_def)
  note new = clobber_lose_inv [OF inv lose(2)]
  have old: "cpc_inv (cpc w) (cl w)" "mpc_inv (Reopen R i) (cl w)"
    using lose by (simp_all add: world_inv_def)
  have "cpc_inv (cpc w) c" by (rule cpc_inv_mono [OF old(1)]) (simp add: new)
  moreover have "mpc_inv (Pass R (i + 1)) c" using old(2) new by (simp add: mpc_inv_def)
  ultimately show ?case using new by (simp add: world_inv_def replacing_def)
next
  case (poll w R)
  then show ?case by (simp add: world_inv_def mpc_inv_def)
next
  case (serve w R i)
  then show ?case by (simp add: world_inv_def mpc_inv_def)
next
  case (connected w fs i)
  then show ?case by (simp add: world_inv_def cpc_inv_def)
qed (simp_all add: world_inv_def)

lemma reachable_inv: "reachable c0 w \<Longrightarrow> coll_inv None c0 \<Longrightarrow> world_inv w"
proof (induction rule: reachable.induct)
  case start
  then show ?case by (simp add: world_inv_def pc_inv_defs)
qed (rule world_inv_step)

section \<open>Properties\<close>

text \<open>C9: at every point of every interleaving, each configured agent is in exactly one of four
  states: dropped (descriptor -1, neither pending nor connected), pending, connected, or
  having its socket replaced; no two agents share a descriptor, and every polled
  descriptor belongs to an agent.\<close>

theorem connection_states:
  assumes "reachable c0 w" and "coll_inv None c0" and "i < nsystems w"
  shows "(if fd_ok (wsock w i)
     then (replacing (mpc w) = Some i \<longrightarrow> \<not> fd_has (needconn (cl w)) i \<and>
             \<not> fd_has (bigfs (cl w)) (nat (wsock w i))) \<and>
          (replacing (mpc w) \<noteq> Some i \<longrightarrow>
             (fd_has (needconn (cl w)) i \<noteq> fd_has (bigfs (cl w)) (nat (wsock w i))))
     else wsock w i = - 1 \<and> \<not> fd_has (needconn (cl w)) i) \<and>
    (\<forall>j < nsystems w. i \<noteq> j \<longrightarrow> fd_ok (wsock w i) \<longrightarrow> wsock w i \<noteq> wsock w j) \<and>
    (\<forall>k. fd_has (bigfs (cl w)) k \<longrightarrow> (\<exists>j < nsystems w. wsock w j = int k))"
proof -
  have inv: "coll_inv (replacing (mpc w)) (cl w)"
    using reachable_inv [OF assms(1,2)] by (simp add: world_inv_def)
  note D = coll_invD [OF inv]
  have "\<not> fd_has (bigfs (cl w)) (nat (wsock w i))" if "replacing (mpc w) = Some i" "fd_ok (wsock w i)"
  proof
    assume "fd_has (bigfs (cl w)) (nat (wsock w i))"
    from D(5) [OF this] that obtain j where "j < nsystems w" "wsock w j = wsock w i" "j \<noteq> i"
      by (auto simp: fd_ok_def)
    then show False using D(3) [of i j] that assms(3) by auto
  qed
  moreover have "\<forall>k. fd_has (bigfs (cl w)) k \<longrightarrow> (\<exists>j < nsystems w. wsock w j = int k)"
    using D(5) by blast
  ultimately show ?thesis
    using D(2) [OF assms(3)] D(3) [OF assms(3)] D(4) [of i] D(6) [OF assms(3)] by auto
qed

text \<open>C10: \<open>conner\<close>, scanning its copy of the pending set without holding the lock, still only
  connects agents that are pending and not connected, on a valid descriptor, so marking
  one never aborts; and main never replaces the socket of an agent that is pending.\<close>

theorem threads_do_not_collide:
  assumes "reachable c0 w" and "coll_inv None c0"
  shows "(\<forall>fs i. (cpc w = Scan fs i \<and> fd_has fs i \<or> cpc w = Mark fs i) \<longrightarrow>
      i < nsystems w \<and> fd_has (needconn (cl w)) i \<and> fd_ok (wsock w i) \<and>
      \<not> fd_has (bigfs (cl w)) (nat (wsock w i)) \<and> replacing (mpc w) \<noteq> Some i) \<and>
    (\<forall>R i. mpc w = Pass R i \<longrightarrow> i < nsystems w \<longrightarrow> FD_ISSET (wsock w i) R = Some True \<longrightarrow>
      fd_has (bigfs (cl w)) (nat (wsock w i)) \<and> \<not> fd_has (needconn (cl w)) i)"
proof -
  have inv: "coll_inv (replacing (mpc w)) (cl w)" "cpc_inv (cpc w) (cl w)" "mpc_inv (mpc w) (cl w)"
    using reachable_inv [OF assms] by (auto simp: world_inv_def)
  note D = coll_invD [OF inv(1)]
  have "fd_has (needconn (cl w)) i" if "cpc w = Scan fs i \<and> fd_has fs i \<or> cpc w = Mark fs i" for fs i
    using that inv(2) by (auto simp: cpc_inv_def)
  moreover have "fd_has (bigfs (cl w)) (nat (wsock w i))"
    if "mpc w = Pass R i" "i < nsystems w" "FD_ISSET (wsock w i) R = Some True" for R i
    using that inv(3) by (auto simp: mpc_inv_def FD_ISSET_def split: if_splits)
  ultimately show ?thesis using D(4) by blast
qed

lemma sleep_inv_step:
  "thread_step w w' \<Longrightarrow> (cpc w = Sleep False \<longrightarrow> waiting w = 0 \<or> alreadyfailed w) \<Longrightarrow>
    cpc w' = Sleep False \<longrightarrow> waiting w' = 0 \<or> alreadyfailed w'"
  by (induction rule: thread_step.induct)
    (auto simp: sleep_after_def wake_def split: if_splits conner_pc.splits)

text \<open>Once a connection attempt has failed, \<open>conner\<close> never sleeps without a time limit as long
  as the clock works, so refused agents are tried again.\<close>

theorem refused_agents_retried:
  assumes "reachable c0 w" and "cpc w = Sleep False"
  shows "waiting w = 0 \<or> alreadyfailed w"
proof -
  have "cpc w = Sleep False \<longrightarrow> waiting w = 0 \<or> alreadyfailed w"
    using assms(1)
  proof (induction rule: reachable.induct)
    case (step w w')
    then show ?case using sleep_inv_step by blast
  qed simp
  with assms(2) show ?thesis by simp
qed

section \<open>A lost wake-up\<close>

definition one_agent :: collector where
  "one_agent = \<lparr>flows = [], sys = [\<lparr>name = ''1'', sin_addr = 1, sin_port = 1, sock = 3\<rparr>],
     needconn = fd_add 0 fd_zero, bigfs = fd_zero, lastsock = 3\<rparr>"

lemma one_agent_inv: "coll_inv None one_agent"
  by (auto simp: coll_inv_def one_agent_def fd_ok_def FD_SETSIZE_def fd_has_add)

definition stuck :: "world \<Rightarrow> bool" where
  "stuck w \<longleftrightarrow> cpc w = Sleep False \<and> \<not> signal w \<and> bigfs (cl w) = fd_zero \<and>
     fd_has (needconn (cl w)) 0 \<and> (mpc w = Poll \<or> (\<exists>i. mpc w = Pass fd_zero i))"

lemma fd_zeroI: "\<forall>k. \<not> fd_has R k \<Longrightarrow> R = fd_zero"
  by (rule fd_set_eqI) simp

lemma stuck_step: "thread_step w w' \<Longrightarrow> stuck w \<Longrightarrow> stuck w'"
  by (induction rule: thread_step.induct)
    (auto simp: stuck_def FD_ISSET_def dest: fd_zeroI split: if_splits)

lemma stuck_steps: "thread_step\<^sup>*\<^sup>* w w' \<Longrightarrow> stuck w \<Longrightarrow> stuck w'"
  by (induction rule: rtranclp_induct) (auto intro: stuck_step)

text \<open>The run: \<open>conner\<close> connects the agent; before it sleeps, main sees the connection fail.\<close>

definition up :: collector where
  "up = one_agent\<lparr>needconn := fd_zero, bigfs := fd_add 3 fd_zero\<rparr>"

abbreviation world_at :: "collector \<Rightarrow> conner_pc \<Rightarrow> main_pc \<Rightarrow> bool \<Rightarrow> world" where
  "world_at c p m sg \<equiv> \<lparr>cl = c, cpc = p, mpc = m, waiting = 0, alreadyfailed = False, signal = sg\<rparr>"

abbreviation agent0 :: fd_set where "agent0 \<equiv> fd_add 0 fd_zero"
abbreviation fd3 :: fd_set where "fd3 \<equiv> fd_add 3 fd_zero"

lemma run_connect: "reachable one_agent (world_at up (Scan agent0 1) Poll False)"
proof -
  have "thread_step (world_at one_agent Snap Poll False) (world_at one_agent (Scan agent0 0) Poll False)"
    using thread_step.snap [of "world_at one_agent Snap Poll False"] by (simp add: one_agent_def)
  moreover have "thread_step (world_at one_agent (Scan agent0 0) Poll False)
      (world_at one_agent (Mark agent0 0) Poll False)"
    using thread_step.connected [of "world_at one_agent (Scan agent0 0) Poll False" agent0 0]
    by (simp add: one_agent_def fd_has_add FD_SETSIZE_def)
  moreover have "mark_connected 0 one_agent = up"
  proof -
    have "fd_remove 0 agent0 = fd_zero" by (rule fds.del_add) (simp_all add: FD_SETSIZE_def)
    then show ?thesis by (simp add: mark_connected_def up_def one_agent_def)
  qed
  then have "thread_step (world_at one_agent (Mark agent0 0) Poll False)
      (world_at up (Scan agent0 1) Poll False)"
    using thread_step.mark [of "world_at one_agent (Mark agent0 0) Poll False" agent0 0]
    by (simp add: one_agent_def fd_ok_def FD_SETSIZE_def)
  ultimately show ?thesis by (meson reachable.intros)
qed

lemma run_replace: "reachable one_agent (world_at one_agent (Scan agent0 1) (Pass fd3 1) True)"
proof -
  let ?p = "Scan agent0 1" and ?down = "one_agent\<lparr>needconn := fd_zero\<rparr>"
  have "thread_step (world_at up ?p Poll False) (world_at up ?p (Pass fd3 0) False)"
    using thread_step.poll [of "world_at up ?p Poll False" fd3] by (simp add: up_def)
  moreover have "clobber_close 0 up = Some ?down"
  proof -
    have "fd_remove 3 fd3 = fd_zero" by (rule fds.del_add) (simp_all add: FD_SETSIZE_def)
    then show ?thesis
      by (simp add: clobber_close_def up_def one_agent_def FD_CLR_def fd_ok_def FD_SETSIZE_def)
  qed
  then have "thread_step (world_at up ?p (Pass fd3 0) False) (world_at ?down ?p (Reopen fd3 0) False)"
    using thread_step.drop_conn [of "world_at up ?p (Pass fd3 0) False" fd3 0 ?down]
    by (simp add: up_def one_agent_def FD_ISSET_def fd_ok_def FD_SETSIZE_def fd_has_add)
  moreover have "clobber_open 3 0 ?down = Some (0, one_agent)"
    by (simp add: clobber_open_def one_agent_def set_sock_def FD_SET_def fd_ok_def FD_SETSIZE_def)
  then have "thread_step (world_at ?down ?p (Reopen fd3 0) False) (world_at one_agent ?p (Pass fd3 1) True)"
    using thread_step.reopen [of "world_at ?down ?p (Reopen fd3 0) False" fd3 0 3 0 one_agent]
    by (simp add: one_agent_def fd_ok_def FD_SETSIZE_def)
  ultimately show ?thesis using run_connect by (meson reachable.step)
qed

lemma run_sleep: "reachable one_agent (world_at one_agent (Sleep False) Poll False)"
proof -
  let ?p = "Scan agent0 1"
  have "thread_step (world_at one_agent ?p (Pass fd3 1) True) (world_at one_agent ?p Poll False)"
    using thread_step.finish [of "world_at one_agent ?p (Pass fd3 1) True" fd3 1]
    by (simp add: one_agent_def wake_def)
  moreover have "thread_step (world_at one_agent ?p Poll False) (world_at one_agent (Sleep False) Poll False)"
    using thread_step.sleep [of "world_at one_agent ?p Poll False" agent0 1]
    by (simp add: one_agent_def sleep_after_def)
  ultimately show ?thesis using run_replace by (meson reachable.step)
qed

text \<open>C24: the signal of a replaced agent can be lost. With one agent that connects and fails at
  once, there is a run after which the agent is pending for ever: main signals while
  \<open>conner\<close> is still scanning, \<open>conner\<close> then waits without a time limit, and in no
  continuation does it wake up, although the agent waits to be connected.\<close>

theorem wakeup_can_be_lost:
  "\<exists>w. reachable one_agent w \<and> (\<forall>w'. thread_step\<^sup>*\<^sup>* w w' \<longrightarrow>
     cpc w' = Sleep False \<and> fd_has (needconn (cl w')) 0 \<and> bigfs (cl w') = fd_zero)"
proof -
  let ?w = "world_at one_agent (Sleep False) Poll False"
  have "stuck ?w" by (simp add: stuck_def one_agent_def fd_has_add FD_SETSIZE_def)
  then have "\<forall>w'. thread_step\<^sup>*\<^sup>* ?w w' \<longrightarrow>
      cpc w' = Sleep False \<and> fd_has (needconn (cl w')) 0 \<and> bigfs (cl w') = fd_zero"
    by (auto dest: stuck_steps simp: stuck_def)
  with run_sleep show ?thesis by blast
qed

theorem wakeup_can_be_lost_witness:
  "\<exists>w. reachable one_agent w \<and> cpc w = Sleep False \<and> fd_has (needconn (cl w)) 0"
proof -
  from wakeup_can_be_lost obtain w where "reachable one_agent w"
    "\<forall>w'. thread_step\<^sup>*\<^sup>* w w' \<longrightarrow>
     cpc w' = Sleep False \<and> fd_has (needconn (cl w')) 0 \<and> bigfs (cl w') = fd_zero" by blast
  then show ?thesis by blast
qed

theorem connection_states_witness:
  "fd_has (needconn one_agent) 0 \<noteq> fd_has (bigfs one_agent) 3"
  using connection_states [OF reachable.start one_agent_inv, of 0]
  by (simp add: one_agent_def fd_ok_def FD_SETSIZE_def replacing_def)

theorem threads_do_not_collide_witness:
  "fd_ok (sock_of up 0) \<and> fd_has (bigfs up) 3 \<and> \<not> fd_has (needconn up) 0"
proof -
  let ?w = "world_at up (Scan agent0 1) (Pass fd3 0) False"
  have "thread_step (world_at up (Scan agent0 1) Poll False) ?w"
    using thread_step.poll [of "world_at up (Scan agent0 1) Poll False" fd3] by (simp add: up_def)
  then have r: "reachable one_agent ?w" using run_connect by (rule reachable.step [rotated])
  have s: "sock_of up 0 = 3" "length (sys up) = 1" by (simp_all add: up_def one_agent_def)
  show ?thesis
    using threads_do_not_collide [OF r one_agent_inv]
    by (simp add: s FD_ISSET_def fd_ok_def FD_SETSIZE_def fd_has_add)
qed

theorem refused_agents_retried_witness:
  "waiting (world_at one_agent (Sleep False) Poll False) = 0 \<or>
    alreadyfailed (world_at one_agent (Sleep False) Poll False)"
  by (rule refused_agents_retried [OF run_sleep]) simp

end
