(* ===== verification/Linuxif.thy ===== *)
theory Linuxif
  imports CLib Wire
begin

text \<open>
  \<open>linuxif.c\<close>: what the agent learns of a network interface. \<open>manhandle\<close> lists the
  interfaces with one \<open>ioctl\<close>, looks the name up, and refines the entry it found with
  further calls, which write into the same \<open>struct ifreq\<close>. The kernel is a parameter;
  what its calls do to the entry is stated as hypotheses.
\<close>

section \<open>The entry of an interface\<close>

text \<open>
  \<open>ifr_ifru\<close> is a union: as \<open>ifr_addr\<close> its bytes are the family, the port and the
  address of a \<open>sockaddr_in\<close>; as \<open>ifr_hwaddr\<close> the family and the hardware address; as
  \<open>ifr_flags\<close> a \<open>short\<close>.
\<close>

record ifreq =
  ifr_name :: string
  ifr_ifru :: bytes

definition sin_addr_bytes :: "ifreq \<Rightarrow> bytes" where
  "sin_addr_bytes r = take 4 (drop 4 (ifr_ifru r))"

definition sa_data_mac :: "ifreq \<Rightarrow> bytes" where
  "sa_data_mac r = take 6 (drop 2 (ifr_ifru r))"

definition ifr_flags :: "endian \<Rightarrow> ifreq \<Rightarrow> u16" where
  "ifr_flags e r = load16 e (ifr_ifru r ! 0) (ifr_ifru r ! 1)"

text \<open>The results of the system calls: the new contents of the union, or \<open>errno\<close>.\<close>

record kernel =
  k_socket :: "int option"
  k_ifconf :: "int + ifreq list"
  k_hwaddr :: "ifreq \<Rightarrow> int + bytes"
  k_flags :: "ifreq \<Rightarrow> int + bytes"

section \<open>manhandle\<close>

text \<open>The five destinations: which of them the caller passes, and what is written there.\<close>

record wants =
  w_tmac :: bool
  w_bmac :: bool
  w_ip :: bool
  w_idx :: bool
  w_flags :: bool

record answers =
  a_tmac :: "string option"
  a_bmac :: "bytes option"
  a_ip :: "bytes option"
  a_idx :: "nat option"
  a_flags :: "u16 option"

definition no_answers :: answers where
  "no_answers = \<lparr>a_tmac = None, a_bmac = None, a_ip = None, a_idx = None, a_flags = None\<rparr>"

definition ENOENT :: int where "ENOENT = 2"

definition hex_digit :: "nat \<Rightarrow> char" where
  "hex_digit n = (''0123456789abcdef'' ! n)"

definition show_02x :: "u8 \<Rightarrow> string" where
  "show_02x b = [hex_digit (unat b div 16), hex_digit (unat b mod 16)]"

fun show_mac :: "bytes \<Rightarrow> string" where
  "show_mac [] = []"
| "show_mac [b] = show_02x b"
| "show_mac (b # bs) = show_02x b @ '':'' @ show_mac bs"

fun find_if :: "string \<Rightarrow> nat \<Rightarrow> ifreq list \<Rightarrow> (nat \<times> ifreq) option" where
  "find_if nm i [] = None"
| "find_if nm i (r # rs) = (if ifr_name r = nm then Some (i, r) else find_if nm (i + 1) rs)"

text \<open>
  The part behind the lookup. \<open>flags\<close> is written even when its call fails; the value
  returned is 0, or -1 when nothing was set.
\<close>

definition query_if :: "endian \<Rightarrow> kernel \<Rightarrow> wants \<Rightarrow> nat \<Rightarrow> ifreq \<Rightarrow> int \<times> answers" where
  "query_if e k w i r0 =
    (let hw = (if w_tmac w then k_hwaddr k r0 else Inr (ifr_ifru r0)) in
     case hw of Inl err \<Rightarrow> (err, no_answers)
     | Inr u1 \<Rightarrow>
        (let r1 = r0\<lparr>ifr_ifru := u1\<rparr>;
             tmac = (if w_tmac w then Some (show_mac (sa_data_mac r1)) else None);
             fl = (if w_flags w then k_flags k r1 else Inr u1);
             r2 = (case fl of Inl _ \<Rightarrow> r1 | Inr u2 \<Rightarrow> r1\<lparr>ifr_ifru := u2\<rparr>);
             flagset = (case fl of Inl _ \<Rightarrow> False | Inr _ \<Rightarrow> w_flags w);
             flags = (if w_flags w then Some (if flagset then ifr_flags e r2 else 0) else None);
             anything = (w_tmac w \<or> flagset \<or> w_ip w \<or> w_bmac w \<or> w_idx w)
         in (if anything then 0 else - 1,
             \<lparr>a_tmac = tmac, a_bmac = (if w_bmac w then Some (sa_data_mac r2) else None),
              a_ip = (if w_ip w then Some (sin_addr_bytes r2) else None),
              a_idx = (if w_idx w then Some i else None), a_flags = flags\<rparr>)))"

definition manhandle :: "endian \<Rightarrow> kernel \<Rightarrow> wants \<Rightarrow> string \<Rightarrow> int \<times> answers" where
  "manhandle e k w nm = (case k_socket k of Some err \<Rightarrow> (err, no_answers)
     | None \<Rightarrow> (case k_ifconf k of Inl err \<Rightarrow> (err, no_answers)
       | Inr ifs \<Rightarrow> (case find_if nm 0 ifs of None \<Rightarrow> (ENOENT, no_answers)
           | Some (i, r) \<Rightarrow> query_if e k w i r)))"

definition no_wants :: wants where
  "no_wants = \<lparr>w_tmac = False, w_bmac = False, w_ip = False, w_idx = False, w_flags = False\<rparr>"

definition gettmac :: "endian \<Rightarrow> kernel \<Rightarrow> string \<Rightarrow> int \<times> string option" where
  "gettmac e k nm = map_prod (\<lambda>r. r) a_tmac (manhandle e k (no_wants\<lparr>w_tmac := True\<rparr>) nm)"

definition getbmac :: "endian \<Rightarrow> kernel \<Rightarrow> string \<Rightarrow> int \<times> bytes option" where
  "getbmac e k nm = map_prod (\<lambda>r. r) a_bmac (manhandle e k (no_wants\<lparr>w_bmac := True\<rparr>) nm)"

definition getip :: "endian \<Rightarrow> kernel \<Rightarrow> bool \<Rightarrow> string \<Rightarrow> int \<times> bytes option \<times> u16 option" where
  "getip e k fl nm = map_prod (\<lambda>r. r) (\<lambda>a. (a_ip a, a_flags a))
     (manhandle e k (no_wants\<lparr>w_ip := True, w_flags := fl\<rparr>) nm)"

definition getidx :: "endian \<Rightarrow> kernel \<Rightarrow> string \<Rightarrow> int \<times> nat option" where
  "getidx e k nm = map_prod (\<lambda>r. r) a_idx (manhandle e k (no_wants\<lparr>w_idx := True\<rparr>) nm)"

section \<open>The lookup\<close>

lemma find_if_Some: "find_if nm i rs = Some (j, r) \<Longrightarrow>
    i \<le> j \<and> j < i + length rs \<and> rs ! (j - i) = r \<and> ifr_name r = nm \<and>
    (\<forall>n < j - i. ifr_name (rs ! n) \<noteq> nm)"
proof (induction rs arbitrary: i)
  case Nil
  then show ?case by simp
next
  case (Cons a rs)
  show ?case
  proof (cases "ifr_name a = nm")
    case True
    then show ?thesis using Cons.prems by auto
  next
    case False
    with Cons.prems have "find_if nm (i + 1) rs = Some (j, r)" by simp
    note IH = Cons.IH [OF this]
    have "ifr_name ((a # rs) ! n) \<noteq> nm" if "n < j - i" for n
      using that IH False by (cases n) auto
    with IH show ?thesis by (auto simp: nth_Cons')
  qed
qed

lemma find_if_None: "find_if nm i rs = None \<longleftrightarrow> (\<forall>r \<in> set rs. ifr_name r \<noteq> nm)"
  by (induction rs arbitrary: i) auto

text \<open>What the kernel documents: the flags overwrite only the first two bytes of the union.\<close>

definition flags_ioctl_ok :: "kernel \<Rightarrow> bool" where
  "flags_ioctl_ok k \<longleftrightarrow> (\<forall>r u. k_flags k r = Inr u \<longrightarrow> drop 2 u = drop 2 (ifr_ifru r))"

lemma sin_addr_bytes_flags:
  assumes "flags_ioctl_ok k" and "k_flags k r = Inr u"
  shows "sin_addr_bytes (r\<lparr>ifr_ifru := u\<rparr>) = sin_addr_bytes r"
proof -
  have "drop 2 u = drop 2 (ifr_ifru r)" using assms by (simp add: flags_ioctl_ok_def)
  then have "drop 2 (drop 2 u) = drop 2 (drop 2 (ifr_ifru r))" by simp
  then show ?thesis by (simp add: sin_addr_bytes_def)
qed

definition errno_ok :: "kernel \<Rightarrow> bool" where
  "errno_ok k \<longleftrightarrow> (\<forall>err. k_socket k = Some err \<or> k_ifconf k = Inl err \<longrightarrow> err > 0) \<and>
     (\<forall>r err. k_hwaddr k r = Inl err \<longrightarrow> err > 0)"

section \<open>Properties\<close>

text \<open>\<open>getip\<close> returns 0 exactly when the interfaces can be listed and one of them has the
  name; it then gives the address the first such entry was listed with, even when the
  call for the flags wrote into the same entry before, and 0 as the flags when that call
  failed.\<close>

theorem getip_result:
  assumes "flags_ioctl_ok k" and "errno_ok k"
  shows "(fst (getip e k fl nm) = 0 \<longleftrightarrow>
      k_socket k = None \<and> (\<exists>ifs. k_ifconf k = Inr ifs \<and> (\<exists>r \<in> set ifs. ifr_name r = nm))) \<and>
    (\<forall>ifs i r. k_socket k = None \<longrightarrow> k_ifconf k = Inr ifs \<longrightarrow> find_if nm 0 ifs = Some (i, r) \<longrightarrow>
      getip e k fl nm = (0, Some (sin_addr_bytes r), if fl then Some (case k_flags k r of
        Inl _ \<Rightarrow> 0 | Inr u \<Rightarrow> load16 e (u ! 0) (u ! 1)) else None))"
proof -
  have found: "getip e k fl nm = (0, Some (sin_addr_bytes r), if fl then Some (case k_flags k r of
        Inl _ \<Rightarrow> 0 | Inr u \<Rightarrow> load16 e (u ! 0) (u ! 1)) else None)"
    if "k_socket k = None" "k_ifconf k = Inr ifs" "find_if nm 0 ifs = Some (i, r)" for ifs i r
    using that sin_addr_bytes_flags [OF assms(1), of r]
    by (cases "k_flags k r") (auto simp: getip_def manhandle_def query_if_def no_wants_def Let_def
        ifr_flags_def)
  have "fst (getip e k fl nm) \<noteq> 0" if "k_socket k \<noteq> None \<or> (\<exists>err. k_ifconf k = Inl err) \<or>
      (\<exists>ifs. k_ifconf k = Inr ifs \<and> find_if nm 0 ifs = None)"
    using that assms(2)
    by (auto simp: getip_def manhandle_def errno_ok_def ENOENT_def split: option.splits sum.splits)
  then have "fst (getip e k fl nm) = 0 \<longleftrightarrow> k_socket k = None \<and>
      (\<exists>ifs. k_ifconf k = Inr ifs \<and> find_if nm 0 ifs \<noteq> None)"
    using found by (cases "k_ifconf k") fastforce+
  then show ?thesis using found by (simp add: find_if_None)
qed

text \<open>\<open>gettmac\<close> gives the hardware address the kernel reports, as six pairs of hexadecimal
  digits separated by colons: 17 characters, which fit the buffer of \<open>MACLEN\<close> with their
  terminator.\<close>

theorem gettmac_text:
  assumes "k_socket k = None" and "k_ifconf k = Inr ifs" and "find_if nm 0 ifs = Some (i, r)"
    and "k_hwaddr k r = Inr ([f0, f1, m0, m1, m2, m3, m4, m5] @ pad)"
  shows "gettmac e k nm = (0, Some (show_02x m0 @ '':'' @ show_02x m1 @ '':'' @ show_02x m2 @ '':'' @
      show_02x m3 @ '':'' @ show_02x m4 @ '':'' @ show_02x m5)) \<and>
    length (the (snd (gettmac e k nm))) = 17"
  using assms
  by (simp add: gettmac_def manhandle_def query_if_def no_wants_def Let_def sa_data_mac_def show_02x_def)

text \<open>\<open>getbmac\<close> never asks for the hardware address: whatever the kernel would answer, it
  copies six bytes of the protocol address the entry was listed with, the port followed by
  the IP address.\<close>

theorem getbmac_gives_ip:
  assumes "k_socket k = None" and "k_ifconf k = Inr ifs" and "find_if nm 0 ifs = Some (i, r)"
    and "ifr_ifru r = [f0, f1, p0, p1, a, b, c, d] @ pad"
  shows "getbmac e (k\<lparr>k_hwaddr := any_mac\<rparr>) nm = (0, Some [p0, p1, a, b, c, d])"
  using assms
  by (simp add: getbmac_def manhandle_def query_if_def no_wants_def Let_def sa_data_mac_def)

definition sample_if :: ifreq where
  "sample_if = \<lparr>ifr_name = ''eth1'', ifr_ifru = [2, 0, 0, 0, 10, 0, 0, 7, 0, 0, 0, 0, 0, 0, 0, 0]\<rparr>"

definition sample_kernel :: kernel where
  "sample_kernel = \<lparr>k_socket = None, k_ifconf = Inr [sample_if\<lparr>ifr_name := ''lo''\<rparr>, sample_if],
     k_hwaddr = (\<lambda>_. Inr ([1, 0, 2, 0, 0, 10, 11, 255] @ replicate 8 0)),
     k_flags = (\<lambda>r. Inr ([3, 16] @ drop 2 (ifr_ifru r)))\<rparr>"

theorem getip_result_witness:
  "getip Little sample_kernel True ''eth1'' = (0, Some [10, 0, 0, 7], Some 0x1003)"
proof -
  have h: "flags_ioctl_ok sample_kernel" "errno_ok sample_kernel"
    by (simp_all add: sample_kernel_def flags_ioctl_ok_def errno_ok_def)
  have "find_if ''eth1'' 0 [sample_if\<lparr>ifr_name := ''lo''\<rparr>, sample_if] = Some (1, sample_if)"
    by (simp add: sample_if_def)
  then show ?thesis
    using getip_result [OF h, of Little True "''eth1''"]
    by (simp add: sample_kernel_def sin_addr_bytes_def sample_if_def join2_def)
qed

theorem gettmac_text_witness:
  "gettmac Big sample_kernel ''eth1'' = (0, Some ''02:00:00:0a:0b:ff'')"
proof -
  have "find_if ''eth1'' 0 [sample_if\<lparr>ifr_name := ''lo''\<rparr>, sample_if] = Some (1, sample_if)"
    by (simp add: sample_if_def)
  then show ?thesis
    using gettmac_text [of sample_kernel "[sample_if\<lparr>ifr_name := ''lo''\<rparr>, sample_if]" "''eth1''" 1
        sample_if 1 0 2 0 0 10 11 255 "replicate 8 0" Big]
    by (simp add: sample_kernel_def show_02x_def hex_digit_def)
qed

theorem getbmac_gives_ip_witness:
  "getbmac Big (sample_kernel\<lparr>k_hwaddr := (\<lambda>_. Inr [1, 0, 2, 0, 0, 10, 11, 255])\<rparr>) ''eth1'' =
     (0, Some [0, 0, 10, 0, 0, 7])"
  by (rule getbmac_gives_ip [of _ "[sample_if\<lparr>ifr_name := ''lo''\<rparr>, sample_if]" _ 1 sample_if 2 0 _ _ _ _ _ _
        "replicate 8 0"])
    (simp_all add: sample_kernel_def sample_if_def numeral_eq_Suc)

end
