(* ===== verification/Delay.thy ===== *)
theory Delay
  imports CLib
begin

text \<open>\<open>delay.c\<close>: a countdown with one second between its lines.\<close>

definition delay_line :: "int \<Rightarrow> string" where
  "delay_line st = [CHR 0x0D, CHR 0x1B] @ ''[2KDelaying for '' @ show_int st @ '' second'' @
     (if st > 1 then ''s'' else []) @ ''...''"

function countdown :: "int \<Rightarrow> string list" where
  "countdown st = (if st > 0 then delay_line st # countdown (st - 1) else [])"
  by pat_completeness auto
termination
  by (relation "measure nat") auto

declare countdown.simps [simp del]

text \<open>The exit status and what is printed; each line of the countdown is followed by \<open>sleep(1)\<close>.\<close>

definition delay_main :: "string list \<Rightarrow> int \<times> string list" where
  "delay_main args = (case args of [a] \<Rightarrow>
       (if atoi a < 1 then (1, []) else (0, countdown (atoi a) @ [[CHR 0x0A]]))
     | _ \<Rightarrow> (1, []))"

lemma countdown_eq: "countdown (int n) = map (\<lambda>k. delay_line (int k)) (rev [1..<Suc n])"
proof (induction n)
  case 0
  then show ?case by (subst countdown.simps) simp
next
  case (Suc n)
  have "int (Suc n) - 1 = int n" by simp
  then show ?case using Suc by (subst countdown.simps) (simp add: rev_append)
qed

text \<open>With a number from 1 on as its only argument, the program prints one line for every
  second left, counting down to 1, then a newline, and succeeds.\<close>

theorem delay_counts_down:
  assumes "1 \<le> n" and "n < 2 ^ 31"
  shows "delay_main [show_nat n] =
    (0, map (\<lambda>k. delay_line (int k)) (rev [1..<Suc n]) @ [[CHR 0x0A]])"
  using assms countdown_eq [of n] atoi_show_nat [of "[]" n] by (simp add: delay_main_def)

theorem delay_counts_down_witness:
  "delay_main [''3''] = (0, [delay_line 3, delay_line 2, delay_line 1, [CHR 0x0A]])"
proof -
  have "show_nat 3 = ''3''" by code_simp
  moreover have "rev [1..<Suc 3] = [3, 2, 1]" by (simp add: upt_rec)
  ultimately show ?thesis using delay_counts_down [of 3] by simp
qed

end
