(* ===== verification/Winpos.thy ===== *)
theory Winpos
  imports CLib Complex_Main
begin

text \<open>
  Window geometry in \<open>mwmg.c\<close>: \<open>win_config\<close> tracks where a window is, \<open>main\<close> saves the
  positions when it ends and \<open>getwinpos\<close> reads them at the next start. Also \<open>roundup\<close>,
  which picks the top of a scale. The values \<open>roundup\<close> compares are exact in a double.
\<close>

section \<open>sscanf\<close>

text \<open>
  The formats \<open>getwinpos\<close> uses: \<open>%d\<close>, single characters, and a final newline, which
  matches any white space and never fails. The result is the numbers converted before
  the first directive that did not match.
\<close>

datatype scan_directive = Int_dir | Char_dir char

definition scan_int :: "string \<Rightarrow> (int \<times> string) option" where
  "scan_int s = (let t = dropWhile is_space s;
       neg = (t \<noteq> [] \<and> hd t = CHR ''-'');
       u = (if t \<noteq> [] \<and> (hd t = CHR ''-'' \<or> hd t = CHR ''+'') then tl t else t);
       ds = takeWhile is_digit u
     in if ds = [] then None else Some (atoi s, dropWhile is_digit u))"

fun scan :: "scan_directive list \<Rightarrow> string \<Rightarrow> int list" where
  "scan [] s = []"
| "scan (Int_dir # ds) s = (case scan_int s of None \<Rightarrow> [] | Some (i, r) \<Rightarrow> i # scan ds r)"
| "scan (Char_dir c # ds) s = (if s \<noteq> [] \<and> hd s = c then scan ds (tl s) else [])"

definition new_format :: "scan_directive list" where
  "new_format = [Int_dir, Char_dir (CHR ''=''), Int_dir, Char_dir (CHR ''x''), Int_dir,
     Char_dir (CHR ''+''), Int_dir, Char_dir (CHR ''+''), Int_dir]"

definition old_format :: "scan_directive list" where
  "old_format = [Int_dir, Char_dir (CHR ''=''), Int_dir, Char_dir (CHR '',''), Int_dir]"

section \<open>getwinpos\<close>

record geometry =
  px :: int
  py :: int
  pw :: int
  ph :: int

text \<open>The conversions assign as they go, also when the line turns out to be another window's.\<close>

definition assign_new :: "int list \<Rightarrow> geometry \<Rightarrow> geometry" where
  "assign_new vs g = g\<lparr>pw := (if length vs > 1 then vs ! 1 else pw g),
     ph := (if length vs > 2 then vs ! 2 else ph g),
     px := (if length vs > 3 then vs ! 3 else px g),
     py := (if length vs > 4 then vs ! 4 else py g)\<rparr>"

definition assign_old :: "int list \<Rightarrow> geometry \<Rightarrow> geometry" where
  "assign_old vs g = g\<lparr>px := (if length vs > 1 then vs ! 1 else px g),
     py := (if length vs > 2 then vs ! 2 else py g)\<rparr>"

text \<open>One line: whether it settles the search and with which result.\<close>

definition geometry_line :: "int \<Rightarrow> string \<Rightarrow> geometry \<Rightarrow> (int \<times> geometry) option \<times> geometry" where
  "geometry_line which l g = (let v5 = scan new_format l; g1 = assign_new v5 g in
     if length v5 = 5 then (if hd v5 = which then Some (1, g1) else None, g1)
     else (let v3 = scan old_format l; g2 = assign_old v3 g1 in
       if length v3 = 3 \<and> hd v3 = which then (Some (2, g2\<lparr>pw := 0, ph := 0\<rparr>), g2) else (None, g2)))"

function read_geometry :: "int \<Rightarrow> string \<Rightarrow> geometry \<Rightarrow> int \<times> geometry" where
  "read_geometry which f g = (case fgets BUFSIZ f of None \<Rightarrow> (0, g)
     | Some (l, r) \<Rightarrow> (case geometry_line which l g of
         (Some res, _) \<Rightarrow> res
       | (None, g') \<Rightarrow> read_geometry which r g'))"
  by pat_completeness auto
termination
  by (relation "measure (\<lambda>(w, f, g). length f)") (auto dest: fgets_shrinks)

declare read_geometry.simps [simp del]

text \<open>\<open>file\<close> is None when the file cannot be opened.\<close>

definition getwinpos :: "int \<Rightarrow> string option \<Rightarrow> geometry \<Rightarrow> int \<times> geometry" where
  "getwinpos which file g = (case file of None \<Rightarrow> (0, g) | Some f \<Rightarrow> read_geometry which f g)"

text \<open>What \<open>main\<close> writes when it ends.\<close>

definition save_line :: "nat \<Rightarrow> geometry \<Rightarrow> string" where
  "save_line i g = show_nat i @ ''='' @ show_int (pw g) @ ''x'' @ show_int (ph g) @ ''+'' @
     show_int (px g) @ ''+'' @ show_int (py g) @ [CHR 0x0A]"

definition save_file :: "geometry list \<Rightarrow> string" where
  "save_file gs = concat (map (\<lambda>(i, g). save_line i g) (enumerate 0 gs))"

section \<open>win_config\<close>

record track =
  ncfg :: int
  dx :: int
  dy :: int
  cx :: int
  cy :: int
  cw :: int
  ch :: int

record configure_event =
  ev_x :: int
  ev_y :: int
  ev_w :: int
  ev_h :: int
  send_event :: bool

definition track_init :: track where
  "track_init = \<lparr>ncfg = 0, dx = 0, dy = 0, cx = 0, cy = 0, cw = 0, ch = 0\<rparr>"

definition win_config :: "configure_event \<Rightarrow> track \<Rightarrow> track" where
  "win_config e w = (if ncfg w = 0 then w\<lparr>ncfg := ncfg w + 1, dx := ev_x e, dy := ev_y e\<rparr>
     else (let w1 = (if ncfg w = 1 \<and> send_event e
         then w\<lparr>ncfg := ncfg w + 1, dx := dx w - ev_x e, dy := dy w - ev_y e\<rparr> else w)
       in w1\<lparr>cx := ev_x e + dx w1, cy := ev_y e + dy w1, cw := ev_w e, ch := ev_h e\<rparr>))"

section \<open>roundup\<close>

text \<open>The inner loop over the multiples of a power of ten; the outer one over the powers.\<close>

fun round_digit :: "rat \<Rightarrow> rat \<Rightarrow> nat list \<Rightarrow> rat option" where
  "round_digit x rv [] = None"
| "round_digit x rv (i # is) = (if x \<le> of_nat i * rv then Some (of_nat i * rv) else round_digit x rv is)"

fun round_from :: "rat \<Rightarrow> rat \<Rightarrow> nat \<Rightarrow> rat" where
  "round_from x rv 0 = 10 * rv"
| "round_from x rv (Suc n) = (case round_digit x (rv * 10) [1..<10] of
     Some r \<Rightarrow> r | None \<Rightarrow> round_from x (rv * 10) n)"

definition roundup :: "rat \<Rightarrow> rat" where
  "roundup x = round_from x 1 12"

section \<open>Lemmas: reading back\<close>

definition int32 :: "int \<Rightarrow> bool" where
  "int32 i \<longleftrightarrow> - (2 ^ 31) \<le> i \<and> i < 2 ^ 31"

lemma digit_not_sign: "is_digit c \<Longrightarrow> \<not> is_space c \<and> c \<noteq> CHR ''-'' \<and> c \<noteq> CHR ''+''"
  by (auto simp: is_digit_def is_space_def)

lemma dropWhile_show_nat:
  "r = [] \<or> \<not> is_digit (hd r) \<Longrightarrow> dropWhile is_digit (show_nat n @ r) = r"
  using show_nat_digits [of n] by (cases r) (auto simp: dropWhile_append)

lemma scan_int_nat:
  assumes "r = [] \<or> \<not> is_digit (hd r)" and "n < 2 ^ 31"
  shows "scan_int (show_nat n @ r) = Some (int n, r)"
proof -
  obtain c cs where c: "show_nat n = c # cs" "is_digit c"
    using hd_show_nat [of n] by (cases "show_nat n") auto
  have "dropWhile is_space (show_nat n @ r) = show_nat n @ r"
    using c digit_not_sign [of c] by simp
  then show ?thesis
    using assms c digit_not_sign [of c] takeWhile_show_nat [OF assms(1), of n]
      dropWhile_show_nat [OF assms(1), of n] atoi_show_nat [OF assms]
    by (simp add: scan_int_def Let_def)
qed

lemma atoi_neg_show_nat:
  assumes "r = [] \<or> \<not> is_digit (hd r)" and "n \<le> 2 ^ 31"
  shows "atoi (CHR ''-'' # show_nat n @ r) = - int n"
proof (rule atoi_small)
  have "sign_split (CHR ''-'' # show_nat n @ r) = (True, show_nat n @ r)"
    by (simp add: sign_split_def is_space_def)
  then show "strtol10 (CHR ''-'' # show_nat n @ r) = - int n"
    using takeWhile_show_nat [OF assms(1), of n] assms(2) by (simp add: strtol10_def Let_def)
qed (use assms in auto)

lemma scan_int_show [simp]:
  assumes "r = [] \<or> \<not> is_digit (hd r)" and "int32 i"
  shows "scan_int (show_int i @ r) = Some (i, r)"
proof (cases "i < 0")
  case False
  then show ?thesis using scan_int_nat [OF assms(1), of "nat i"] assms(2)
    by (simp add: show_int_def int32_def nat_less_iff)
next
  case True
  then have n: "nat (- i) \<le> 2 ^ 31" "int (nat (- i)) = - i"
    using assms(2) by (simp_all add: int32_def nat_le_iff)
  show ?thesis
    using True takeWhile_show_nat [OF assms(1), of "nat (- i)"] atoi_neg_show_nat [OF assms(1) n(1)]
      dropWhile_show_nat [OF assms(1), of "nat (- i)"] n(2)
    by (simp add: show_int_def scan_int_def Let_def is_space_def)
qed

lemma show_int_chars:
  "CHR 0x0A \<notin> set (show_int i)" "CHR 0x00 \<notin> set (show_int i)"
  by (simp_all add: show_int_def)

lemma length_show_int: "int32 i \<Longrightarrow> length (show_int i) \<le> 21"
  using length_show_nat_u64 [of "nat i"] length_show_nat_u64 [of "nat (- i)"]
  by (auto simp: show_int_def int32_def nat_less_iff)

definition geometry_ok :: "geometry \<Rightarrow> bool" where
  "geometry_ok g \<longleftrightarrow> int32 (px g) \<and> int32 (py g) \<and> int32 (pw g) \<and> int32 (ph g)"

lemma scan_save_line:
  assumes "geometry_ok g" and "int i < 2 ^ 31"
  shows "scan new_format (save_line i g) = [int i, pw g, ph g, px g, py g]"
  using assms
  by (simp add: save_line_def new_format_def geometry_ok_def scan_int_nat is_digit_def)

lemma fgets_save_line:
  assumes "geometry_ok g" and "int i < 2 ^ 31"
  shows "fgets BUFSIZ (save_line i g @ r) = Some (save_line i g, r)"
proof -
  define l where "l = show_nat i @ ''='' @ show_int (pw g) @ ''x'' @ show_int (ph g) @ ''+'' @
     show_int (px g) @ ''+'' @ show_int (py g)"
  have l: "save_line i g = l @ [CHR 0x0A]" by (simp add: save_line_def l_def)
  have "length (show_nat i) \<le> 20" using assms(2) by (intro length_show_nat_u64) simp
  then have "length l + 2 \<le> BUFSIZ"
    using assms(1) length_show_int [of "pw g"] length_show_int [of "ph g"] length_show_int [of "px g"]
      length_show_int [of "py g"]
    by (simp add: l_def geometry_ok_def BUFSIZ_def)
  then show ?thesis
    using fgets_line [of l BUFSIZ r] show_int_chars by (simp add: l l_def)
qed

lemma read_geometry_skip:
  assumes "geometry_ok g1" and "int i < 2 ^ 31"
  shows "read_geometry which (save_line i g1 @ r) g =
    (if int i = which then (1, assign_new [int i, pw g1, ph g1, px g1, py g1] g)
     else read_geometry which r (assign_new [int i, pw g1, ph g1, px g1, py g1] g))"
  using fgets_save_line [OF assms] scan_save_line [OF assms]
  by (subst read_geometry.simps) (simp add: geometry_line_def Let_def)

lemma assign_new_all [simp]: "assign_new [i, w, h, x, y] g = \<lparr>px = x, py = y, pw = w, ph = h\<rparr>"
  by (cases g) (simp add: assign_new_def)

lemma read_geometry_enumerate:
  assumes "\<forall>g1 \<in> set gs. geometry_ok g1" and "int n + int (length gs) < 2 ^ 31" and "k < length gs"
  shows "read_geometry (int (n + k)) (concat (map (\<lambda>(i, g). save_line i g) (enumerate n gs))) g = (1, gs ! k)"
  using assms
proof (induction gs arbitrary: n k g)
  case Nil
  then show ?case by simp
next
  case (Cons g1 gs)
  have ok: "geometry_ok g1" "int n < 2 ^ 31" using Cons.prems by auto
  show ?case
  proof (cases k)
    case 0
    then show ?thesis using read_geometry_skip [OF ok] by simp
  next
    case (Suc m)
    have "read_geometry (int (Suc n + m)) (concat (map (\<lambda>(i, g). save_line i g) (enumerate (Suc n) gs))) g' =
        (1, gs ! m)" for g'
      using Cons.prems Suc by (intro Cons.IH) auto
    then show ?thesis using read_geometry_skip [OF ok] Suc by simp
  qed
qed

section \<open>Properties\<close>

text \<open>C40: the positions the program saves when it ends are the ones the next run finds: for each
  window \<open>getwinpos\<close> gives back its place and its size, negative coordinates included.\<close>

theorem positions_round_trip:
  assumes "\<forall>g \<in> set gs. geometry_ok g" and "length gs < 2 ^ 31" and "k < length gs"
  shows "getwinpos (int k) (Some (save_file gs)) g0 = (1, gs ! k)"
  using read_geometry_enumerate [of gs 0 k g0] assms by (simp add: getwinpos_def save_file_def)

text \<open>Once the window manager has reparented a window, its recorded place is corrected by the
  frame: it stays where it was asked to be, and every later event moves it by the
  displacement the event reports.\<close>

theorem config_events_track:
  assumes "send_event e1"
  shows "cx (win_config e1 (win_config e0 track_init)) = ev_x e0 \<and>
    cy (win_config e1 (win_config e0 track_init)) = ev_y e0 \<and>
    (let w = fold win_config es (win_config e1 (win_config e0 track_init)) in
      cx (win_config e w) = ev_x e0 + (ev_x e - ev_x e1) \<and>
      cy (win_config e w) = ev_y e0 + (ev_y e - ev_y e1) \<and>
      cw (win_config e w) = ev_w e \<and> ch (win_config e w) = ev_h e)"
proof -
  let ?w = "win_config e1 (win_config e0 track_init)"
  have w: "ncfg ?w = 2" "dx ?w = ev_x e0 - ev_x e1" "dy ?w = ev_y e0 - ev_y e1"
    "cx ?w = ev_x e0" "cy ?w = ev_y e0"
    using assms by (simp_all add: win_config_def track_init_def Let_def)
  have step: "ncfg (fold win_config es v) = 2 \<and> dx (fold win_config es v) = dx v \<and>
      dy (fold win_config es v) = dy v" if "ncfg v = 2" for v
    using that by (induction es arbitrary: v) (auto simp: win_config_def Let_def)
  show ?thesis using step [OF w(1)] w by (simp add: Let_def win_config_def)
qed

lemma round_digit_spec:
  "round_digit x rv is = Some r \<Longrightarrow> sorted is \<Longrightarrow> 0 < rv \<Longrightarrow>
    x \<le> r \<and> (\<exists>k \<in> set is. r = of_nat k * rv) \<and> (\<forall>k \<in> set is. x \<le> of_nat k * rv \<longrightarrow> r \<le> of_nat k * rv)"
  by (induction "is") (auto split: if_splits)

lemma round_digit_none: "round_digit x rv is = None \<longleftrightarrow> (\<forall>k \<in> set is. of_nat k * rv < x)"
  by (induction "is") (auto simp: not_le)

lemma round_from_spec:
  assumes "0 < rv" and "x \<le> 9 * (rv * 10 ^ n)" and "0 < n"
  shows "x \<le> round_from x rv n \<and>
    (\<exists>k b. 1 \<le> k \<and> k \<le> 9 \<and> 1 \<le> b \<and> b \<le> n \<and> round_from x rv n = of_nat k * (rv * 10 ^ b)) \<and>
    (\<forall>k b. 1 \<le> k \<longrightarrow> k \<le> 9 \<longrightarrow> 1 \<le> b \<longrightarrow> b \<le> n \<longrightarrow> x \<le> of_nat k * (rv * 10 ^ b) \<longrightarrow>
       round_from x rv n \<le> of_nat k * (rv * 10 ^ b))"
  using assms
proof (induction x rv n rule: round_from.induct)
  case (1 x rv)
  then show ?case by simp
next
  case (2 x rv n)
  show ?case
  proof (cases "round_digit x (rv * 10) [1..<10]")
    case (Some r)
    then have r: "x \<le> r" "\<exists>k. 1 \<le> k \<and> k \<le> 9 \<and> r = of_nat k * (rv * 10)"
      "\<And>k. 1 \<le> k \<Longrightarrow> k \<le> 9 \<Longrightarrow> x \<le> of_nat k * (rv * 10) \<Longrightarrow> r \<le> of_nat k * (rv * 10)"
      using round_digit_spec [OF Some] 2(2) by auto
    from r(2) obtain m where m: "1 \<le> m" "m \<le> 9" "r = of_nat m * (rv * 10)" by blast
    have le: "r \<le> of_nat k * (rv * 10 ^ b)" if kb: "1 \<le> k" "k \<le> 9" "1 \<le> b" "x \<le> of_nat k * (rv * 10 ^ b)" for k b
    proof (cases "b = 1")
      case True
      then show ?thesis using r(3) [of k] kb by simp
    next
      case False
      then obtain c where c: "b = Suc (Suc c)" using kb(3) by (cases b; cases "b - 1") auto
      have "(of_nat m :: rat) \<le> 10" using m(2) by (simp add: of_nat_le_iff [of m 9, simplified] order_trans)
      then have "r \<le> 10 * (rv * 10)" using m(3) 2(2) by (simp add: mult_right_mono)
      also have "10 * (rv * 10) \<le> rv * 10 ^ b"
        using 2(2) one_le_power [of "10 :: rat" c] by (simp add: c mult_left_mono)
      also have "rv * 10 ^ b \<le> of_nat k * (rv * 10 ^ b)"
        using kb(1) 2(2) mult_right_mono [of 1 "of_nat k :: rat" "rv * 10 ^ b"] by simp
      finally show ?thesis .
    qed
    have val: "round_from x rv (Suc n) = r" using Some by simp
    have "\<exists>k b. 1 \<le> k \<and> k \<le> 9 \<and> 1 \<le> b \<and> b \<le> Suc n \<and> r = of_nat k * (rv * 10 ^ b)"
      using m by (intro exI [of _ m] exI [of _ "1 :: nat"]) simp
    then show ?thesis unfolding val using r(1) le by blast
  next
    case None
    then have big: "\<And>k. 1 \<le> k \<Longrightarrow> k \<le> 9 \<Longrightarrow> of_nat k * (rv * 10) < x"
      by (auto simp: round_digit_none)
    have val: "round_from x rv (Suc n) = round_from x (rv * 10) n" using None by simp
    have n: "0 < n" using big [of 9] 2(3) by (cases n) auto
    have IH: "x \<le> round_from x (rv * 10) n \<and>
      (\<exists>k b. 1 \<le> k \<and> k \<le> 9 \<and> 1 \<le> b \<and> b \<le> n \<and> round_from x (rv * 10) n = of_nat k * (rv * 10 * 10 ^ b)) \<and>
      (\<forall>k b. 1 \<le> k \<longrightarrow> k \<le> 9 \<longrightarrow> 1 \<le> b \<longrightarrow> b \<le> n \<longrightarrow> x \<le> of_nat k * (rv * 10 * 10 ^ b) \<longrightarrow>
         round_from x (rv * 10) n \<le> of_nat k * (rv * 10 * 10 ^ b))"
      using 2(1) [OF None] 2(2,3) n by simp
    from IH obtain k b where kb: "1 \<le> k" "k \<le> 9" "1 \<le> b" "b \<le> n"
      "round_from x (rv * 10) n = of_nat k * (rv * 10 * 10 ^ b)" by blast
    then have "\<exists>k b. 1 \<le> k \<and> k \<le> 9 \<and> 1 \<le> b \<and> b \<le> Suc n \<and>
        round_from x (rv * 10) n = of_nat k * (rv * 10 ^ b)"
      by (intro exI [of _ k] exI [of _ "Suc b"]) auto
    moreover have "round_from x (rv * 10) n \<le> of_nat k * (rv * 10 ^ b)"
      if kb: "1 \<le> k" "k \<le> 9" "1 \<le> b" "b \<le> Suc n" "x \<le> of_nat k * (rv * 10 ^ b)" for k b
    proof (cases "b = 1")
      case True
      then show ?thesis using big [of k] kb by simp
    next
      case False
      then obtain c where "b = Suc c" "1 \<le> c" using kb(3) by (cases b) auto
      then show ?thesis using IH kb by (simp add: mult.assoc)
    qed
    ultimately show ?thesis unfolding val using IH by blast
  qed
qed

lemma roundup_spec:
  "if x \<le> 9 * 10 ^ 12
   then x \<le> roundup x \<and> (\<exists>k b. 1 \<le> k \<and> k \<le> 9 \<and> 1 \<le> b \<and> b \<le> 12 \<and> roundup x = of_nat k * 10 ^ b) \<and>
     (\<forall>k b. 1 \<le> k \<and> k \<le> 9 \<and> 1 \<le> b \<and> b \<le> 12 \<and> x \<le> of_nat k * 10 ^ b \<longrightarrow> roundup x \<le> of_nat k * 10 ^ b)
   else roundup x = 10 ^ 13"
proof (cases "x \<le> 9 * 10 ^ 12")
  case True
  then show ?thesis using round_from_spec [of 1 x 12] by (simp add: roundup_def)
next
  case False
  have "round_from x rv n = 10 ^ Suc n * rv" if "9 * (rv * 10 ^ n) < x" "0 < rv" for rv n
    using that
  proof (induction x rv n rule: round_from.induct)
    case (1 x rv)
    then show ?case by simp
  next
    case (2 x rv n)
    have "of_nat k * (rv * 10) < x" if "k \<in> set [1..<10]" for k
    proof -
      have "of_nat k * (rv * 10) \<le> 9 * (rv * 10)"
        using that 2(3) of_nat_le_iff [of k 9, where ?'a = rat] by (intro mult_right_mono) auto
      also have "\<dots> \<le> 9 * (rv * 10 ^ Suc n)"
        using 2(3) one_le_power [of "10 :: rat" n] by simp
      finally show ?thesis using 2(2) by (rule le_less_trans)
    qed
    then have none: "round_digit x (rv * 10) [1..<10] = None" by (simp only: round_digit_none) blast
    then show ?case using 2 by simp
  qed
  from this [of 1 12] False show ?thesis by (simp add: roundup_def)
qed

text \<open>Up to 9e12 the top of the scale is the smallest number of the form \<open>k * 10^b\<close>, with one
  digit \<open>k\<close> and \<open>b\<close> from 1 to 12, that is not below the value; a value beyond that gets
  1e13, which may be below it.\<close>

theorem roundup_least:
  "if x \<le> 9 * 10 ^ 12
   then x \<le> roundup x \<and> (\<exists>k b. 1 \<le> k \<and> k \<le> 9 \<and> 1 \<le> b \<and> b \<le> 12 \<and> roundup x = of_nat k * 10 ^ b) \<and>
     (\<forall>k b. 1 \<le> k \<and> k \<le> 9 \<and> 1 \<le> b \<and> b \<le> 12 \<and> x \<le> of_nat k * 10 ^ b \<longrightarrow> roundup x \<le> of_nat k * 10 ^ b)
   else roundup x = 10 ^ 13"
  by (rule roundup_spec)

theorem roundup_least_witness: "(25 :: rat) \<le> roundup 25 \<and> roundup 25 \<le> 30"
proof -
  have "(25 :: rat) \<le> roundup 25 \<and> (\<forall>k b. 1 \<le> k \<and> k \<le> 9 \<and> 1 \<le> b \<and> b \<le> 12 \<and>
      (25 :: rat) \<le> of_nat k * 10 ^ b \<longrightarrow> roundup 25 \<le> of_nat k * 10 ^ b)"
    using roundup_least [of 25] by simp
  from conjunct1 [OF this] conjunct2 [OF this, rule_format, of 3 1] show ?thesis by simp
qed

definition sample_geometry :: geometry where
  "sample_geometry = \<lparr>px = - 20, py = 40, pw = 250, ph = 300\<rparr>"

theorem positions_round_trip_witness:
  "getwinpos 1 (Some (save_file [sample_geometry, sample_geometry\<lparr>px := 7\<rparr>])) sample_geometry =
     (1, sample_geometry\<lparr>px := 7\<rparr>)"
  using positions_round_trip [of "[sample_geometry, sample_geometry\<lparr>px := 7\<rparr>]" 1]
  by (simp add: sample_geometry_def geometry_ok_def int32_def)

theorem config_events_track_witness:
  "cx (win_config \<lparr>ev_x = 5, ev_y = 5, ev_w = 10, ev_h = 10, send_event = True\<rparr>
     (win_config \<lparr>ev_x = 0, ev_y = 0, ev_w = 10, ev_h = 10, send_event = False\<rparr> track_init)) = 0"
  using config_events_track [of "\<lparr>ev_x = 5, ev_y = 5, ev_w = 10, ev_h = 10, send_event = True\<rparr>"] by simp

end
