(* ===== verification/Double.thy ===== *)
theory Double
  imports Complex_Main
begin

text \<open>
  The arithmetic of \<open>double\<close> on rationals: every operation is the exact one followed by
  \<open>dbl\<close>, which rounds to 53 significant bits, to nearest, ties to even. The range of the
  exponent is not bounded: what the grapher computes stays between 1e-20 and 1e25.
\<close>

section \<open>Rounding\<close>

function ilog2 :: "rat \<Rightarrow> int" where
  "ilog2 x = (if x \<le> 0 then 0
     else if x \<ge> 2 then ilog2 (x / 2) + 1
     else if x < 1 then ilog2 (2 * x) - 1 else 0)"
  by pat_completeness auto
termination
proof (relation "measure (\<lambda>x. if x < 1 then nat \<lfloor>1 / x\<rfloor> + 1 else nat \<lfloor>x\<rfloor>)")
  fix x :: rat
  assume "\<not> x \<le> 0" "2 \<le> x"
  moreover from this have "\<lfloor>x / 2\<rfloor> < \<lfloor>x\<rfloor>" by linarith
  ultimately show "(x / 2, x) \<in> measure (\<lambda>x. if x < 1 then nat \<lfloor>1 / x\<rfloor> + 1 else nat \<lfloor>x\<rfloor>)"
    by (auto simp: nat_less_iff)
next
  fix x :: rat
  assume x: "\<not> x \<le> 0" "\<not> 2 \<le> x" "x < 1"
  then have inv: "1 < 1 / x" "1 / (2 * x) + 1 / (2 * x) = 1 / x" by (auto simp: field_simps)
  have "\<lfloor>1 / (2 * x)\<rfloor> < \<lfloor>1 / x\<rfloor>" if "2 * x < 1"
  proof -
    have "1 < 1 / (2 * x)" using that x by (auto simp: field_simps)
    then show ?thesis using inv by linarith
  qed
  moreover have "\<lfloor>2 * x\<rfloor> = 1" if "\<not> 2 * x < 1" using that x by linarith
  moreover have "1 \<le> \<lfloor>1 / x\<rfloor>" using inv by linarith
  ultimately show "(2 * x, x) \<in> measure (\<lambda>x. if x < 1 then nat \<lfloor>1 / x\<rfloor> + 1 else nat \<lfloor>x\<rfloor>)"
    using x by (auto simp: nat_less_iff)
qed simp

declare ilog2.simps [simp del]

definition round_even :: "rat \<Rightarrow> int" where
  "round_even x = (let n = \<lfloor>x\<rfloor>; f = x - of_int n in
     if f < 1 / 2 \<or> (f = 1 / 2 \<and> even n) then n else n + 1)"

definition dbl :: "rat \<Rightarrow> rat" where
  "dbl x = (if x = 0 then 0
     else let u = 2 powi (ilog2 \<bar>x\<bar> - 52) in of_int (round_even (x / u)) * u)"

lemma ilog2_bounds: "0 < x \<Longrightarrow> 2 powi (ilog2 x) \<le> x \<and> x < 2 powi (ilog2 x + 1)"
proof (induction x rule: ilog2.induct)
  case (1 x)
  consider "2 \<le> x" | "x < 1" | "1 \<le> x" "x < 2" by linarith
  then show ?case
  proof cases
    case 1
    then have "ilog2 x = ilog2 (x / 2) + 1" using ilog2.simps [of x] by simp
    then show ?thesis using "1.IH"(1) "1.prems" 1 by (simp add: power_int_add)
  next
    case 2
    then have e: "ilog2 x = ilog2 (2 * x) - 1" using ilog2.simps [of x] "1.prems" by simp
    have "2 powi ilog2 (2 * x) \<le> 2 * x \<and> 2 * x < 2 powi (ilog2 (2 * x) + 1)"
      using "1.IH"(2) "1.prems" 2 by simp
    then show ?thesis by (simp add: e power_int_add power_int_diff)
  next
    case 3
    then have "ilog2 x = 0" using ilog2.simps [of x] by simp
    then show ?thesis using 3 by simp
  qed
qed

lemma powi_mono2: "a \<le> b \<Longrightarrow> (2 :: rat) powi a \<le> 2 powi b"
  by (rule power_int_increasing) simp_all

lemma ilog2_mono: "0 < x \<Longrightarrow> x \<le> y \<Longrightarrow> ilog2 x \<le> ilog2 y"
proof (rule ccontr)
  assume h: "0 < x" "x \<le> y" "\<not> ilog2 x \<le> ilog2 y"
  then have "(2 :: rat) powi (ilog2 y + 1) \<le> 2 powi ilog2 x" by (intro powi_mono2) simp
  with ilog2_bounds [of x] ilog2_bounds [of y] h show False by linarith
qed

lemma round_even_error: "\<bar>of_int (round_even x) - x\<bar> \<le> 1 / 2"
proof -
  have "of_int \<lfloor>x\<rfloor> \<le> x" "x < of_int \<lfloor>x\<rfloor> + 1" by linarith+
  then show ?thesis unfolding round_even_def Let_def by (auto simp: abs_le_iff)
qed

lemma round_even_of_int [simp]: "round_even (of_int n) = n"
  by (simp add: round_even_def)

lemma round_even_near: "\<bar>x - of_int n\<bar> < 1 / 2 \<Longrightarrow> round_even x = n"
proof -
  assume "\<bar>x - of_int n\<bar> < 1 / 2"
  then have "\<bar>of_int (round_even x) - (of_int n :: rat)\<bar> < 1" using round_even_error [of x] by linarith
  then show ?thesis by linarith
qed

lemma round_even_mono: "x \<le> y \<Longrightarrow> round_even x \<le> round_even y"
proof -
  assume h: "x \<le> y"
  then have "\<lfloor>x\<rfloor> = \<lfloor>y\<rfloor> \<or> \<lfloor>x\<rfloor> + 1 \<le> \<lfloor>y\<rfloor>" using floor_mono [of x y] by linarith
  then show ?thesis using h by (auto simp: round_even_def Let_def)
qed

section \<open>What rounding keeps\<close>

lemma dbl_0 [simp]: "dbl 0 = 0"
  by (simp add: dbl_def)

lemma dbl_unit: "x \<noteq> 0 \<Longrightarrow> dbl x = of_int (round_even (x / 2 powi (ilog2 \<bar>x\<bar> - 52))) * 2 powi (ilog2 \<bar>x\<bar> - 52)"
  by (simp add: dbl_def Let_def)

text \<open>A number of at most 53 bits, at any scale, is kept.\<close>

lemma dbl_exact:
  assumes "\<bar>m\<bar> \<le> 2 ^ 53" and "x = of_int m * 2 powi k"
  shows "dbl x = x"
proof (cases "m = 0")
  case False
  define e where "e = ilog2 \<bar>x\<bar>"
  have x: "x \<noteq> 0" "\<bar>x\<bar> = of_int \<bar>m\<bar> * 2 powi k" using False assms(2) by (auto simp: abs_mult)
  have b: "2 powi e \<le> \<bar>x\<bar>" "\<bar>x\<bar> < 2 powi (e + 1)" using ilog2_bounds [of "\<bar>x\<bar>"] x(1) by (auto simp: e_def)
  have "(of_int \<bar>m\<bar> :: rat) \<le> of_int (2 ^ 53)" using assms(1) by linarith
  then have "2 powi e \<le> (2 powi 53 * 2 powi k :: rat)"
  proof -
    have "2 powi e \<le> of_int \<bar>m\<bar> * (2 powi k :: rat)" using b(1) unfolding x(2) .
    also have "\<dots> \<le> of_int (2 ^ 53) * (2 powi k :: rat)"
      using \<open>of_int \<bar>m\<bar> \<le> of_int (2 ^ 53)\<close> by (rule mult_right_mono) simp
    finally show ?thesis by simp
  qed
  then have "(2 :: rat) powi e \<le> 2 powi (53 + k)" by (simp add: power_int_add)
  then have "e \<le> 53 + k" by (metis less_le_not_le one_less_numeral_iff power_int_strict_increasing
      rel_simps(76) semiring_norm(76) linorder_not_le)
  then consider "e \<le> 52 + k" | "e = 53 + k" by linarith
  then obtain n where n: "x / 2 powi (e - 52) = of_int n"
  proof cases
    case 1
    have "x / 2 powi (e - 52) = of_int m * 2 powi (k + 52 - e)"
      by (simp add: assms(2) power_int_diff power_int_add field_simps)
    also have "\<dots> = of_int (m * 2 ^ nat (k + 52 - e))"
      using 1 by (simp add: power_int_nonneg_exp)
    finally show ?thesis using that by blast
  next
    case 2
    have "(2 :: rat) powi e = 2 ^ 53 * 2 powi k" by (simp add: 2 power_int_add)
    then have "of_int (2 ^ 53) \<le> (of_int \<bar>m\<bar> :: rat)" using b(1) unfolding x(2) by simp
    then have "2 ^ 53 \<le> \<bar>m\<bar>" unfolding of_int_le_iff .
    then have "\<bar>m\<bar> = 2 ^ 53" using assms(1) by linarith
    then have "m = 2 ^ 53 \<or> m = - (2 ^ 53)" by linarith
    then have "x / 2 powi (e - 52) = of_int (2 ^ 52) \<or> x / 2 powi (e - 52) = of_int (- (2 ^ 52))"
      by (auto simp: assms(2) 2 power_int_diff power_int_add)
    then show ?thesis using that by blast
  qed
  have "dbl x = of_int n * 2 powi (e - 52)" unfolding dbl_unit [OF x(1)] by (simp add: n flip: e_def)
  also have "\<dots> = x" unfolding n [symmetric] by simp
  finally show ?thesis .
qed (simp add: assms)

lemma dbl_of_int [simp]: "\<bar>n\<bar> \<le> 2 ^ 53 \<Longrightarrow> dbl (of_int n) = of_int n"
  by (rule dbl_exact [where k = 0]) simp_all

lemma dbl_of_nat: "n \<le> 2 ^ 53 \<Longrightarrow> dbl (of_nat n) = of_nat n"
proof -
  assume "n \<le> 2 ^ 53"
  then have "\<bar>int n\<bar> \<le> int (2 ^ 53)" by (simp only: abs_of_nat of_nat_le_iff)
  then show ?thesis using dbl_of_int [of "int n"] by simp
qed

lemma dbl_powi [simp]: "dbl (2 powi k) = 2 powi k"
  by (rule dbl_exact [where m = 1 and k = k]) simp_all

lemma dbl_nonneg: "0 \<le> x \<Longrightarrow> 0 \<le> dbl x"
proof (cases "x = 0")
  case False
  assume "0 \<le> x"
  then have "round_even 0 \<le> round_even (x / 2 powi (ilog2 \<bar>x\<bar> - 52))" by (intro round_even_mono) simp
  then show ?thesis using round_even_of_int [of 0] dbl_unit [OF False] by simp
qed simp

text \<open>What has been rounded is not changed by rounding again.\<close>

lemma dbl_idem [simp]: "0 \<le> x \<Longrightarrow> dbl (dbl x) = dbl x"
proof (cases "x = 0")
  case False
  assume "0 \<le> x"
  define u :: rat where "u = 2 powi (ilog2 \<bar>x\<bar> - 52)"
  have "0 < u" "\<bar>x\<bar> < 2 ^ 53 * u" using ilog2_bounds [of "\<bar>x\<bar>"] False
    by (auto simp: u_def power_int_diff power_int_add)
  then have "0 \<le> x / u" "x / u \<le> of_int (2 ^ 53)" using \<open>0 \<le> x\<close> by (auto simp: pos_divide_le_eq)
  then have "0 \<le> round_even (x / u)" "round_even (x / u) \<le> 2 ^ 53"
    using round_even_mono [of 0 "x / u"] round_even_mono [of "x / u" "of_int (2 ^ 53)"] round_even_of_int [of 0]
    by (simp_all del: of_int_power of_int_numeral)
  then show ?thesis
    by (intro dbl_exact [of "round_even (x / u)" _ "ilog2 \<bar>x\<bar> - 52"]) (simp_all add: dbl_unit [OF False] u_def)
qed simp

text \<open>Between two powers of two rounding stays within them.\<close>

lemma dbl_bracket:
  assumes "0 < x"
  shows "2 powi (ilog2 x) \<le> dbl x \<and> dbl x \<le> 2 powi (ilog2 x + 1)"
proof -
  define u :: rat where "u = 2 powi (ilog2 x - 52)"
  have u: "0 < u" "of_int (2 ^ 52) * u = 2 powi (ilog2 x)" "of_int (2 ^ 53) * u = 2 powi (ilog2 x + 1)"
    by (auto simp: u_def power_int_diff power_int_add)
  have "of_int (2 ^ 52) \<le> x / u" "x / u \<le> of_int (2 ^ 53)"
    using ilog2_bounds [OF assms] u by (auto simp: pos_le_divide_eq pos_divide_le_eq)
  then have "2 ^ 52 \<le> round_even (x / u)" "round_even (x / u) \<le> 2 ^ 53"
    using round_even_mono [of "of_int (2 ^ 52)" "x / u"] round_even_mono [of "x / u" "of_int (2 ^ 53)"]
    by (simp_all del: of_int_power of_int_numeral)
  then have "of_int (2 ^ 52) \<le> (of_int (round_even (x / u)) :: rat)"
    "(of_int (round_even (x / u)) :: rat) \<le> of_int (2 ^ 53)" by linarith+
  then have "of_int (2 ^ 52) * u \<le> of_int (round_even (x / u)) * u"
    "of_int (round_even (x / u)) * u \<le> of_int (2 ^ 53) * u"
    using u(1) by (auto intro: mult_right_mono)
  then have "2 powi (ilog2 x) \<le> of_int (round_even (x / u)) * u \<and> of_int (round_even (x / u)) * u \<le> 2 powi (ilog2 x + 1)"
    unfolding u by blast
  then show ?thesis using dbl_unit [of x] assms by (simp add: u_def)
qed

lemma dbl_mono: "0 \<le> x \<Longrightarrow> x \<le> y \<Longrightarrow> dbl x \<le> dbl y"
proof (cases "x = 0")
  case False
  assume h: "0 \<le> x" "x \<le> y"
  with False have pos: "0 < x" "0 < y" by auto
  show ?thesis
  proof (cases "ilog2 x = ilog2 y")
    case True
    then have "round_even (x / 2 powi (ilog2 x - 52)) \<le> round_even (y / 2 powi (ilog2 x - 52))"
      using h by (intro round_even_mono) (simp add: divide_right_mono)
    then show ?thesis using dbl_unit [of x] dbl_unit [of y] pos True by (simp add: mult_right_mono)
  next
    case False
    then have "ilog2 x + 1 \<le> ilog2 y" using ilog2_mono [OF pos(1) h(2)] by simp
    then have "(2 :: rat) powi (ilog2 x + 1) \<le> 2 powi (ilog2 y)" by (rule powi_mono2)
    then show ?thesis using dbl_bracket [OF pos(1)] dbl_bracket [OF pos(2)] by linarith
  qed
qed (simp add: dbl_nonneg)

lemma dbl_pos: "0 < x \<Longrightarrow> 0 < dbl x"
  using dbl_bracket [of x] zero_less_power_int [of "2 :: rat" "ilog2 x"] by linarith

definition eps :: rat where "eps = 1 / 2 ^ 53"

lemma dbl_error: "0 \<le> x \<Longrightarrow> \<bar>dbl x - x\<bar> \<le> x * eps"
proof (cases "x = 0")
  case False
  assume "0 \<le> x"
  with False have pos: "0 < x" by simp
  define u :: rat where "u = 2 powi (ilog2 x - 52)"
  have u: "0 < u" "u / 2 \<le> x * eps"
    using ilog2_bounds [OF pos] by (auto simp: u_def eps_def power_int_diff power_int_add)
  have "dbl x - x = (of_int (round_even (x / u)) - x / u) * u"
    using dbl_unit [of x] pos u(1) by (simp add: u_def field_simps)
  then have "\<bar>dbl x - x\<bar> = \<bar>of_int (round_even (x / u)) - x / u\<bar> * u" using u(1) by (simp add: abs_mult)
  also have "\<dots> \<le> 1 / 2 * u" using round_even_error u(1) by (intro mult_right_mono) auto
  finally show ?thesis using u(2) by simp
qed simp

lemma dbl_upper: "0 \<le> x \<Longrightarrow> dbl x \<le> x * (1 + eps)"
  and dbl_lower: "0 \<le> x \<Longrightarrow> x * (1 - eps) \<le> dbl x"
  using dbl_error [of x] by (simp_all add: abs_le_iff algebra_simps)

section \<open>Accumulated rounding\<close>

text \<open>\<open>near q a b\<close>: \<open>a\<close> and \<open>b\<close> differ by at most \<open>q\<close> roundings, a distance that operations add up.\<close>

definition near :: "nat \<Rightarrow> rat \<Rightarrow> rat \<Rightarrow> bool" where
  "near q a b \<longleftrightarrow> 0 \<le> a \<and> 0 \<le> b \<and> a * (1 - eps) ^ q \<le> b \<and> b * (1 - eps) ^ q \<le> a"

lemma eps_bounds: "0 < eps" "eps < 1 / 2 ^ 50" "0 < 1 - eps" "1 - eps \<le> 1"
  by (simp_all add: eps_def)

lemma near_refl: "0 \<le> a \<Longrightarrow> near q a a"
  using eps_bounds by (simp add: near_def mult_left_le power_le_one)

lemma near_sym: "near q a b \<Longrightarrow> near q b a"
  by (auto simp: near_def)

lemma near_trans: "near q a b \<Longrightarrow> near r b c \<Longrightarrow> near (q + r) a c"
proof -
  assume h: "near q a b" "near r b c"
  have p: "0 \<le> (1 - eps) ^ n" for n using eps_bounds by simp
  have "a * (1 - eps) ^ q * (1 - eps) ^ r \<le> b * (1 - eps) ^ r" "c * (1 - eps) ^ r * (1 - eps) ^ q \<le> b * (1 - eps) ^ q"
    using h p by (auto simp: near_def intro: mult_right_mono)
  then show ?thesis using h by (auto simp: near_def power_add mult.assoc mult.commute [of "(1 - eps) ^ r"])
qed

lemma near_mono: "near q a b \<Longrightarrow> q \<le> r \<Longrightarrow> near r a b"
  using near_trans [of q a b "r - q" b] near_refl [of b "r - q"] by (auto simp: near_def)

lemma near_dbl: "0 \<le> a \<Longrightarrow> near 1 (dbl a) a"
proof -
  assume a: "0 \<le> a"
  have "dbl a * (1 - eps) \<le> a * (1 + eps) * (1 - eps)"
    using dbl_upper [OF a] eps_bounds by (intro mult_right_mono) auto
  also have "\<dots> = a * (1 - eps * eps)" by (simp add: algebra_simps)
  also have "\<dots> \<le> a" using a eps_bounds by (simp add: mult_left_le)
  finally show ?thesis using a dbl_nonneg [OF a] dbl_lower [OF a] by (simp add: near_def)
qed

lemma near_round: "near q a b \<Longrightarrow> near (Suc q) (dbl a) b"
  using near_trans [OF near_dbl [of a], of q b] by (auto simp: near_def)

lemma near_add: "near q a b \<Longrightarrow> near q c d \<Longrightarrow> near q (a + c) (b + d)"
  by (auto simp: near_def distrib_right)

lemma near_mult: "near q a b \<Longrightarrow> 0 \<le> c \<Longrightarrow> near q (a * c) (b * c)"
  using mult_right_mono [of "a * (1 - eps) ^ q" b c] mult_right_mono [of "b * (1 - eps) ^ q" a c]
  by (simp add: near_def mult.assoc mult.commute [of c])

lemma near_divide: "near q a b \<Longrightarrow> 0 \<le> c \<Longrightarrow> near q (a / c) (b / c)"
  using near_mult [of q a b "1 / c"] by simp

lemma near_inverse: "near q a b \<Longrightarrow> 0 < a \<Longrightarrow> 0 < b \<Longrightarrow> near q (1 / a) (1 / b)"
  by (auto simp: near_def field_simps)

lemma near_quotient:
  assumes "near q a b" and "near r c d" and "0 < c" "0 < d"
  shows "near (q + r) (a / c) (b / d)"
proof -
  have "near q (a / c) (b / c)" using assms by (intro near_divide) auto
  moreover have "near r (1 / c * b) (1 / d * b)"
    using assms by (intro near_mult near_inverse) (auto simp: near_def)
  ultimately show ?thesis using near_trans [of q "a / c" "b / c" r "b / d"] by simp
qed

text \<open>A sum in a loop adds one rounding per term.\<close>

lemma near_sum:
  "\<forall>x \<in> set xs. near q (f x) (h x) \<Longrightarrow> near (q + n) a b \<Longrightarrow>
    near (q + n + length xs) (fold (\<lambda>x acc. dbl (acc + f x)) xs a) (b + sum_list (map h xs))"
proof (induction xs arbitrary: a b n)
  case (Cons x xs)
  have "near (q + n) (a + f x) (b + h x)"
    using Cons.prems near_mono [of q "f x" "h x" "q + n"] by (intro near_add) auto
  then have "near (q + Suc n) (dbl (a + f x)) (b + h x)" using near_round by simp
  then show ?case using Cons.IH [of "Suc n" "dbl (a + f x)" "b + h x"] Cons.prems by (simp add: add_ac)
qed simp

lemma near_sum2:
  "\<forall>x \<in> set xs. near q (f x) (h x) \<and> near q (f' x) (h' x) \<Longrightarrow> near (q + n) a b \<Longrightarrow>
    near (q + n + 2 * length xs) (fold (\<lambda>x acc. dbl (dbl (acc + f x) + f' x)) xs a)
      (b + sum_list (map h xs) + sum_list (map h' xs))"
proof (induction xs arbitrary: a b n)
  case (Cons x xs)
  have "near (q + n) (a + f x) (b + h x)"
    using Cons.prems near_mono [of q "f x" "h x" "q + n"] by (intro near_add) auto
  then have "near (q + Suc n) (dbl (a + f x)) (b + h x)" using near_round by simp
  then have "near (q + Suc n) (dbl (a + f x) + f' x) (b + h x + h' x)"
    using Cons.prems near_mono [of q "f' x" "h' x" "q + Suc n"] by (intro near_add) auto
  then have "near (q + Suc (Suc n)) (dbl (dbl (a + f x) + f' x)) (b + h x + h' x)" using near_round by simp
  then show ?case using Cons.IH [of "Suc (Suc n)" "dbl (dbl (a + f x) + f' x)" "b + h x + h' x"] Cons.prems
    by (simp add: add_ac)
qed simp

lemma power_eps: "1 - of_nat n * eps \<le> (1 - eps) ^ n"
proof (induction n)
  case (Suc n)
  have "1 - of_nat (Suc n) * eps \<le> (1 - of_nat n * eps) * (1 - eps)"
    using eps_bounds by (simp add: algebra_simps)
  also have "\<dots> \<le> (1 - eps) ^ n * (1 - eps)" using Suc eps_bounds by (intro mult_right_mono) auto
  finally show ?case by (simp add: mult.commute)
qed simp

text \<open>\<open>n\<close> roundings of a value up to \<open>D\<close> stay below \<open>D + 1\<close>, if \<open>n * (D + 1)\<close> is below 2^53.\<close>

lemma near_int_bound:
  assumes "near n a b" and "b \<le> of_int D" and "0 \<le> D" and "of_nat n * (of_int D + 1) * eps \<le> 1"
  shows "a \<le> of_int D + 1"
proof -
  have le: "a * (1 - eps) ^ n \<le> of_int D" using assms(1,2) by (simp add: near_def)
  have "(of_int D + 1) * (1 - of_nat n * eps) \<le> (of_int D + 1) * (1 - eps) ^ n"
    using power_eps assms(3) by (intro mult_left_mono) auto
  moreover have "of_int D \<le> (of_int D + 1) * (1 - of_nat n * eps)"
    using assms(4) by (simp add: algebra_simps)
  ultimately have "a * (1 - eps) ^ n \<le> (of_int D + 1) * (1 - eps) ^ n" using le by linarith
  then show ?thesis using eps_bounds by (simp add: mult_le_cancel_right)
qed

end
