(* ===== verification/Screen.thy ===== *)
theory Screen
  imports Grapher Winpos Double "HOL-Library.Signed_Division"
begin

text \<open>
  What the drawing routines of \<open>mwmg.c\<close> share: the geometry of a window's two drawing
  areas, the calls to GDK as values, and the labelled vertical axis (\<open>drawymarks\<close>). The
  widths and heights GTK and the font give are parameters, the fields of \<open>screen\<close>.
  Coordinates are \<open>int\<close>; a \<open>double\<close> handed to GDK is truncated.
\<close>

section \<open>Geometry\<close>

datatype unit_label = Bits | Reqs | Bytes | Percent | Usec

text \<open>
  The part of \<open>struct win\<close> that concerns drawing; the functions take the number of the
  drawing area, 0 for the upper and 1 for the lower. \<open>aw\<close> and \<open>ah\<close> are its allocation.
\<close>

record view =
  aw :: "nat \<Rightarrow> int"
  ah :: "nat \<Rightarrow> int"
  rm :: "nat \<Rightarrow> int"
  sperpx :: int
  maxes :: "nat \<Rightarrow> u32"

record screen =
  cwidth :: int
  cheight :: int
  text_width :: "string \<Rightarrow> int"
  text_height :: "string \<Rightarrow> int"
  label_height :: "unit_label \<Rightarrow> int"
  gauge :: bool
  interval :: int
  requests :: bool
  whens :: "string list"
  views :: "view list"

definition M_LEFT :: "screen \<Rightarrow> int" where "M_LEFT s = 4 * cwidth s + 1"
definition M_RIGHT :: "screen \<Rightarrow> int" where "M_RIGHT s = 1 + cheight s"
definition M_TOP :: "screen \<Rightarrow> int" where "M_TOP s = cheight s sdiv 2"
definition M_BOT :: "screen \<Rightarrow> int" where "M_BOT s = cheight s"
definition NYMARKS :: int where "NYMARKS = 5"
definition TSINTER :: int where "TSINTER = 180"

text \<open>\<open>gauge ? 1 : interval\<close>\<close>

definition per_tick :: "screen \<Rightarrow> int" where
  "per_tick s = (if gauge s then 1 else interval s)"

section \<open>The calls to GDK\<close>

text \<open>
  A graphics context: that of a widget's style, or that of window \<open>k\<close>, whose colour
  \<open>Fg\<close> sets. The calls of one redraw go to the same pixmap; \<open>Copy\<close> shows it.
\<close>

datatype paint = White | Black | Gc nat
datatype colour = Gray | Col nat nat

datatype cmd =
    Fill paint int int int int
  | Frame paint int int int int
  | Seg paint int int int int
  | Txt int int string
  | Pix unit_label int int
  | Fg nat colour
  | Copy

definition trunc :: "rat \<Rightarrow> int" where
  "trunc x = (if x < 0 then \<lceil>x\<rceil> else \<lfloor>x\<rfloor>)"

definition dword :: "u64 \<Rightarrow> rat" where
  "dword w = dbl (of_nat (unat w))"

text \<open>A sample; None outside the arrays.\<close>

definition peek :: "win list \<Rightarrow> nat \<Rightarrow> int \<Rightarrow> u64 option" where
  "peek ws k i = (if k < length ws \<and> 0 \<le> i \<and> i < int (length (samps (ws ! k)))
     then Some (samps (ws ! k) ! nat i) else None)"

section \<open>drawymarks\<close>

text \<open>\<open>%3.3f\<close> of a number that is not negative: three decimals, rounded to even.\<close>

definition show_3f :: "rat \<Rightarrow> string" where
  "show_3f x = (let n = nat (round_even (1000 * x)) in
     show_nat (n div 1000) @ ''.'' @ zero_pad 3 (show_nat (n mod 1000)))"

text \<open>\<open>strcpy(&str[3], unit)\<close>\<close>

definition cut3 :: "string \<Rightarrow> string \<Rightarrow> string" where
  "cut3 t u = take 3 t @ u"

text \<open>\<open>%4g\<close>: the marks are integral (\<open>mark_integral\<close>), and below 1024 such a number is
  printed with all its digits, in four columns.\<close>

definition show_4g :: "rat \<Rightarrow> string" where
  "show_4g x = (let t = show_nat (nat \<lfloor>x\<rfloor>) in replicate (4 - length t) (CHR '' '') @ t)"

definition mark_label :: "nat \<Rightarrow> rat \<Rightarrow> string" where
  "mark_label which mar =
    (if int which = W_MEM then
       (if mar < 1024 then show_4g mar
        else if mar < 1048576 then cut3 (show_3f (dbl (mar / 1024))) ''K''
        else if mar < 1073741824 then cut3 (show_3f (dbl (mar / 1048576))) ''M''
        else cut3 (show_3f (dbl (mar / 1073741824))) ''G'')
     else
       (if mar < 1000 then show_4g mar
        else if mar < 1000000 then cut3 (show_3f (dbl (mar / 1000))) ''K''
        else if mar < 1000000000 then cut3 (show_3f (dbl (mar / 1000000))) ''M''
        else cut3 (show_3f (dbl (mar / 1000000000))) ''G''))"

definition mark :: "rat \<Rightarrow> nat \<Rightarrow> rat" where
  "mark hi i = dbl (dbl (of_nat i * hi) / of_int NYMARKS)"

text \<open>The height of one of the five parts of the axis, and of the whole.\<close>

definition plot_height :: "screen \<Rightarrow> view \<Rightarrow> nat \<Rightarrow> int" where
  "plot_height s v ofs = ah v ofs - M_TOP s - M_BOT s"

definition mark_y :: "screen \<Rightarrow> view \<Rightarrow> nat \<Rightarrow> nat \<Rightarrow> int" where
  "mark_y s v ofs i = ah v ofs - M_BOT s + cheight s sdiv 2 - 3 -
     int i * (plot_height s v ofs sdiv NYMARKS)"

text \<open>
  The result: the top of the scale, the new \<open>maxes[ofs]\<close>, and the calls. \<open>maxes\<close> is an
  \<open>unsigned int\<close>: converting a larger \<open>double\<close> is undefined, which is None.
\<close>

definition drawymarks :: "screen \<Rightarrow> nat \<Rightarrow> nat \<Rightarrow> rat \<Rightarrow> (rat \<times> u32 \<times> cmd list) option" where
  "drawymarks s which ofs x = (let hi = roundup x; v = views s ! which in
     if \<lceil>hi\<rceil> < 2 ^ 32 then Some (hi, of_int \<lceil>hi\<rceil>,
       Fill White 0 0 (M_LEFT s) (ah v ofs) #
       map (\<lambda>i. Txt 1 (mark_y s v ofs i) (mark_label which (mark hi i))) [0..<6])
     else None)"

section \<open>Lemmas: the axis\<close>

lemma margins_nonneg: "0 \<le> cheight s \<Longrightarrow> 0 \<le> M_TOP s \<and> 0 \<le> M_BOT s"
  by (simp add: M_TOP_def M_BOT_def signed_divide_int_def sgn_if)

lemma trunc_of_int [simp]: "trunc (of_int n) = n"
  by (simp add: trunc_def)

lemma trunc_nonneg: "0 \<le> x \<Longrightarrow> trunc x = \<lfloor>x\<rfloor>"
  by (simp add: trunc_def)

lemma dword_nonneg: "0 \<le> dword w"
  unfolding dword_def by (rule dbl_nonneg) (rule of_nat_0_le_iff)

lemma dword_exact: "unat w \<le> 2 ^ 53 \<Longrightarrow> dword w = of_nat (unat w)"
  unfolding dword_def by (rule dbl_of_nat)

lemma dword_mono: "v \<le> w \<Longrightarrow> dword v \<le> dword w"
  unfolding dword_def word_le_nat_alt by (rule dbl_mono) (simp_all only: of_nat_0_le_iff of_nat_le_iff)

lemma dword_0 [simp]: "dword 0 = 0"
  by (simp add: dword_def)

lemma dword_pos: "w \<noteq> 0 \<Longrightarrow> 0 < dword w"
  unfolding dword_def by (rule dbl_pos) (simp only: of_nat_0_less_iff unat_gt_0 not_False_eq_True)

lemma dword_pos_iff: "0 < dword w \<longleftrightarrow> w \<noteq> 0"
  using dword_pos by auto

lemma roundup_form:
  assumes "roundup x < 10 ^ 13"
  shows "x \<le> roundup x" and "\<exists>k b. 1 \<le> k \<and> k \<le> 9 \<and> b \<le> 11 \<and> roundup x = of_nat (k * 10 ^ Suc b)"
proof -
  have "x \<le> 9 * 10 ^ 12" using assms roundup_spec [of x] by (auto split: if_splits)
  then have h: "x \<le> roundup x" "\<exists>k b. 1 \<le> k \<and> k \<le> 9 \<and> 1 \<le> b \<and> b \<le> 12 \<and> roundup x = of_nat k * 10 ^ b"
    using roundup_spec [of x] by auto
  show "x \<le> roundup x" by (rule h(1))
  from h(2) obtain k b where kb: "1 \<le> k" "k \<le> 9" "1 \<le> b" "b \<le> 12" "roundup x = of_nat k * 10 ^ b" by blast
  then obtain c where "b = Suc c" by (cases b) auto
  with kb show "\<exists>k b. 1 \<le> k \<and> k \<le> 9 \<and> b \<le> 11 \<and> roundup x = of_nat (k * 10 ^ Suc b)"
    by (intro exI [of _ k] exI [of _ c]) simp
qed

lemma roundup_pos: "0 < roundup x"
proof (cases "roundup x < 10 ^ 13")
  case True
  then show ?thesis using roundup_form(2) [OF True] by auto
qed simp

lemma scale_small: "x \<le> 4 * 10 ^ 9 \<Longrightarrow> \<lceil>roundup x\<rceil> < 2 ^ 32"
proof -
  assume x: "x \<le> 4 * 10 ^ 9"
  have "\<forall>k b. 1 \<le> k \<and> k \<le> 9 \<and> 1 \<le> b \<and> b \<le> 12 \<and> x \<le> of_nat k * 10 ^ b \<longrightarrow> roundup x \<le> of_nat k * 10 ^ b"
    using roundup_spec [of x] x by simp
  from this [rule_format, of 4 9] have "roundup x \<le> of_nat 4 * 10 ^ 9" using x by simp
  then show ?thesis by (simp add: ceiling_less_iff)
qed

lemma drawymarks_defined: "x \<le> 4 * 10 ^ 9 \<Longrightarrow> \<exists>hi mx cs. drawymarks s which ofs x = Some (hi, mx, cs)"
  using scale_small [of x] by (simp add: drawymarks_def Let_def)

lemma drawymarks_Some:
  assumes "drawymarks s which ofs x = Some (hi, mx, cs)"
  shows "hi = roundup x" and "x \<le> hi" and "hi < 2 ^ 32" and "0 < hi"
    and "Fill (Gc k) u v w h \<notin> set cs"
proof -
  have r: "hi = roundup x" "\<lceil>roundup x\<rceil> < 2 ^ 32"
    "cs = Fill White 0 0 (M_LEFT s) (ah (views s ! which) ofs) #
       map (\<lambda>i. Txt 1 (mark_y s (views s ! which) ofs i) (mark_label which (mark hi i))) [0..<6]"
    using assms by (auto simp: drawymarks_def Let_def split: if_splits)
  have "hi \<le> of_int \<lceil>hi\<rceil>" "of_int \<lceil>hi\<rceil> < (of_int (2 ^ 32) :: rat)"
    using r(2) by (simp_all only: r(1) of_int_less_iff le_of_int_ceiling)
  then show lt: "hi < 2 ^ 32" by simp
  show "hi = roundup x" "0 < hi" using r(1) roundup_pos by auto
  show "x \<le> hi" using roundup_form(1) [of x] lt r(1) by simp
  show "Fill (Gc k) u v w h \<notin> set cs" by (auto simp: r(3))
qed

text \<open>Up to the largest scale that is drawn, the marks are whole numbers, computed exactly.\<close>

lemma mark_exact:
  assumes "i \<le> 5" and "k \<le> 9" and "b \<le> 11"
  shows "mark (of_nat (k * 10 ^ Suc b)) i = of_nat (2 * i * k * 10 ^ b)"
proof -
  have "i * k * 10 ^ Suc b \<le> 5 * 9 * 10 ^ Suc 11"
    using assms by (intro mult_le_mono power_increasing) auto
  then have "dbl (of_nat (i * k * 10 ^ Suc b)) = of_nat (i * k * 10 ^ Suc b)"
    by (intro dbl_of_nat) simp
  then have 1: "dbl (of_nat i * of_nat (k * 10 ^ Suc b)) = of_nat (2 * i * k * 10 ^ b) * 5" by (simp add: mult.assoc)
  have "2 * i * k * 10 ^ b \<le> 2 * 5 * 9 * 10 ^ 11"
    using assms by (intro mult_le_mono power_increasing) auto
  then have "dbl (of_nat (2 * i * k * 10 ^ b)) = of_nat (2 * i * k * 10 ^ b)"
    by (intro dbl_of_nat) simp
  then show ?thesis unfolding mark_def 1 NYMARKS_def by (simp add: mult.assoc)
qed

lemma mark_integral: "roundup x < 10 ^ 13 \<Longrightarrow> i \<le> 5 \<Longrightarrow> \<exists>n. mark (roundup x) i = of_nat n"
  using roundup_form(2) [of x] mark_exact by metis

section \<open>Lemmas: the scale\<close>

lemma eps_pos: "0 < eps" "eps < 1 / 2 ^ 50"
  by (simp_all add: eps_def)

text \<open>
  What a value \<open>b\<close> whose rate \<open>b / p\<close> fits the scale \<open>m\<close> is scaled to, on \<open>D\<close> pixels:
  rounding adds at most one part in 2^51 or so.
\<close>

lemma scale_bound:
  assumes "0 \<le> b" and "b * (1 - eps) \<le> m * p" and "0 < m" "0 < p" and "0 \<le> D"
  shows "b * dbl (dbl (D / m) / p) \<le> D * (1 + 4 * eps)"
proof -
  have pos: "0 \<le> D / m" "0 < m * p" using assms by auto
  have "dbl (D / m) / p \<le> D / m * (1 + eps) / p"
    using dbl_upper [OF pos(1)] assms(4) by (intro divide_right_mono) auto
  then have "dbl (dbl (D / m) / p) \<le> (D / m * (1 + eps) / p) * (1 + eps)"
    using dbl_upper [of "dbl (D / m) / p"] dbl_nonneg [OF pos(1)] assms(4) eps_pos(1)
    by (meson divide_nonneg_pos mult_right_mono order_trans add_nonneg_nonneg zero_le_one less_imp_le)
  also have "\<dots> = D * (1 + eps) ^ 2 / (m * p)" by (simp add: power2_eq_square)
  finally have "b * dbl (dbl (D / m) / p) \<le> b * (D * (1 + eps) ^ 2 / (m * p))"
    using assms(1) by (rule mult_left_mono)
  also have "\<dots> \<le> (m * p / (1 - eps)) * (D * (1 + eps) ^ 2 / (m * p))"
    using assms pos eps_pos by (intro mult_right_mono) (auto simp: pos_le_divide_eq)
  also have "\<dots> = D * ((1 + eps) ^ 2 / (1 - eps))" using assms(3,4) by simp
  also have "(1 + eps) ^ 2 / (1 - eps) \<le> 1 + 4 * eps"
    by (simp add: eps_def power2_eq_square)
  then have "D * ((1 + eps) ^ 2 / (1 - eps)) \<le> D * (1 + 4 * eps)" using assms(5) by (rule mult_left_mono)
  finally show ?thesis .
qed

lemma fit_rate:
  assumes "0 \<le> b" and "(if gauge s then b else dbl (b / of_int (interval s))) \<le> m" and "0 < per_tick s"
  shows "b * (1 - eps) \<le> m * of_int (per_tick s)"
proof (cases "gauge s")
  case True
  then have "b * (1 - eps) \<le> b" "b \<le> m" using assms(1,2) eps_pos by (auto simp: algebra_simps)
  then show ?thesis using True by (simp add: per_tick_def)
next
  case False
  let ?p = "of_int (interval s) :: rat"
  have p: "0 < ?p" using False assms(3) by (simp add: per_tick_def)
  have "b / ?p * (1 - eps) \<le> m" using dbl_lower [of "b / ?p"] assms(1,2) p False by (simp add: order_trans)
  then show ?thesis using p False by (simp add: per_tick_def field_simps)
qed

text \<open>A bar is at most one pixel higher than the plot.\<close>

lemma bar_bound:
  assumes "0 \<le> a" "a \<le> b" and "(if gauge s then b else dbl (b / of_int (interval s))) \<le> m"
    and "0 < m" "0 < per_tick s" and "0 \<le> D" "D < 2 ^ 31"
  shows "\<lceil>dbl (a * dbl (dbl (of_int D / m) / of_int (per_tick s)))\<rceil> \<le> D + 1"
proof -
  let ?y = "dbl (dbl (of_int D / m) / of_int (per_tick s))"
  have y: "0 \<le> ?y" using assms by (intro dbl_nonneg divide_nonneg_pos) auto
  have "a * ?y \<le> b * ?y" using assms(2) y by (rule mult_right_mono)
  also have "\<dots> \<le> of_int D * (1 + 4 * eps)"
    using assms fit_rate [of b s m] by (intro scale_bound) auto
  also have "of_int D \<le> (2 ^ 31 :: rat)" using assms(7) of_int_le_iff [of D "2 ^ 31", where ?'a = rat] by simp
  then have "of_int D * (1 + 4 * eps) \<le> of_int (D + 1)" by (simp add: eps_def)
  finally have "dbl (a * ?y) \<le> dbl (of_int (D + 1))" using assms(1) y by (intro dbl_mono) auto
  also have "\<dots> = of_int (D + 1)" using assms by (intro dbl_of_int) auto
  finally show ?thesis by (rule ceiling_le)
qed

text \<open>An area that has room for a plot.\<close>

definition area_ok :: "screen \<Rightarrow> view \<Rightarrow> nat \<Rightarrow> bool" where
  "area_ok s v ofs \<longleftrightarrow> 0 \<le> cheight s \<and> 1 < plot_height s v ofs \<and> ah v ofs < 2 ^ 31"

section \<open>A sample\<close>

definition pic_view :: view where
  "pic_view = \<lparr>aw = \<lambda>_. 300, ah = \<lambda>_. 200, rm = \<lambda>_. 15, sperpx = 1, maxes = \<lambda>_. 0\<rparr>"

definition pic_screen :: screen where
  "pic_screen = \<lparr>cwidth = 6, cheight = 14, text_width = \<lambda>t. 6 * int (length t), text_height = \<lambda>_. 14,
     label_height = \<lambda>_. 40, gauge = False, interval = 1, requests = False, whens = replicate 11 ''00:00'',
     views = replicate 5 pic_view\<rparr>"

definition pic_grapher :: grapher where
  "pic_grapher = \<lparr>wins = replicate 5 \<lparr>samps = (replicate 3720 0)[0 := 7, 1860 := 3], wname = ''w''\<rparr>, nsys = 1,
     curtime = 0, start = 100, started = False, showwins = 0, debugging = True, forever = True\<rparr>"

lemma pic_screen_simps:
  "views pic_screen ! 3 = pic_view" "views pic_screen ! 4 = pic_view" "views pic_screen ! 1 = pic_view"
  "sperpx pic_view = 1" "ah pic_view ofs = 200" "aw pic_view ofs = 300" "rm pic_view ofs = 15"
  "per_tick pic_screen = 1" "gauge pic_screen = False" "interval pic_screen = 1"
  "M_LEFT pic_screen = 25" "M_RIGHT pic_screen = 15" "M_TOP pic_screen = 7" "M_BOT pic_screen = 14"
  "plot_height pic_screen pic_view ofs = 179"
  "cheight pic_screen = 14" "area_ok pic_screen pic_view ofs"
  by (simp_all add: area_ok_def pic_screen_def pic_view_def per_tick_def M_LEFT_def M_RIGHT_def M_TOP_def M_BOT_def
      plot_height_def signed_divide_int_def sgn_if nth_Cons numeral_eq_Suc)

lemma pic_grapher_simps:
  "grapher_ok pic_grapher" "length (wins pic_grapher) = 5" "nsys pic_grapher = 1" "curtime pic_grapher = 0"
  "\<not> started pic_grapher"
  by (simp_all add: pic_grapher_def grapher_ok_def W_USER_def DEFTLEN_def)

lemma pic_system: "0 \<le> i \<Longrightarrow> i < nsys pic_grapher \<Longrightarrow> i = 0"
  by (simp add: pic_grapher_simps)

lemma pic_samples: "k < 5 \<Longrightarrow> sample (wins pic_grapher) (int k) (cell 1 0 0 e) = (if e then 3 else 7)"
  by (simp add: sample_def pic_grapher_def cell_def DEFTLEN_def)

end
