(* ===== verification/Axis.thy ===== *)
theory Axis
  imports Screen
begin

text \<open>
  The labels \<open>drawymarks\<close> of \<open>mwmg.c\<close> writes beside the marks, and what a reader takes them
  to mean.
\<close>

section \<open>Reading a label\<close>

definition unit_value :: "char \<Rightarrow> nat" where
  "unit_value c = (if c = CHR ''K'' then 1000 else if c = CHR ''M'' then 1000000
     else if c = CHR ''G'' then 1000000000 else 1)"

definition frac_part :: "string \<Rightarrow> string" where
  "frac_part t = (if t \<noteq> [] \<and> hd t = CHR ''.'' then takeWhile is_digit (tl t) else [])"

text \<open>Blanks, digits, perhaps a point and more digits, perhaps a unit.\<close>

definition label_value :: "string \<Rightarrow> rat" where
  "label_value t = (let t1 = dropWhile ((=) (CHR '' '')) t; r = dropWhile is_digit t1; f = frac_part r in
     (of_nat (dec_value (takeWhile is_digit t1)) + of_nat (dec_value f) / 10 ^ length f) *
       of_nat (unit_value (last t)))"

section \<open>Lemmas\<close>

lemma show_nat_1: "n < 10 \<Longrightarrow> show_nat n = [digit_char n]"
  by (simp add: show_nat.simps [of n])

lemma show_nat_2: "10 \<le> n \<Longrightarrow> n < 100 \<Longrightarrow> show_nat n = [digit_char (n div 10), digit_char (n mod 10)]"
  by (simp add: show_nat.simps [of n] show_nat_1)

lemma show_nat_3: "100 \<le> n \<Longrightarrow> n < 1000 \<Longrightarrow>
    show_nat n = [digit_char (n div 100), digit_char (n div 10 mod 10), digit_char (n mod 10)]"
  by (simp add: show_nat.simps [of n] show_nat_2 div_mult2_eq [symmetric])

lemma digit_char_not: "n < 10 \<Longrightarrow> digit_char n \<noteq> CHR '' ''"
  "n < 10 \<Longrightarrow> is_digit (digit_char n)" "n < 10 \<Longrightarrow> digit_val (digit_char n) = n"
  using show_nat_digits [of n] dec_value_show_nat [of n]
  by (auto simp: show_nat_1 is_digit_def dec_value_def)

lemma digit_char_0: "digit_char 0 = CHR ''0''"
  by (simp add: digit_char_def char_of_def bit_0 bit_Suc)

lemma dropWhile_blanks: "dropWhile ((=) (CHR '' '')) (replicate k (CHR '' '') @ t) = dropWhile ((=) (CHR '' '')) t"
  by (induction k) simp_all

lemma show_nat_no_blank: "dropWhile ((=) (CHR '' '')) (show_nat n @ t) = show_nat n @ t"
proof -
  have "\<not> is_digit (CHR '' '')" by (simp add: is_digit_def)
  then have "hd (show_nat n) \<noteq> CHR '' ''" using hd_show_nat [of n] by metis
  then show ?thesis by (intro dropWhile_head) (auto simp: hd_append)
qed

lemma dropWhile_blank_number:
  "r = [] \<or> \<not> is_digit (hd r) \<Longrightarrow> dropWhile is_digit (show_nat n @ r) = r"
  by (cases r) (auto simp: show_nat_digits dropWhile_append_stop intro: dropWhile_all)

lemma last_show_nat: "is_digit (last (show_nat n))"
  using show_nat_digits [of n] last_in_set [OF show_nat_nonempty [of n]] by blast

lemma unit_value_digit: "is_digit c \<Longrightarrow> unit_value c = 1"
  by (auto simp: unit_value_def is_digit_def)

lemma label_value_plain: "label_value (show_4g (of_nat n)) = of_nat n"
  using unit_value_digit [OF last_show_nat [of n]] show_nat_digits [of n] dropWhile_blank_number [of "[]" n]
    show_nat_no_blank [of n "[]"]
  by (simp add: takeWhile_all [OF show_nat_digits] label_value_def show_4g_def Let_def dropWhile_blanks frac_part_def dec_value_def [of "[]"])

text \<open>A number of tenths of a unit, with at most two digits that are not zero in front of it.\<close>

definition tenths_ok :: "nat \<Rightarrow> bool" where
  "tenths_ok p \<longleftrightarrow> 10 \<le> p \<and> p < 10000 \<and> (100 \<le> p \<longrightarrow> 10 dvd p)"

lemma show_3f_tenths:
  assumes "p < 10000"
  shows "show_3f (dbl (of_nat p / 10)) = show_nat (p div 10) @ ''.'' @ zero_pad 3 (show_nat (100 * (p mod 10)))"
proof -
  let ?q = "of_nat p / 10 :: rat"
  have p: "of_nat p \<le> (10000 :: rat)" using assms by (simp add: of_nat_le_iff [of p 10000, simplified])
  have "\<bar>dbl ?q - ?q\<bar> \<le> ?q * eps" by (rule dbl_error) simp
  also have "?q * eps \<le> 1000 * eps" using p by (intro mult_right_mono) (simp_all add: eps_def)
  finally have "1000 * \<bar>dbl ?q - ?q\<bar> < 1 / 2" by (simp add: eps_def)
  moreover have "1000 * dbl ?q - of_int (int (100 * p)) = 1000 * (dbl ?q - ?q)" by simp
  ultimately have "\<bar>1000 * dbl ?q - of_int (int (100 * p))\<bar> < 1 / 2" by (simp only: abs_mult)
  then have "round_even (1000 * dbl ?q) = int (100 * p)" by (rule round_even_near)
  moreover have "100 * p div 1000 = p div 10" "100 * p mod 1000 = 100 * (p mod 10)"
    using div_mult_mult1 [of 100 p 10] mult_mod_right [of 100 p 10] by simp_all
  ultimately show ?thesis by (simp only: show_3f_def Let_def nat_int)
qed

lemma label_value_cut:
  assumes "tenths_ok p" and "c \<in> {CHR ''K'', CHR ''M'', CHR ''G''}"
  shows "label_value (cut3 (show_3f (dbl (of_nat p / 10))) [c]) = of_nat p / 10 * of_nat (unit_value c)"
proof -
  let ?d = "p div 10" and ?m = "p mod 10"
  have p: "p < 10000" "10 \<le> p" using assms(1) by (auto simp: tenths_ok_def)
  have "of_nat p = (of_nat (10 * ?d + ?m) :: rat)" by simp
  then have q: "of_nat p / 10 = of_nat ?d + of_nat ?m / (10 :: rat)" unfolding of_nat_add of_nat_mult by simp
  have c: "\<not> is_digit c" "c \<noteq> CHR ''.''" using assms(2) by (auto simp: is_digit_def)
  have dot: "\<not> is_digit (CHR ''.'')" by (simp add: is_digit_def)
  have val: "label_value (show_nat ?d @ r) = (of_nat ?d + of_nat (dec_value (frac_part r)) / 10 ^ length (frac_part r)) *
      of_nat (unit_value (last r))" if "r \<noteq> []" "\<not> is_digit (hd r)" for r
    using that by (simp add: label_value_def Let_def show_nat_no_blank takeWhile_show_nat dropWhile_blank_number)
  consider "?d < 10" | "10 \<le> ?d" "?d < 100" "?m = 0" | "100 \<le> ?d" "?d < 1000" "?m = 0"
    using assms(1) p by (fastforce simp: tenths_ok_def dvd_eq_mod_eq_0)
  then show ?thesis
  proof cases
    case 1
    have "show_nat (100 * ?m) = (if ?m = 0 then [digit_char 0] else [digit_char ?m, digit_char 0, digit_char 0])"
      by (cases "?m = 0") (simp_all add: show_nat_1 show_nat_3)
    then have "take 1 (zero_pad 3 (show_nat (100 * ?m))) = [digit_char ?m]"
      by (auto simp: zero_pad_def digit_char_0)
    then have "cut3 (show_3f (dbl (of_nat p / 10))) [c] = show_nat ?d @ [CHR ''.'', digit_char ?m, c]"
      using 1 by (simp add: cut3_def show_3f_tenths [OF p(1)] show_nat_1)
    then show ?thesis
      using val [of "[CHR ''.'', digit_char ?m, c]"] c(1) dot digit_char_not(2,3) [of ?m]
      by (simp add: q frac_part_def dec_value_def)
  next
    case 2
    then have "cut3 (show_3f (dbl (of_nat p / 10))) [c] = show_nat ?d @ [CHR ''.'', c]"
      by (simp add: cut3_def show_3f_tenths [OF p(1)] show_nat_2)
    then show ?thesis
      using val [of "[CHR ''.'', c]"] c(1) dot 2(3) by (simp add: q frac_part_def dec_value_def)
  next
    case 3
    then have "cut3 (show_3f (dbl (of_nat p / 10))) [c] = show_nat ?d @ [c]"
      by (simp add: cut3_def show_3f_tenths [OF p(1)] show_nat_3)
    then show ?thesis
      using val [of "[c]"] c 3(3) by (simp add: q frac_part_def dec_value_def)
  qed
qed

lemma mark_tenths:
  assumes "n \<le> 90" and "U = 1000 \<or> U = 1000000 \<or> U = (1000000000 :: nat)"
    and "U \<le> n * 10 ^ b" and "n * 10 ^ b < 1000 * U"
  shows "\<exists>p. n * 10 ^ b = p * (U div 10) \<and> tenths_ok p"
proof -
  obtain j where j: "U = 10 ^ Suc j" "j \<in> {2, 5, 8}"
    using assms(2) by (elim disjE) (auto intro: that [of 2] that [of 5] that [of 8])
  have "10 ^ Suc j < (10 :: nat) ^ (b + 2)"
  proof -
    have "10 ^ Suc j \<le> n * 10 ^ b" using assms(3) j by simp
    also have "\<dots> < 100 * 10 ^ b" using assms(1) by simp
    finally show ?thesis by simp
  qed
  then have "Suc j < b + 2" by (rule power_less_imp_less_exp [rotated]) simp
  then obtain c where c: "b = j + c" using nat_le_iff_add [of j b] by auto
  have "10 ^ Suc j \<le> n * (10 ^ j * 10 ^ c)" "n * (10 ^ j * 10 ^ c) < 1000 * 10 ^ Suc j"
    using assms(3,4) by (simp_all add: j(1) c power_add)
  then have p: "10 \<le> n * 10 ^ c" "n * 10 ^ c < 10000" by simp_all
  have "10 dvd n * 10 ^ c" if "100 \<le> n * 10 ^ c"
    using that assms(1) by (cases c) auto
  then have "tenths_ok (n * 10 ^ c)" using p by (simp add: tenths_ok_def)
  moreover have "n * 10 ^ b = n * 10 ^ c * (U div 10)" by (simp add: c j(1) power_add)
  ultimately show ?thesis by blast
qed

lemma label_value_unit:
  assumes "n \<le> 90" and "U = 1000 \<or> U = 1000000 \<or> U = (1000000000 :: nat)"
    and "U \<le> n * 10 ^ b" and "n * 10 ^ b < 1000 * U"
    and "c \<in> {CHR ''K'', CHR ''M'', CHR ''G''}" and "unit_value c = U"
  shows "label_value (cut3 (show_3f (dbl (of_nat (n * 10 ^ b) / of_nat U))) [c]) = of_nat (n * 10 ^ b)"
proof -
  obtain p where p: "n * 10 ^ b = p * (U div 10)" "tenths_ok p" using mark_tenths [OF assms(1-4)] by blast
  have U: "of_nat U = (10 * of_nat (U div 10) :: rat)" "0 < U div 10" using assms(2) by auto
  have "of_nat (n * 10 ^ b) / of_nat U = (of_nat p / 10 :: rat)"
    unfolding p(1) U(1) using U(2) by simp
  then have "label_value (cut3 (show_3f (dbl (of_nat (n * 10 ^ b) / of_nat U))) [c]) = of_nat p / 10 * of_nat U"
    using label_value_cut [OF p(2) assms(5)] assms(6) by (simp only:)
  also have "\<dots> = of_nat (n * 10 ^ b)" unfolding p(1) U(1) by simp
  finally show ?thesis .
qed

section \<open>Properties\<close>

text \<open>C26: The labels of a window other than that of memory say exactly what the marks stand for:
  read as a number with a unit, each is the value at its height on the axis, a fifth of
  the scale per mark, although two digits of a thousand end in a point without decimals.\<close>

theorem labels_read_back:
  assumes "drawymarks s which ofs x = Some (hi, mx, cs)" and "int which \<noteq> W_MEM" and "i \<le> 5"
  shows "Txt 1 (mark_y s (views s ! which) ofs i) (mark_label which (mark hi i)) \<in> set cs \<and>
    label_value (mark_label which (mark hi i)) = of_nat i * hi / 5"
proof -
  note d = drawymarks_Some [OF assms(1)]
  have lt: "roundup x < 10 ^ 13" using d(1,3) by simp
  then obtain k b where kb: "1 \<le> k" "k \<le> 9" "b \<le> 11" "hi = of_nat (k * 10 ^ Suc b)"
    using roundup_form(2) [OF lt] d(1) by blast
  define n where "n = 2 * i * k"
  have n: "n \<le> 90" using mult_le_mono [of i 5 k 9] assms(3) kb(2) by (simp add: n_def)
  have m: "mark hi i = of_nat (n * 10 ^ b)" unfolding kb(4) n_def by (rule mark_exact) fact+
  have five: "of_nat (n * 10 ^ b) = of_nat i * hi / (5 :: rat)" by (simp add: kb(4) n_def)
  have "of_nat (n * 10 ^ b) \<le> hi"
    using assms(3) d(4) of_nat_le_iff [of i 5, where ?'a = rat] unfolding five by (simp add: divide_le_eq)
  then have "of_nat (n * 10 ^ b) < (of_nat (2 ^ 32) :: rat)" using d(3) by simp
  then have big: "n * 10 ^ b < 2 ^ 32" unfolding of_nat_less_iff .
  have cmp: "(of_nat (n * 10 ^ b) :: rat) < of_nat v \<longleftrightarrow> n * 10 ^ b < v" for v by (rule of_nat_less_iff)
  have "label_value (mark_label which (mark hi i)) = of_nat (n * 10 ^ b)"
    unfolding m using assms(2) big label_value_plain [of "n * 10 ^ b"]
      label_value_unit [OF n, of 1000 b "CHR ''K''"] label_value_unit [OF n, of 1000000 b "CHR ''M''"]
      label_value_unit [OF n, of 1000000000 b "CHR ''G''"] cmp [of 1000] cmp [of 1000000] cmp [of 1000000000]
    by (simp add: mark_label_def unit_value_def not_less del: of_nat_mult of_nat_power)
  moreover have "Txt 1 (mark_y s (views s ! which) ofs i) (mark_label which (mark hi i)) \<in> set cs"
    using assms(1,3) by (auto simp: drawymarks_def Let_def split: if_splits)
  ultimately show ?thesis by (simp only: five)
qed

text \<open>The top of the scale is kept in an \<open>unsigned int\<close>: a window whose largest value is above
  4e9, four gigabytes or gigabits a second, makes the conversion undefined.\<close>

theorem scale_overflows:
  "drawymarks s which ofs x = None \<longleftrightarrow> 4 * 10 ^ 9 < x"
proof -
  have "x \<le> 4 * 10 ^ 9" if "\<lceil>roundup x\<rceil> < 2 ^ 32"
  proof -
    have lt: "roundup x < of_nat (2 ^ 32)" using that by (simp add: ceiling_less_iff)
    then have "roundup x < 10 ^ 13" by simp
    then obtain k b where kb: "k \<le> 9" "b \<le> 11" "roundup x = of_nat (k * 10 ^ Suc b)" and le: "x \<le> roundup x"
      using roundup_form [of x] by blast
    have "k * 10 ^ Suc b < 2 ^ 32" using lt unfolding kb(3) of_nat_less_iff .
    moreover have "k * 10 ^ Suc b \<le> 4 * 10 ^ 9" if "k * 10 ^ Suc b < 2 ^ 32"
    proof (cases "b \<le> 7")
      case True
      then have "k * 10 ^ Suc b \<le> 9 * 10 ^ Suc 7" using kb(1) by (intro mult_le_mono power_increasing) auto
      then show ?thesis by simp
    next
      case False
      then have "b = 8 \<or> b = 9 \<or> b = 10 \<or> b = 11" using kb(2) by auto
      then show ?thesis using that kb(1) by auto
    qed
    ultimately have "(of_nat (k * 10 ^ Suc b) :: rat) \<le> of_nat (4 * 10 ^ 9)" unfolding of_nat_le_iff by blast
    then show ?thesis using le unfolding kb(3) by simp
  qed
  with scale_small [of x] have "\<lceil>roundup x\<rceil> < 2 ^ 32 \<longleftrightarrow> x \<le> 4 * 10 ^ 9" by blast
  then show ?thesis unfolding drawymarks_def Let_def by (simp only: if_split not_le option.distinct) auto
qed

section \<open>Witnesses\<close>

theorem labels_read_back_witness:
  "\<exists>hi mx cs. drawymarks pic_screen 4 0 7 = Some (hi, mx, cs) \<and> 7 \<le> hi \<and>
    label_value (mark_label 4 (mark hi 5)) = of_nat 5 * hi / 5"
proof -
  obtain hi mx cs where d: "drawymarks pic_screen 4 0 7 = Some (hi, mx, cs)"
    using drawymarks_defined [of 7 pic_screen 4 0] by auto
  then show ?thesis using labels_read_back [OF d, of 5] drawymarks_Some(2) [OF d] by (auto simp: W_MEM_def)
qed

end
