(* ===== verification/Drawtop.thy ===== *)
theory Drawtop
  imports Screen
begin

text \<open>
  The upper drawing area of a window of \<open>mwmg.c\<close>: one bar per system with the samples of
  the last second. \<open>update_top\<close> draws one window, \<open>update_multi_top\<close> the window of all
  traffic, in which the windows from \<open>W_OTHER\<close> on are stacked.
\<close>

section \<open>update\_top\<close>

definition last_second :: "grapher \<Rightarrow> int" where
  "last_second g = (if curtime g \<noteq> 0 then uint (curtime g) - 1 else 0)"

text \<open>The two samples of system \<open>i\<close>: of its own traffic and of relayed traffic.\<close>

definition pair_at :: "grapher \<Rightarrow> nat \<Rightarrow> int \<Rightarrow> int \<Rightarrow> (u64 \<times> u64) option" where
  "pair_at g which t i = (case peek (wins g) which (t * nsys g + i) of None \<Rightarrow> None
     | Some d \<Rightarrow> map_option (\<lambda>r. (d, r)) (peek (wins g) which (t * nsys g + i + nsys g * DEFTLEN)))"

definition top_max :: "grapher \<Rightarrow> nat \<Rightarrow> rat option" where
  "top_max g which = fold_opt (\<lambda>i lmax. map_option
       (\<lambda>(d, r). if lmax < dword (d + r) then dword (d + r) else lmax)
       (pair_at g which (last_second g) i)) [0..nsys g - 1] 0"

definition bar_x :: "screen \<Rightarrow> rat \<Rightarrow> int \<Rightarrow> int" where
  "bar_x s xscal i = trunc (dbl (of_int (2 + M_LEFT s) + dbl (of_int i * xscal)))"

definition bar_w :: "rat \<Rightarrow> int" where
  "bar_w xscal = trunc (dbl (xscal - 1))"

text \<open>\<open>ceil(v * yscal)\<close>\<close>

definition scaled :: "rat \<Rightarrow> u64 \<Rightarrow> int" where
  "scaled yscal v = \<lceil>dbl (dword v * yscal)\<rceil>"

definition below :: "int \<Rightarrow> int \<Rightarrow> int" where
  "below b h = trunc (dbl (of_int b - of_int h))"

definition top_bar :: "screen \<Rightarrow> nat \<Rightarrow> rat \<Rightarrow> rat \<Rightarrow> int \<Rightarrow> int \<Rightarrow> u64 \<times> u64 \<Rightarrow> cmd list" where
  "top_bar s which xscal yscal gb i = (\<lambda>(d, r).
     (if d \<noteq> 0 then [Fg which (Col which 0),
        Fill (Gc which) (bar_x s xscal i) (below gb (scaled yscal d)) (bar_w xscal) (scaled yscal d)] else []) @
     (if r \<noteq> 0 then [Fg which (Col which 1),
        Fill (Gc which) (bar_x s xscal i) (below gb (scaled yscal (d + r))) (bar_w xscal) (scaled yscal r),
        Fg which (Col which 0)] else []))"

text \<open>The result is the new \<open>maxes[0]\<close> and the calls.\<close>

definition update_top :: "screen \<Rightarrow> grapher \<Rightarrow> nat \<Rightarrow> int \<Rightarrow> int \<Rightarrow> (u32 \<times> cmd list) option" where
  "update_top s g which draww drawh =
    (if \<not> which < length (wins g) then Some (maxes (views s ! which) 0, [])
     else (case top_max g which of None \<Rightarrow> None
     | Some m \<Rightarrow>
       (case drawymarks s which 0 (if gauge s then m else dbl (m / of_int (interval s))) of None \<Rightarrow> None
        | Some (lmax, mx, axis) \<Rightarrow>
            let xscal = dbl (of_int draww / of_int (nsys g));
                yscal = dbl (dbl (of_int drawh / lmax) / of_int (per_tick s));
                gb = ah (views s ! which) 0 - M_BOT s + 1
            in map_option (\<lambda>bars. (mx, axis @ bars @ [Copy]))
              (fold_opt (\<lambda>i cs. map_option (\<lambda>p. cs @ top_bar s which xscal yscal gb i p)
                 (pair_at g which (last_second g) i)) [0..nsys g - 1] []))))"

section \<open>update\_multi\_top\<close>

text \<open>The windows whose samples are stacked, from \<open>W_OTHER\<close> on.\<close>

definition traffic :: "grapher \<Rightarrow> nat list" where
  "traffic g = [nat W_OTHER..<length (wins g)]"

definition multi_sum :: "grapher \<Rightarrow> int \<Rightarrow> int \<Rightarrow> rat option" where
  "multi_sum g t i = fold_opt (\<lambda>k ax. map_option
       (\<lambda>(d, r). dbl (dbl (ax + dword d) + dword r)) (pair_at g k t i)) (traffic g) 0"

definition multi_top_max :: "grapher \<Rightarrow> rat option" where
  "multi_top_max g = fold_opt (\<lambda>i lmax. map_option (\<lambda>ax. if lmax < ax then ax else lmax)
       (multi_sum g (last_second g) i)) [0..nsys g - 1] 0"

text \<open>The values stacked for a system at one of the two levels, with their windows.\<close>

definition level_values :: "grapher \<Rightarrow> bool \<Rightarrow> int \<Rightarrow> int \<Rightarrow> (nat \<times> u64) list option" where
  "level_values g relayed t i = fold_opt (\<lambda>k vs. map_option (\<lambda>v. vs @ [(k, v)])
       (peek (wins g) k (t * nsys g + i + (if relayed then DEFTLEN * nsys g else 0)))) (traffic g) []"

text \<open>The stack from its top \<open>y\<close> downwards; an empty sample draws nothing.\<close>

fun stack :: "bool \<Rightarrow> rat \<Rightarrow> int \<Rightarrow> int \<Rightarrow> int \<Rightarrow> (nat \<times> u64) list \<Rightarrow> cmd list" where
  "stack relayed yscal x w y [] = []"
| "stack relayed yscal x w y ((k, v) # vs) = (if dword v > 0 then
     (if relayed then [Fg k (Col k 1)] else []) @ [Fill (Gc k) x y w (scaled yscal v)] @
     (if relayed then [Fg k (Col k 0)] else []) @ stack relayed yscal x w (y + scaled yscal v) vs
   else stack relayed yscal x w y vs)"

definition stack_height :: "rat \<Rightarrow> (nat \<times> u64) list \<Rightarrow> int" where
  "stack_height yscal vs = sum_list (map (\<lambda>(k, v). scaled yscal v) vs)"

text \<open>\<open>ax[0]\<close> stays 0, so the bounding rectangle is empty.\<close>

definition multi_bar :: "screen \<Rightarrow> nat \<Rightarrow> rat \<Rightarrow> rat \<Rightarrow> int \<Rightarrow> bool \<Rightarrow> int \<Rightarrow> (nat \<times> u64) list \<Rightarrow> cmd list" where
  "multi_bar s which xscal yscal base relayed i vs =
     (let y = base - stack_height yscal vs in
      Fill (Gc which) (bar_x s xscal i) y (bar_w xscal) 0 #
      stack relayed yscal (bar_x s xscal i) (bar_w xscal) y vs)"

definition multi_pass ::
  "screen \<Rightarrow> grapher \<Rightarrow> nat \<Rightarrow> rat \<Rightarrow> rat \<Rightarrow> int \<Rightarrow> bool \<Rightarrow> cmd list \<Rightarrow> cmd list option" where
  "multi_pass s g which xscal yscal base relayed =
     fold_opt (\<lambda>i cs. map_option (\<lambda>vs. cs @ multi_bar s which xscal yscal base relayed i vs)
       (level_values g relayed (last_second g) i)) [0..nsys g - 1]"

definition update_multi_top :: "screen \<Rightarrow> grapher \<Rightarrow> nat \<Rightarrow> int \<Rightarrow> rat \<Rightarrow> (u32 \<times> cmd list) option" where
  "update_multi_top s g which drawh xscal =
    (case multi_top_max g of None \<Rightarrow> None
     | Some m \<Rightarrow>
       (case drawymarks s which 0 (if gauge s then m else dbl (m / of_int (interval s))) of None \<Rightarrow> None
        | Some (lmax, mx, axis) \<Rightarrow>
            let delta = 1 + int (length (traffic g));
                yscal = dbl (dbl (of_int (drawh - delta) / lmax) / of_int (per_tick s));
                base = ah (views s ! which) 0 - M_BOT s
            in (case multi_pass s g which xscal yscal base False [] of None \<Rightarrow> None
                | Some c1 \<Rightarrow> map_option (\<lambda>c2. (mx, axis @ c2 @ [Copy]))
                    (multi_pass s g which xscal yscal base True c1))))"

section \<open>Lemmas: reading the samples\<close>

lemma last_second_range: "curtime g \<le> 1860 \<Longrightarrow> 0 \<le> last_second g \<and> last_second g < DEFTLEN"
proof -
  assume "curtime g \<le> 1860"
  then have "uint (curtime g) \<le> 1860" by (simp add: word_le_def)
  moreover have "0 < uint (curtime g)" if "curtime g \<noteq> 0" using that by (simp add: word_neq_0_conv word_less_def)
  ultimately show ?thesis by (auto simp: last_second_def DEFTLEN_def)
qed

lemma peek_cell:
  assumes "grapher_ok g" and "k < length (wins g)" and "0 \<le> t" "t < DEFTLEN" "0 \<le> i" "i < nsys g"
  shows "peek (wins g) k (cell (nsys g) t i e) = Some (sample (wins g) (int k) (cell (nsys g) t i e))"
proof -
  have "length (samps (wins g ! k)) = nat (2 * DEFTLEN * nsys g)"
    using assms(1,2) by (simp add: grapher_ok_def)
  then show ?thesis
    using cell_bound [OF assms(3-6), of e] assms(2) by (simp add: peek_def sample_def)
qed

definition own_at :: "grapher \<Rightarrow> nat \<Rightarrow> int \<Rightarrow> int \<Rightarrow> u64" where
  "own_at g k t i = sample (wins g) (int k) (cell (nsys g) t i False)"

definition relayed_at :: "grapher \<Rightarrow> nat \<Rightarrow> int \<Rightarrow> int \<Rightarrow> u64" where
  "relayed_at g k t i = sample (wins g) (int k) (cell (nsys g) t i True)"

lemma pair_at_Some:
  assumes "grapher_ok g" and "k < length (wins g)" and "0 \<le> t" "t < DEFTLEN" "0 \<le> i" "i < nsys g"
  shows "pair_at g k t i = Some (own_at g k t i, relayed_at g k t i)"
  using peek_cell [OF assms, of False] peek_cell [OF assms, of True]
  by (simp add: pair_at_def own_at_def relayed_at_def cell_def mult.commute)

abbreviation systems :: "grapher \<Rightarrow> int list" where
  "systems g \<equiv> [0..nsys g - 1]"

lemma top_max_Some:
  assumes "grapher_ok g" and "k < length (wins g)" and "curtime g \<le> 1860"
  defines "f \<equiv> \<lambda>i. dword (own_at g k (last_second g) i + relayed_at g k (last_second g) i)"
  shows "top_max g k = Some (fold (\<lambda>i m. if m < f i then f i else m) (systems g) 0)"
  unfolding top_max_def f_def
  using last_second_range [OF assms(3)] by (intro fold_opt_Some) (simp add: pair_at_Some [OF assms(1,2)])

lemma top_bars_Some:
  assumes "grapher_ok g" and "k < length (wins g)" and "curtime g \<le> 1860"
  shows "fold_opt (\<lambda>i cs. map_option (\<lambda>p. cs @ F i p) (pair_at g k (last_second g) i)) (systems g) [] =
    Some (concat (map (\<lambda>i. F i (own_at g k (last_second g) i, relayed_at g k (last_second g) i)) (systems g)))"
proof -
  have "fold_opt (\<lambda>i cs. map_option (\<lambda>p. cs @ F i p) (pair_at g k (last_second g) i)) (systems g) [] =
    Some (fold (\<lambda>i cs. cs @ F i (own_at g k (last_second g) i, relayed_at g k (last_second g) i)) (systems g) [])"
    using last_second_range [OF assms(3)] by (intro fold_opt_Some) (simp add: pair_at_Some [OF assms(1,2)])
  then show ?thesis by (simp add: fold_append_map)
qed

text \<open>What a successful \<open>update_top\<close> drew.\<close>

lemma update_top_calls:
  assumes "update_top s g k draww drawh = Some (mx, cs)"
    and "grapher_ok g" and "k < length (wins g)" and "curtime g \<le> 1860"
  obtains m lmax axis where
    "top_max g k = Some m" and "(if gauge s then m else dbl (m / of_int (interval s))) \<le> lmax"
    and "0 < lmax" and "\<forall>j u v w h. Fill (Gc j) u v w h \<notin> set axis"
    and "cs = axis @ concat (map (\<lambda>i. top_bar s k (dbl (of_int draww / of_int (nsys g)))
        (dbl (dbl (of_int drawh / lmax) / of_int (per_tick s))) (ah (views s ! k) 0 - M_BOT s + 1) i
        (own_at g k (last_second g) i, relayed_at g k (last_second g) i)) (systems g)) @ [Copy]"
proof -
  obtain m where m: "top_max g k = Some m" using top_max_Some [OF assms(2-4)] by blast
  obtain lmax mx' axis where d: "drawymarks s k 0 (if gauge s then m else dbl (m / of_int (interval s))) =
      Some (lmax, mx', axis)"
    using assms(1,3) m by (auto simp: update_top_def Let_def split: option.splits)
  show ?thesis
    using that [OF m drawymarks_Some(2,4) [OF d]] drawymarks_Some(5) [OF d] assms(1,3) m d
    by (auto simp: update_top_def Let_def top_bars_Some [OF assms(2-4)])
qed

section \<open>Properties\<close>

lemma below_exact: "0 \<le> b - h \<Longrightarrow> b - h \<le> 2 ^ 53 \<Longrightarrow> below b h = b - h"
  using dbl_of_int [of "b - h"] trunc_of_int [of "b - h"] by (simp add: below_def)

lemma scaled_nonneg: "0 \<le> y \<Longrightarrow> 0 \<le> scaled y v"
  using dbl_nonneg [of "dword v * y"] dword_nonneg [of v] by (simp add: scaled_def)

lemma scaled_mono: "v \<le> w \<Longrightarrow> 0 \<le> y \<Longrightarrow> scaled y v \<le> scaled y w"
  using dword_nonneg [of v] unfolding scaled_def
  by (intro ceiling_mono dbl_mono mult_nonneg_nonneg mult_right_mono dword_mono)

lemma scaled_pos: "v \<noteq> 0 \<Longrightarrow> 0 < y \<Longrightarrow> 1 \<le> scaled y v"
  using dbl_pos [of "dword v * y"] dword_pos [of v] by (simp add: scaled_def)


definition value_at :: "grapher \<Rightarrow> bool \<Rightarrow> int \<Rightarrow> int \<Rightarrow> nat \<Rightarrow> u64" where
  "value_at g rel t i k = (if rel then relayed_at g k t i else own_at g k t i)"

lemma bar_w_pos: "0 < n \<Longrightarrow> 2 * n \<le> d \<Longrightarrow> 1 \<le> bar_w (dbl (of_int d / of_int n))"
proof -
  assume h: "0 < n" "2 * n \<le> d"
  have "(of_int (2 * n) :: rat) \<le> of_int d" using h(2) by (simp only: of_int_le_iff)
  then have "of_int 2 \<le> (of_int d / of_int n :: rat)" using h(1) by (simp add: le_divide_eq)
  then have "dbl (of_int 2) \<le> dbl (of_int d / of_int n)" by (intro dbl_mono) simp_all
  then have "of_int 1 \<le> dbl (of_int d / of_int n) - 1" by (subst (asm) dbl_of_int) simp_all
  then have "dbl (of_int 1) \<le> dbl (dbl (of_int d / of_int n) - 1)" by (intro dbl_mono) simp_all
  then have "1 \<le> dbl (dbl (of_int d / of_int n) - 1)" by (subst (asm) dbl_of_int) simp_all
  then show ?thesis by (simp add: bar_w_def trunc_def le_floor_iff)
qed

lemma bar_drawn:
  assumes "update_top s g k draww drawh = Some (mx, cs)"
    and "grapher_ok g" and "k < length (wins g)" and "curtime g \<le> 1860" and "0 < per_tick s"
    and "0 < drawh" and "0 \<le> i" "i < nsys g" and "value_at g rel (last_second g) i k \<noteq> 0"
  shows "\<exists>y w h. Fill (Gc k) (bar_x s (dbl (of_int draww / of_int (nsys g))) i) y w h \<in> set cs \<and> 1 \<le> h \<and>
    (2 * nsys g \<le> draww \<longrightarrow> 1 \<le> w)"
proof -
  let ?t = "last_second g" and ?xs = "dbl (of_int draww / of_int (nsys g))"
  obtain m lmax axis where
    m: "top_max g k = Some m" "(if gauge s then m else dbl (m / of_int (interval s))) \<le> lmax" "0 < lmax"
    and axis: "\<forall>j u v w h. Fill (Gc j) u v w h \<notin> set axis"
    and cs: "cs = axis @ concat (map (\<lambda>i. top_bar s k ?xs (dbl (dbl (of_int drawh / lmax) / of_int (per_tick s)))
        (ah (views s ! k) 0 - M_BOT s + 1) i (own_at g k ?t i, relayed_at g k ?t i)) (systems g)) @ [Copy]"
    by (rule update_top_calls [OF assms(1-4)])
  define ys where "ys = dbl (dbl (of_int drawh / lmax) / of_int (per_tick s))"
  have "0 < ys" using assms(5,6) m(3) by (auto simp: ys_def intro!: dbl_pos divide_pos_pos)
  then have "1 \<le> scaled ys (value_at g rel ?t i k)" using assms(9) by (rule scaled_pos [rotated])
  moreover have "2 * nsys g \<le> draww \<longrightarrow> 1 \<le> bar_w ?xs" using bar_w_pos assms(7,8) by simp
  moreover have "i \<in> set (systems g)" using assms(7,8) by simp
  then have "\<exists>y. Fill (Gc k) (bar_x s ?xs i) y (bar_w ?xs) (scaled ys (value_at g rel ?t i k)) \<in> set cs"
    using assms(9) by (force simp: cs [folded ys_def] top_bar_def value_at_def split: if_splits)
  ultimately show ?thesis by blast
qed


section \<open>Lemmas: the stacked window\<close>

lemma scaled_zero [simp]: "scaled y 0 = 0"
  by (simp add: scaled_def)

lemma stack_height_Cons [simp]: "stack_height y ((k, v) # vs) = scaled y v + stack_height y vs"
  "stack_height y [] = 0"
  by (simp_all add: stack_height_def)

lemma stack_height_append [simp]: "stack_height y (us @ vs) = stack_height y us + stack_height y vs"
  by (simp add: stack_height_def)

lemma stack_height_nonneg: "0 \<le> y \<Longrightarrow> 0 \<le> stack_height y vs"
  by (induction vs) (auto simp: scaled_nonneg)

lemma stack_append:
  "stack rel ys x w y (us @ vs) = stack rel ys x w y us @ stack rel ys x w (y + stack_height ys us) vs"
  by (induction rel ys x w y us rule: stack.induct) (auto simp: dword_pos_iff add.assoc)

lemma stack_inside:
  assumes "0 \<le> ys" and "Fill (Gc j) x' y' w' h \<in> set (stack rel ys x w y vs)"
  shows "y \<le> y' \<and> 0 \<le> h \<and> y' + h \<le> y + stack_height ys vs"
  using assms
proof (induction rel ys x w y vs rule: stack.induct)
  case (2 rel ys x w y k v vs)
  have "0 \<le> scaled ys v" "0 \<le> stack_height ys vs"
    using 2(3) by (simp_all add: scaled_nonneg stack_height_nonneg)
  then show ?case using 2 by (cases "0 < dword v") (auto simp: dword_pos_iff split: if_splits)
qed simp

definition total_at :: "grapher \<Rightarrow> int \<Rightarrow> int \<Rightarrow> nat \<Rightarrow> nat" where
  "total_at g t i k = unat (own_at g k t i) + unat (relayed_at g k t i)"

lemma level_values_Some:
  assumes "grapher_ok g" and "0 \<le> t" "t < DEFTLEN" "0 \<le> i" "i < nsys g"
  shows "level_values g rel t i = Some (map (\<lambda>k. (k, value_at g rel t i k)) (traffic g))"
proof -
  have p: "peek (wins g) k (t * nsys g + i + (if rel then DEFTLEN * nsys g else 0)) = Some (value_at g rel t i k)"
    if "k \<in> set (traffic g)" for k
    using peek_cell [OF assms(1) _ assms(2-5), of k rel] that
    by (auto simp: traffic_def value_at_def own_at_def relayed_at_def cell_def)
  have "level_values g rel t i = Some (fold (\<lambda>k vs. vs @ [(k, value_at g rel t i k)]) (traffic g) [])"
    unfolding level_values_def by (intro fold_opt_Some) (simp only: p option.map)
  then show ?thesis using fold_append_map [of "\<lambda>k. [(k, value_at g rel t i k)]" "traffic g" "[]"] by simp
qed

lemma add_exact:
  assumes "n + unat v + unat w \<le> 2 ^ 53"
  shows "dbl (dbl (of_nat n + dword v) + dword w) = of_nat (n + unat v + unat w)"
proof -
  have d: "dword v = of_nat (unat v)" "dword w = of_nat (unat w)" using assms by (simp_all only: dword_exact)
  have "dbl (of_nat (n + unat v)) = of_nat (n + unat v)" by (rule dbl_of_nat) (use assms in simp)
  moreover have "dbl (of_nat (n + unat v + unat w)) = of_nat (n + unat v + unat w)"
    by (rule dbl_of_nat) (use assms in simp)
  ultimately show ?thesis unfolding d of_nat_add [symmetric] by (simp only: of_nat_add [symmetric])
qed

lemma sum_exact:
  assumes "grapher_ok g" and "0 \<le> t" "t < DEFTLEN" "0 \<le> i" "i < nsys g"
    and "set ks \<subseteq> set (traffic g)" and "n + sum_list (map (total_at g t i) ks) \<le> 2 ^ 53"
  shows "fold_opt (\<lambda>k ax. map_option (\<lambda>(d, r). dbl (dbl (ax + dword d) + dword r)) (pair_at g k t i)) ks (of_nat n) =
    Some (of_nat (n + sum_list (map (total_at g t i) ks)))"
  using assms(6,7)
proof (induction ks arbitrary: n)
  case (Cons k ks)
  then have "pair_at g k t i = Some (own_at g k t i, relayed_at g k t i)"
    by (intro pair_at_Some assms) (auto simp: traffic_def)
  moreover have "dbl (dbl (of_nat n + dword (own_at g k t i)) + dword (relayed_at g k t i)) = of_nat (n + total_at g t i k)"
    using add_exact [of n "own_at g k t i" "relayed_at g k t i"] Cons.prems(2) by (simp add: total_at_def add.assoc)
  ultimately show ?case using Cons.IH [of "n + total_at g t i k"] Cons.prems by (simp add: add.assoc)
qed simp

text \<open>The height of a stack, with one pixel to spare for each part.\<close>

lemma stack_height_bound:
  assumes "0 \<le> y"
  shows "vs \<noteq> [] \<Longrightarrow> of_int (stack_height y vs) < sum_list (map (\<lambda>(k, v). dword v) vs) * (y * (1 + eps)) + of_nat (length vs)"
proof (induction vs)
  case (Cons kv vs)
  obtain k v where kv: "kv = (k, v)" by force
  have "of_int (scaled y v) < dbl (dword v * y) + 1" unfolding scaled_def by linarith
  also have "dbl (dword v * y) \<le> dword v * y * (1 + eps)" using assms dword_nonneg [of v] by (intro dbl_upper) simp
  finally have "of_int (scaled y v) < dword v * (y * (1 + eps)) + 1" by (simp add: mult.assoc)
  then show ?case using Cons.IH by (cases "vs = []") (auto simp: kv algebra_simps)
qed simp

lemma multi_sum_exact:
  assumes "grapher_ok g" and "0 \<le> t" "t < DEFTLEN" "0 \<le> i" "i < nsys g"
    and "sum_list (map (total_at g t i) (traffic g)) \<le> 2 ^ 53"
  shows "multi_sum g t i = Some (of_nat (sum_list (map (total_at g t i) (traffic g))))"
  using sum_exact [OF assms(1-5), of "traffic g" 0] assms(6) by (simp add: multi_sum_def)

lemma multi_top_max_bound:
  assumes "grapher_ok g" and "curtime g \<le> 1860"
    and "\<forall>i. 0 \<le> i \<and> i < nsys g \<longrightarrow> sum_list (map (total_at g (last_second g) i) (traffic g)) \<le> 2 ^ 53"
  shows "\<exists>m. multi_top_max g = Some m \<and> 0 \<le> m \<and> (\<forall>i. 0 \<le> i \<and> i < nsys g \<longrightarrow>
    of_nat (sum_list (map (total_at g (last_second g) i) (traffic g))) \<le> m)"
proof -
  let ?f = "\<lambda>i. of_nat (sum_list (map (total_at g (last_second g) i) (traffic g))) :: rat"
  have "multi_top_max g = Some (fold (\<lambda>i m. if m < ?f i then ?f i else m) (systems g) 0)"
    unfolding multi_top_max_def using last_second_range [OF assms(2)] assms(3)
    by (intro fold_opt_Some) (simp add: multi_sum_exact [OF assms(1)])
  then show ?thesis using fold_max [where f = ?f and xs = "systems g" and a = 0] by auto
qed

lemma multi_pass_Some:
  assumes "grapher_ok g" and "curtime g \<le> 1860"
  shows "multi_pass s g k xs ys base rel cs = Some (cs @ concat (map (\<lambda>i. multi_bar s k xs ys base rel i
    (map (\<lambda>j. (j, value_at g rel (last_second g) i j)) (traffic g))) (systems g)))"
proof -
  have "multi_pass s g k xs ys base rel cs = Some (fold (\<lambda>i cs. cs @ multi_bar s k xs ys base rel i
    (map (\<lambda>j. (j, value_at g rel (last_second g) i j)) (traffic g))) (systems g) cs)"
    unfolding multi_pass_def using last_second_range [OF assms(2)]
    by (intro fold_opt_Some) (simp add: level_values_Some [OF assms(1)])
  then show ?thesis by (simp add: fold_append_map)
qed

definition multi_bars :: "screen \<Rightarrow> grapher \<Rightarrow> nat \<Rightarrow> rat \<Rightarrow> rat \<Rightarrow> bool \<Rightarrow> cmd list" where
  "multi_bars s g k xs ys rel = concat (map (\<lambda>i. multi_bar s k xs ys (ah (views s ! k) 0 - M_BOT s) rel i
    (map (\<lambda>j. (j, value_at g rel (last_second g) i j)) (traffic g))) (systems g))"

lemma update_multi_top_calls:
  assumes "update_multi_top s g k drawh xs = Some (mx, cs)" and "grapher_ok g" and "curtime g \<le> 1860"
    and "multi_top_max g = Some m"
  obtains lmax axis where
    "(if gauge s then m else dbl (m / of_int (interval s))) \<le> lmax"
    and "0 < lmax" and "\<forall>j u v w h. Fill (Gc j) u v w h \<notin> set axis"
    and "cs = axis @ multi_bars s g k xs (dbl (dbl (of_int (drawh - (1 + int (length (traffic g)))) / lmax) /
        of_int (per_tick s))) False @ multi_bars s g k xs (dbl (dbl (of_int (drawh - (1 + int (length (traffic g)))) / lmax) /
        of_int (per_tick s))) True @ [Copy]"
proof -
  obtain lmax mx' axis where d: "drawymarks s k 0 (if gauge s then m else dbl (m / of_int (interval s))) =
      Some (lmax, mx', axis)"
    using assms(1,4) by (auto simp: update_multi_top_def Let_def split: option.splits)
  show ?thesis
    using that [OF drawymarks_Some(2,4) [OF d]] drawymarks_Some(5) [OF d] assms(1,4) d
    by (auto simp: update_multi_top_def Let_def multi_pass_Some [OF assms(2,3)] multi_bars_def)
qed

lemma level_sum:
  assumes "sum_list (map (total_at g t i) ks) \<le> 2 ^ 53"
  shows "sum_list (map (\<lambda>(k, v). dword v) (map (\<lambda>j. (j, value_at g rel t i j)) ks)) \<le>
    of_nat (sum_list (map (total_at g t i) ks))"
  using assms
proof (induction ks)
  case (Cons k ks)
  have le: "unat (value_at g rel t i k) \<le> total_at g t i k" by (simp add: value_at_def total_at_def)
  then have "dword (value_at g rel t i k) = of_nat (unat (value_at g rel t i k))"
    using Cons.prems by (intro dword_exact) simp
  then have "dword (value_at g rel t i k) \<le> of_nat (total_at g t i k)" using le by (simp only: of_nat_le_iff)
  then show ?case using Cons by simp
qed simp

text \<open>One stack fits the plot less the pixels \<open>delta\<close> sets aside for rounding up.\<close>

lemma stack_fits:
  assumes "(if gauge s then m else dbl (m / of_int (interval s))) \<le> lmax" and "0 < lmax" and "0 < per_tick s"
    and "sum_list (map (\<lambda>(k, v). dword v) vs) \<le> m" and "vs \<noteq> []"
    and "0 \<le> D" "D < 2 ^ 31"
  shows "stack_height (dbl (dbl (of_int D / lmax) / of_int (per_tick s))) vs \<le> D + int (length vs)"
proof -
  let ?ys = "dbl (dbl (of_int D / lmax) / of_int (per_tick s))" and ?S = "sum_list (map (\<lambda>(k, v). dword v) vs)"
  have S: "0 \<le> ?S" by (rule sum_list_nonneg) (auto simp: dword_nonneg)
  have ys: "0 \<le> ?ys" using assms by (intro dbl_nonneg divide_nonneg_pos) auto
  have "?S * ?ys \<le> m * ?ys" using assms(4) ys by (rule mult_right_mono)
  also have "\<dots> \<le> of_int D * (1 + 4 * eps)"
    using assms S fit_rate [of m s lmax] by (intro scale_bound) auto
  finally have "?S * ?ys * (1 + eps) \<le> of_int D * (1 + 4 * eps) * (1 + eps)"
    using eps_pos by (intro mult_right_mono) auto
  also have "of_int D \<le> (2 ^ 31 :: rat)" using assms(7) of_int_le_iff [of D "2 ^ 31", where ?'a = rat] by simp
  then have "of_int D * (1 + 4 * eps) * (1 + eps) \<le> of_int D + 1" by (simp add: eps_def)
  finally have "?S * (?ys * (1 + eps)) \<le> of_int D + 1" by (simp add: mult.assoc)
  then have "of_int (stack_height ?ys vs) < (of_int (D + 1 + int (length vs)) :: rat)"
    using stack_height_bound [OF ys assms(5)] by simp
  then show ?thesis unfolding of_int_less_iff by simp
qed

section \<open>Properties of the stacked window\<close>

text \<open>C13: in the window of all traffic the stack of a system, at either level, stays between the
  top line of the frame and its base line: the pixels the code sets aside, one per window
  and one more, are enough for every height to be rounded up.\<close>

theorem stacks_stay_inside:
  assumes "update_multi_top s g k (plot_height s (views s ! k) 0 - 1) xs = Some (mx, cs)"
    and "grapher_ok g" and "curtime g \<le> 1860" and "0 < per_tick s"
    and "area_ok s (views s ! k) 0" and "2 + int (length (traffic g)) \<le> plot_height s (views s ! k) 0"
    and "\<forall>i. 0 \<le> i \<and> i < nsys g \<longrightarrow> sum_list (map (total_at g (last_second g) i) (traffic g)) \<le> 2 ^ 53"
    and "Fill (Gc j) x y w h \<in> set cs"
  shows "M_TOP s + 1 \<le> y \<and> 0 \<le> h \<and> y + h \<le> ah (views s ! k) 0 - M_BOT s"
proof -
  let ?v = "views s ! k" and ?K = "int (length (traffic g))" and ?P = "plot_height s (views s ! k) 0"
  obtain m where m: "multi_top_max g = Some m" "0 \<le> m" "\<forall>i. 0 \<le> i \<and> i < nsys g \<longrightarrow>
      of_nat (sum_list (map (total_at g (last_second g) i) (traffic g))) \<le> m"
    using multi_top_max_bound [OF assms(2,3,7)] by blast
  obtain lmax axis where l: "(if gauge s then m else dbl (m / of_int (interval s))) \<le> lmax" "0 < lmax"
    and axis: "\<forall>j u v w h. Fill (Gc j) u v w h \<notin> set axis"
    and cs: "cs = axis @ multi_bars s g k xs (dbl (dbl (of_int (?P - 1 - (1 + ?K)) / lmax) / of_int (per_tick s))) False @
      multi_bars s g k xs (dbl (dbl (of_int (?P - 1 - (1 + ?K)) / lmax) / of_int (per_tick s))) True @ [Copy]"
    by (rule update_multi_top_calls [OF assms(1-3) m(1)])
  define D where "D = ?P - 1 - (1 + ?K)"
  define ys where "ys = dbl (dbl (of_int D / lmax) / of_int (per_tick s))"
  have D: "0 \<le> D" "D < 2 ^ 31" "ah ?v 0 = D + 2 + ?K + M_TOP s + M_BOT s"
    using assms(5,6) margins_nonneg [of s] by (simp_all add: area_ok_def plot_height_def D_def)
  have ys: "0 \<le> ys" using D(1) l(2) assms(4) by (auto simp: ys_def intro!: dbl_nonneg divide_nonneg_pos)
  obtain rel where "Fill (Gc j) x y w h \<in> set (multi_bars s g k xs ys rel)"
    using assms(8) axis unfolding cs [folded D_def, folded ys_def] by auto
  then obtain i where i: "0 \<le> i" "i < nsys g" and mem: "Fill (Gc j) x y w h \<in> set (multi_bar s k xs ys
      (ah ?v 0 - M_BOT s) rel i (map (\<lambda>j. (j, value_at g rel (last_second g) i j)) (traffic g)))"
    by (auto simp: multi_bars_def)
  define vs where "vs = map (\<lambda>j. (j, value_at g rel (last_second g) i j)) (traffic g)"
  have vs: "length vs = length (traffic g)" "vs \<noteq> []"
    using assms(2) by (auto simp: vs_def traffic_def grapher_ok_def win_defs)
  have "sum_list (map (\<lambda>(k, v). dword v) vs) \<le> m"
    using level_sum [of g "last_second g" i "traffic g" rel] m(3) assms(7) i unfolding vs_def by fastforce
  then have H: "stack_height ys vs \<le> D + ?K"
    using stack_fits [OF l assms(4) _ vs(2) D(1,2)] unfolding ys_def vs(1) by blast
  show ?thesis
    using mem H stack_height_nonneg [OF ys, of vs] D(3)
      stack_inside [OF ys, of j x y w h rel "bar_x s xs i" "bar_w xs" "ah ?v 0 - M_BOT s - stack_height ys vs" vs]
    by (auto simp: multi_bar_def Let_def vs_def [symmetric])
qed

text \<open>In that window relayed traffic is not put on top of a system's own traffic, as in the
  other windows, but drawn over it from the same base line: of the last window's two bars
  the second hides the first wherever it is as high.\<close>

theorem relayed_hides_own:
  assumes "update_multi_top s g k drawh xs = Some (mx, cs)"
    and "grapher_ok g" and "curtime g \<le> 1860" and "0 \<le> i" "i < nsys g"
    and "\<forall>i. 0 \<le> i \<and> i < nsys g \<longrightarrow> sum_list (map (total_at g (last_second g) i) (traffic g)) \<le> 2 ^ 53"
  defines "j \<equiv> length (wins g) - 1" and "base \<equiv> ah (views s ! k) 0 - M_BOT s"
  assumes "own_at g j (last_second g) i \<noteq> 0" and "relayed_at g j (last_second g) i \<noteq> 0"
  shows "\<exists>ys pre mid post. cs = pre @
      Fill (Gc j) (bar_x s xs i) (base - scaled ys (own_at g j (last_second g) i)) (bar_w xs)
        (scaled ys (own_at g j (last_second g) i)) # mid @
      Fill (Gc j) (bar_x s xs i) (base - scaled ys (relayed_at g j (last_second g) i)) (bar_w xs)
        (scaled ys (relayed_at g j (last_second g) i)) # post"
proof -
  let ?t = "last_second g"
  obtain m where m: "multi_top_max g = Some m" using multi_top_max_bound [OF assms(2,3,6)] by blast
  obtain lmax axis where
    cs: "cs = axis @ multi_bars s g k xs (dbl (dbl (of_int (drawh - (1 + int (length (traffic g)))) / lmax) / of_int (per_tick s))) False @
      multi_bars s g k xs (dbl (dbl (of_int (drawh - (1 + int (length (traffic g)))) / lmax) / of_int (per_tick s))) True @ [Copy]"
    by (rule update_multi_top_calls [OF assms(1-3) m])
  define ys where "ys = dbl (dbl (of_int (drawh - (1 + int (length (traffic g)))) / lmax) / of_int (per_tick s))"
  have "length (wins g) = Suc j" "nat W_OTHER \<le> j"
    using assms(2) by (auto simp: j_def grapher_ok_def win_defs)
  then have tr: "traffic g = [nat W_OTHER..<j] @ [j]" by (simp add: traffic_def)
  have bar: "\<exists>a b. multi_bars s g k xs ys rel = a @ Fill (Gc j) (bar_x s xs i)
      (base - scaled ys (value_at g rel ?t i j)) (bar_w xs) (scaled ys (value_at g rel ?t i j)) # b"
    if "value_at g rel ?t i j \<noteq> 0" for rel
  proof -
    let ?B = "\<lambda>i. multi_bar s k xs ys base rel i (map (\<lambda>j. (j, value_at g rel ?t i j)) (traffic g))"
    have "systems g = [0..i - 1] @ i # [i + 1..nsys g - 1]"
      using assms(4,5) upto_split3 [of 0 i "nsys g - 1"] by simp
    then have all: "multi_bars s g k xs ys rel = concat (map ?B [0..i - 1]) @ ?B i @ concat (map ?B [i + 1..nsys g - 1])"
      by (simp only: multi_bars_def base_def map_append concat_append list.map concat.simps)
    define us v where "us = map (\<lambda>j. (j, value_at g rel ?t i j)) [nat W_OTHER..<j]" and "v = value_at g rel ?t i j"
    then have "?B i = (Fill (Gc k) (bar_x s xs i) (base - (stack_height ys us + scaled ys v)) (bar_w xs) 0 #
        stack rel ys (bar_x s xs i) (bar_w xs) (base - (stack_height ys us + scaled ys v)) us @
        (if rel then [Fg j (Col j 1)] else [])) @
        Fill (Gc j) (bar_x s xs i) (base - scaled ys v) (bar_w xs) (scaled ys v) # (if rel then [Fg j (Col j 0)] else [])"
      using dword_pos [OF that] by (simp add: multi_bar_def Let_def tr stack_append)
    then obtain a b where "?B i = a @ Fill (Gc j) (bar_x s xs i) (base - scaled ys v) (bar_w xs) (scaled ys v) # b" by blast
    then show ?thesis unfolding all v_def
      by (intro exI [of _ "concat (map ?B [0..i - 1]) @ a"] exI [of _ "b @ concat (map ?B [i + 1..nsys g - 1])"]) simp
  qed
  from bar [of False] assms(9) obtain a b where 1: "multi_bars s g k xs ys False = a @ Fill (Gc j) (bar_x s xs i)
      (base - scaled ys (own_at g j ?t i)) (bar_w xs) (scaled ys (own_at g j ?t i)) # b"
    by (auto simp: value_at_def)
  from bar [of True] assms(10) obtain c d where 2: "multi_bars s g k xs ys True = c @ Fill (Gc j) (bar_x s xs i)
      (base - scaled ys (relayed_at g j ?t i)) (bar_w xs) (scaled ys (relayed_at g j ?t i)) # d"
    by (auto simp: value_at_def)
  show ?thesis
    by (intro exI [of _ ys] exI [of _ "axis @ a"] exI [of _ "b @ c"] exI [of _ "d @ [Copy]"])
      (simp add: cs [folded ys_def] 1 2)
qed

section \<open>Witnesses\<close>

lemma pic_last [simp]: "last_second pic_grapher = 0"
  by (simp add: last_second_def pic_grapher_simps)

lemma pic_at: "k < 5 \<Longrightarrow> own_at pic_grapher k 0 0 = 7" "k < 5 \<Longrightarrow> relayed_at pic_grapher k 0 0 = 3"
  by (simp_all add: own_at_def relayed_at_def pic_grapher_simps pic_samples)

lemma pic_pair: "k < 5 \<Longrightarrow> pair_at pic_grapher k 0 0 = Some (7, 3)"
  using pair_at_Some [OF pic_grapher_simps(1), of k 0 0] by (simp add: pic_grapher_simps pic_at DEFTLEN_def)

lemma pic_top: "\<exists>mx cs. update_top pic_screen pic_grapher 4 w 178 = Some (mx, cs)"
proof -
  have m: "top_max pic_grapher 4 = Some 10"
    using top_max_Some [OF pic_grapher_simps(1), of 4] dword_exact [of 10] by (simp add: pic_grapher_simps pic_at)
  obtain hi mx cs where "drawymarks pic_screen 4 0 (dbl 10) = Some (hi, mx, cs)"
    using drawymarks_defined [of "dbl 10" pic_screen 4 0] dbl_of_nat [of 10] by auto
  then show ?thesis
    using m by (simp add: update_top_def pic_screen_simps pic_grapher_simps pic_pair Let_def)
qed

lemma pic_top_bar:
  assumes "update_top pic_screen pic_grapher 4 w 178 = Some (mx, cs)"
  shows "\<exists>x y w h. Fill (Gc 4) x y w h \<in> set cs \<and> 1 \<le> h"
  using bar_drawn [OF assms pic_grapher_simps(1), of 0 False]
  by (auto simp: pic_grapher_simps pic_screen_simps pic_at value_at_def)



theorem stacks_stay_inside_witness:
  "\<exists>mx cs x y w h. update_multi_top pic_screen pic_grapher 3 178 258 = Some (mx, cs) \<and> Fill (Gc 4) x y w h \<in> set cs \<and>
    8 \<le> y \<and> 0 \<le> h \<and> y + h \<le> 186"
proof -
  have tr: "traffic pic_grapher = [4]" by (simp add: traffic_def pic_grapher_simps W_OTHER_def upt_rec)
  have sum: "\<forall>i. 0 \<le> i \<and> i < nsys pic_grapher \<longrightarrow>
      sum_list (map (total_at pic_grapher (last_second pic_grapher) i) (traffic pic_grapher)) \<le> 2 ^ 53"
    by (auto dest!: pic_system simp: tr total_at_def pic_at)
  have "multi_sum pic_grapher 0 0 = Some 10"
    using multi_sum_exact [OF pic_grapher_simps(1), of 0 0] by (simp add: pic_grapher_simps tr total_at_def pic_at DEFTLEN_def)
  then have m: "multi_top_max pic_grapher = Some 10" by (simp add: multi_top_max_def pic_grapher_simps)
  obtain hi mx cs where "drawymarks pic_screen 3 0 (dbl 10) = Some (hi, mx, cs)"
    using drawymarks_defined [of "dbl 10" pic_screen 3 0] dbl_of_nat [of 10] by auto
  then obtain mx cs where u: "update_multi_top pic_screen pic_grapher 3 178 258 = Some (mx, cs)"
    using m by (auto simp: update_multi_top_def pic_screen_simps pic_grapher_simps Let_def
        multi_pass_Some [OF pic_grapher_simps(1)])
  have "\<exists>x y w h. Fill (Gc 4) x y w h \<in> set cs"
    using relayed_hides_own [OF u pic_grapher_simps(1) _ _ _ sum, of 0]
    by (fastforce simp: pic_grapher_simps pic_at)
  then obtain x y w h where b: "Fill (Gc 4) x y w h \<in> set cs" by blast
  have u': "update_multi_top pic_screen pic_grapher 3 (plot_height pic_screen (views pic_screen ! 3) 0 - 1) 258 = Some (mx, cs)"
    using u by (simp add: pic_screen_simps)
  have "8 \<le> y \<and> 0 \<le> h \<and> y + h \<le> 186"
    using stacks_stay_inside [OF u' pic_grapher_simps(1) _ _ _ _ sum b]
    by (simp add: pic_grapher_simps pic_screen_simps tr)
  then show ?thesis using u b by blast
qed

end
