(* ===== verification/Drawbottom.thy ===== *)
theory Drawbottom
  imports Drawtop
begin

text \<open>
  The lower drawing area of a window of \<open>mwmg.c\<close>: the history, one column per \<open>sperpx\<close>
  seconds. \<open>update_bottom\<close> draws one window, \<open>update_multi_bottom\<close> that of all traffic. Both
  go over the samples twice, first for the scale and then to draw.
\<close>

section \<open>update\_bottom\<close>

text \<open>\<open>for (i = 0; i <= cxtime; i += sperpx)\<close>, for a positive \<open>sperpx\<close>.\<close>

definition columns :: "int \<Rightarrow> int \<Rightarrow> int list" where
  "columns sp cxt = map (\<lambda>c. c * sp) [0..cxt div sp]"

text \<open>The seconds of the column at \<open>i\<close>, and in each the systems.\<close>

definition period :: "int \<Rightarrow> int \<Rightarrow> int \<Rightarrow> int \<Rightarrow> (int \<times> int) list" where
  "period n sp cxt i = concat (map (\<lambda>j. map (\<lambda>m. (i + j, m)) [0..n - 1]) [0..min (sp - 1) (cxt - i)])"

definition bottom_pair :: "grapher \<Rightarrow> nat \<Rightarrow> int \<times> int \<Rightarrow> (u64 \<times> u64) option" where
  "bottom_pair g k = (\<lambda>(t, m). case peek (wins g) k (t * nsys g + m) of None \<Rightarrow> None
     | Some d \<Rightarrow> map_option (\<lambda>r. (d, r)) (peek (wins g) k ((t + DEFTLEN) * nsys g + m)))"

definition rate :: "screen \<Rightarrow> int \<Rightarrow> u64 \<Rightarrow> rat" where
  "rate s sp v = dbl (dbl (dword v / of_int sp) / of_int (per_tick s))"

definition averaged :: "nat \<Rightarrow> bool" where
  "averaged k \<longleftrightarrow> int k = W_CPU \<or> int k = W_MEM \<or> int k = W_TIME"

definition count_rep :: "nat \<Rightarrow> u64 \<Rightarrow> nat \<Rightarrow> nat" where
  "count_rep k d reps = (if averaged k \<and> d \<noteq> 0 then reps + 1 else reps)"

definition per_rep :: "int \<Rightarrow> nat \<Rightarrow> rat \<Rightarrow> rat" where
  "per_rep sp reps x = (if reps \<noteq> 0 then dbl (x / dbl (of_nat reps / of_int sp)) else x)"

definition column_sum :: "screen \<Rightarrow> grapher \<Rightarrow> nat \<Rightarrow> int \<Rightarrow> (int \<times> int) list \<Rightarrow> rat option" where
  "column_sum s g k sp tms = map_option (\<lambda>(ax, reps). per_rep sp reps ax)
     (fold_opt (\<lambda>tm (ax, reps). map_option (\<lambda>(d, r).
        (dbl (dbl (ax + rate s sp d) + rate s sp r), count_rep k d reps)) (bottom_pair g k tm)) tms (0, 0))"

definition column_pair :: "screen \<Rightarrow> grapher \<Rightarrow> nat \<Rightarrow> int \<Rightarrow> (int \<times> int) list \<Rightarrow> (rat \<times> rat) option" where
  "column_pair s g k sp tms = map_option (\<lambda>(ax, bx, reps). (per_rep sp reps ax, per_rep sp reps bx))
     (fold_opt (\<lambda>tm (ax, bx, reps). map_option (\<lambda>(d, r).
        (dbl (ax + rate s sp d), dbl (bx + rate s sp r), count_rep k d reps)) (bottom_pair g k tm)) tms (0, 0, 0))"

definition bottom_max :: "screen \<Rightarrow> grapher \<Rightarrow> nat \<Rightarrow> int \<Rightarrow> rat option" where
  "bottom_max s g k sp = fold_opt (\<lambda>i lmax. map_option (\<lambda>ax. if lmax < ax then ax else lmax)
     (column_sum s g k sp (period (nsys g) sp (last_second g) i))) (columns sp (last_second g)) 0"

definition col_x :: "screen \<Rightarrow> int \<Rightarrow> int \<Rightarrow> int" where
  "col_x s sp i = M_LEFT s + 1 + i sdiv sp"

definition column_lines :: "screen \<Rightarrow> nat \<Rightarrow> rat \<Rightarrow> int \<Rightarrow> int \<Rightarrow> rat \<times> rat \<Rightarrow> cmd list" where
  "column_lines s k yscal base x = (\<lambda>(ax, bx).
     (if ax > 0 then [Fg k (Col k 0), Seg (Gc k) x (below base \<lceil>dbl (ax * yscal)\<rceil>) x base] else []) @
     (if bx > 0 then [Fg k (Col k 1),
        Seg (Gc k) x (below base \<lceil>dbl (dbl (ax + bx) * yscal)\<rceil>) x (below base \<lceil>dbl (ax * yscal)\<rceil>)] else []))"

text \<open>With a \<open>sperpx\<close> of 0 or below the loops make no progress or leave the arrays: None.\<close>

definition update_bottom :: "screen \<Rightarrow> grapher \<Rightarrow> nat \<Rightarrow> int \<Rightarrow> (u32 \<times> cmd list) option" where
  "update_bottom s g k drawh = (let sp = sperpx (views s ! k); cxt = last_second g in
     if sp \<le> 0 then None
     else (case bottom_max s g k sp of None \<Rightarrow> None
     | Some m \<Rightarrow> (case drawymarks s k 1 m of None \<Rightarrow> None
       | Some (lmax, mx, axis) \<Rightarrow>
           let yscal = dbl (of_int drawh / lmax); base = ah (views s ! k) 1 - M_BOT s in
           map_option (\<lambda>cs. (mx, axis @ cs @ [Copy]))
             (fold_opt (\<lambda>i cs. map_option (\<lambda>p. cs @ column_lines s k yscal base (col_x s sp i) p)
                (column_pair s g k sp (period (nsys g) sp cxt i))) (columns sp cxt) []))))"

section \<open>update\_multi\_bottom\<close>

definition INTERVAL :: int where "INTERVAL = 1"

text \<open>\<open>ceil((double)h / sperpx) / p\<close>\<close>

definition up_rate :: "int \<Rightarrow> int \<Rightarrow> u64 \<Rightarrow> rat" where
  "up_rate sp p v = dbl (of_int \<lceil>dbl (dword v / of_int sp)\<rceil> / of_int p)"

text \<open>The seconds and systems of a column in the order of the first pass: systems outside.\<close>

definition period_by_system :: "int \<Rightarrow> int \<Rightarrow> int \<Rightarrow> int \<Rightarrow> (int \<times> int) list" where
  "period_by_system n sp cxt i = concat (map (\<lambda>m. map (\<lambda>j. (i + j, m)) [0..min (sp - 1) (cxt - i)]) [0..n - 1])"

text \<open>The first pass divides by the macro \<open>INTERVAL\<close>, not by \<open>interval\<close>.\<close>

definition multi_column_sum :: "screen \<Rightarrow> grapher \<Rightarrow> int \<Rightarrow> (int \<times> int) list \<Rightarrow> rat option" where
  "multi_column_sum s g sp tms = (let p = (if gauge s then 1 else INTERVAL) in
     fold_opt (\<lambda>tm ax. fold_opt (\<lambda>k ax. map_option (\<lambda>(d, r).
        dbl (dbl (ax + up_rate sp p d) + up_rate sp p r)) (pair_at g k (fst tm) (snd tm))) (traffic g) ax) tms 0)"

text \<open>\<open>bx[0]\<close> is 0.\<close>

definition multi_bottom_max :: "screen \<Rightarrow> grapher \<Rightarrow> int \<Rightarrow> rat option" where
  "multi_bottom_max s g sp = fold_opt (\<lambda>i lmax. map_option (\<lambda>ax. if lmax < dbl (ax + 0) then dbl (ax + 0) else lmax)
     (multi_column_sum s g sp (period_by_system (nsys g) sp (last_second g) i))) (columns sp (last_second g)) 0"

text \<open>\<open>ax[k]\<close> and \<open>bx[k]\<close>; what is added for one window does not depend on the others.\<close>

definition window_pair :: "screen \<Rightarrow> grapher \<Rightarrow> int \<Rightarrow> (int \<times> int) list \<Rightarrow> nat \<Rightarrow> (rat \<times> rat) option" where
  "window_pair s g sp tms k = fold_opt (\<lambda>tm (a, b). map_option (\<lambda>(h, h').
       (if h \<noteq> 0 then dbl (a + up_rate sp (per_tick s) h) else a,
        if h' \<noteq> 0 then dbl (b + up_rate sp (per_tick s) h') else b)) (pair_at g k (fst tm) (snd tm))) tms (0, 0)"

definition window_pairs :: "screen \<Rightarrow> grapher \<Rightarrow> int \<Rightarrow> (int \<times> int) list \<Rightarrow> (nat \<times> rat \<times> rat) list option" where
  "window_pairs s g sp tms = fold_opt (\<lambda>k ps. map_option (\<lambda>ab. ps @ [(k, ab)]) (window_pair s g sp tms k)) (traffic g) []"

definition multi_height :: "rat \<Rightarrow> (nat \<times> rat \<times> rat) list \<Rightarrow> int" where
  "multi_height yscal ps = sum_list (map (\<lambda>(k, a, b). if a \<noteq> 0 \<or> b \<noteq> 0 then \<lceil>dbl (dbl (a + b) * yscal)\<rceil> else 0) ps)"

text \<open>One part of a column, from \<open>y\<close> down; and the column.\<close>

definition part :: "rat \<Rightarrow> int \<Rightarrow> int \<Rightarrow> nat \<Rightarrow> nat \<Rightarrow> rat \<Rightarrow> cmd list" where
  "part yscal x y k lvl a =
     (if a \<noteq> 0 then [Fg k (Col k lvl), Seg (Gc k) x y x \<lceil>dbl (of_int y + dbl (a * yscal))\<rceil>] else [])"

fun parts :: "rat \<Rightarrow> int \<Rightarrow> int \<Rightarrow> (nat \<times> rat \<times> rat) list \<Rightarrow> cmd list" where
  "parts yscal x y [] = []"
| "parts yscal x y ((k, a, b) # ps) =
     (let y1 = (if a \<noteq> 0 then y + \<lceil>dbl (a * yscal)\<rceil> else y);
          y2 = (if b \<noteq> 0 then y1 + \<lceil>dbl (b * yscal)\<rceil> else y1)
      in part yscal x y k 0 a @ part yscal x y1 k 1 b @ parts yscal x y2 ps)"

definition multi_column :: "nat \<Rightarrow> rat \<Rightarrow> int \<Rightarrow> int \<Rightarrow> (nat \<times> rat \<times> rat) list \<Rightarrow> cmd list" where
  "multi_column which yscal base x ps = (let y = base - multi_height yscal ps in
     Seg (Gc which) x y x y # parts yscal x y ps)"

definition update_multi_bottom :: "screen \<Rightarrow> grapher \<Rightarrow> nat \<Rightarrow> int \<Rightarrow> (u32 \<times> cmd list) option" where
  "update_multi_bottom s g which drawh = (let sp = sperpx (views s ! which); cxt = last_second g in
     if sp \<le> 0 then None
     else (case multi_bottom_max s g sp of None \<Rightarrow> None
     | Some m \<Rightarrow> (case drawymarks s which 1 m of None \<Rightarrow> None
       | Some (lmax, mx, axis) \<Rightarrow>
           let delta = 1 + int (length (wins g)) - W_OTHER;
               yscal = dbl (of_int (drawh - delta) / lmax); base = ah (views s ! which) 1 - M_BOT s in
           map_option (\<lambda>cs. (mx, axis @ cs @ [Copy]))
             (fold_opt (\<lambda>i cs. map_option (\<lambda>ps. cs @ multi_column which yscal base (col_x s sp i) ps)
                (window_pairs s g sp (period (nsys g) sp cxt i))) (columns sp cxt) []))))"

section \<open>Lemmas: columns\<close>

lemma columns_range: "0 < sp \<Longrightarrow> i \<in> set (columns sp cxt) \<Longrightarrow> 0 \<le> i \<and> i \<le> cxt \<and> i sdiv sp = i div sp"
proof -
  assume sp: "0 < sp" and i: "i \<in> set (columns sp cxt)"
  then obtain c where c: "i = c * sp" "0 \<le> c" "c \<le> cxt div sp" by (auto simp: columns_def)
  have "c * sp \<le> cxt div sp * sp" using c(3) sp by (intro mult_right_mono) auto
  also have "\<dots> \<le> cxt" using div_mult_mod_eq [of cxt sp] pos_mod_sign [OF sp, of cxt] by linarith
  finally show ?thesis using c sp by (simp add: signed_divide_int_def sgn_if zero_le_mult_iff)
qed

lemma period_range:
  "(t, m) \<in> set (period n sp cxt i) \<Longrightarrow> 0 \<le> i \<Longrightarrow> 0 \<le> t \<and> t \<le> cxt \<and> 0 \<le> m \<and> m < n"
  by (auto simp: period_def)

lemma period_by_system_set: "set (period_by_system n sp cxt i) = set (period n sp cxt i)"
  by (auto simp: period_def period_by_system_def)

lemma bottom_pair_Some:
  assumes "grapher_ok g" and "k < length (wins g)" and "curtime g \<le> 1860"
    and "tm \<in> set (period (nsys g) sp (last_second g) i)" and "0 \<le> i"
  shows "bottom_pair g k tm = Some (own_at g k (fst tm) (snd tm), relayed_at g k (fst tm) (snd tm))"
proof -
  have r: "0 \<le> fst tm" "fst tm < DEFTLEN" "0 \<le> snd tm" "snd tm < nsys g"
    using period_range [of "fst tm" "snd tm" "nsys g" sp "last_second g" i] assms(4,5)
      last_second_range [OF assms(3)] by auto
  show ?thesis
    using peek_cell [OF assms(1,2) r, of False] peek_cell [OF assms(1,2) r, of True]
    by (simp add: bottom_pair_def own_at_def relayed_at_def cell_def case_prod_unfold algebra_simps)
qed

text \<open>The two sums of a column, and how often a system reported in it.\<close>

abbreviation own_in :: "grapher \<Rightarrow> nat \<Rightarrow> int \<times> int \<Rightarrow> u64" where
  "own_in g k tm \<equiv> own_at g k (fst tm) (snd tm)"

abbreviation relayed_in :: "grapher \<Rightarrow> nat \<Rightarrow> int \<times> int \<Rightarrow> u64" where
  "relayed_in g k tm \<equiv> relayed_at g k (fst tm) (snd tm)"

definition reports :: "grapher \<Rightarrow> nat \<Rightarrow> (int \<times> int) list \<Rightarrow> nat" where
  "reports g k tms = (if averaged k then length (filter (\<lambda>tm. own_in g k tm \<noteq> 0) tms) else 0)"

lemma count_reports: "fold (\<lambda>tm r. count_rep k (own_in g k tm) r) tms n = n + reports g k tms"
  by (induction tms arbitrary: n) (auto simp: reports_def count_rep_def)

lemma column_sums:
  assumes "\<forall>tm \<in> set tms. bottom_pair g k tm = Some (own_in g k tm, relayed_in g k tm)"
  shows "column_sum s g k sp tms = Some (per_rep sp (reports g k tms)
      (fold (\<lambda>tm a. dbl (dbl (a + rate s sp (own_in g k tm)) + rate s sp (relayed_in g k tm))) tms 0))"
    and "column_pair s g k sp tms = Some
      (per_rep sp (reports g k tms) (fold (\<lambda>tm a. dbl (a + rate s sp (own_in g k tm))) tms 0),
       per_rep sp (reports g k tms) (fold (\<lambda>tm b. dbl (b + rate s sp (relayed_in g k tm))) tms 0))"
proof -
  let ?F = "\<lambda>tm a. dbl (dbl (a + rate s sp (own_in g k tm)) + rate s sp (relayed_in g k tm))"
    and ?A = "\<lambda>tm a. dbl (a + rate s sp (own_in g k tm))" and ?B = "\<lambda>tm b. dbl (b + rate s sp (relayed_in g k tm))"
    and ?R = "\<lambda>tm r. count_rep k (own_in g k tm) r"
  have "fold_opt (\<lambda>tm (ax, reps). map_option (\<lambda>(d, r).
      (dbl (dbl (ax + rate s sp d) + rate s sp r), count_rep k d reps)) (bottom_pair g k tm)) tms (0, 0) =
    Some (fold (\<lambda>tm (a, r). (?F tm a, ?R tm r)) tms (0, 0))"
    using assms by (intro fold_opt_Some) auto
  then show "column_sum s g k sp tms = Some (per_rep sp (reports g k tms) (fold ?F tms 0))"
    by (simp add: column_sum_def fold_pair count_reports)
  have "fold_opt (\<lambda>tm (ax, bx, reps). map_option (\<lambda>(d, r).
      (dbl (ax + rate s sp d), dbl (bx + rate s sp r), count_rep k d reps)) (bottom_pair g k tm)) tms (0, 0, 0) =
    Some (fold (\<lambda>tm (a, br). (?A tm a, (\<lambda>(b, r). (?B tm b, ?R tm r)) br)) tms (0, 0, 0))"
    using assms by (intro fold_opt_Some) auto
  then show "column_pair s g k sp tms = Some (per_rep sp (reports g k tms) (fold ?A tms 0),
      per_rep sp (reports g k tms) (fold ?B tms 0))"
    by (simp add: column_pair_def fold_pair [where f = ?A and h = "\<lambda>tm (b, r). (?B tm b, ?R tm r)"]
        fold_pair [where f = ?B and h = ?R] count_reports)
qed

section \<open>Lemmas: the two passes agree\<close>

lemma dword_near: "near 1 (dword v) (of_nat (unat v))"
  unfolding dword_def by (rule near_dbl) (rule of_nat_0_le_iff)

lemma rate_near:
  assumes "0 < sp" and "0 < per_tick s"
  shows "near 3 (rate s sp v) (of_nat (unat v) / of_int sp / of_int (per_tick s))"
proof -
  have p: "(0 :: rat) \<le> of_int sp" "(0 :: rat) \<le> of_int (per_tick s)" using assms by simp_all
  have "near (Suc (Suc 1)) (rate s sp v) (of_nat (unat v) / of_int sp / of_int (per_tick s))"
    unfolding rate_def by (intro near_round near_divide dword_near p)
  then show ?thesis unfolding numeral_3_eq_3 One_nat_def .
qed

definition exact_per_rep :: "int \<Rightarrow> nat \<Rightarrow> rat \<Rightarrow> rat" where
  "exact_per_rep sp reps x = (if reps \<noteq> 0 then x / (of_nat reps / of_int sp) else x)"

lemma per_rep_near:
  assumes "near q a b" and "0 < sp"
  shows "near (q + 2) (per_rep sp reps a) (exact_per_rep sp reps b)"
proof (cases "reps = 0")
  case False
  then have p: "0 < of_nat reps / (of_int sp :: rat)" using assms(2) by simp
  have "near (Suc (q + 1)) (dbl (a / dbl (of_nat reps / of_int sp))) (b / (of_nat reps / of_int sp))"
    using assms(1) near_dbl [of "of_nat reps / of_int sp"] dbl_pos [OF p] p
    by (intro near_round near_quotient) auto
  then show ?thesis using False by (simp add: per_rep_def exact_per_rep_def)
next
  case True
  then show ?thesis using near_mono [OF assms(1)] by (simp add: per_rep_def exact_per_rep_def)
qed

lemma exact_per_rep_add: "exact_per_rep sp r (a + b) = exact_per_rep sp r a + exact_per_rep sp r b"
  by (simp only: exact_per_rep_def add_divide_distrib split: if_split) simp

lemma first_pass_near:
  assumes "0 < sp" and "0 < per_tick s"
  shows "near (3 + 2 * length tms + 2)
    (per_rep sp r (fold (\<lambda>tm a. dbl (dbl (a + rate s sp (own_in g k tm)) + rate s sp (relayed_in g k tm))) tms 0))
    (exact_per_rep sp r
      (sum_list (map (\<lambda>tm. of_nat (unat (own_in g k tm)) / of_int sp / of_int (per_tick s)) tms) +
       sum_list (map (\<lambda>tm. of_nat (unat (relayed_in g k tm)) / of_int sp / of_int (per_tick s)) tms)))"
proof -
  let ?o = "\<lambda>tm. of_nat (unat (own_in g k tm)) / of_int sp / of_int (per_tick s) :: rat"
    and ?l = "\<lambda>tm. of_nat (unat (relayed_in g k tm)) / of_int sp / of_int (per_tick s) :: rat"
    and ?C = "fold (\<lambda>tm a. dbl (dbl (a + rate s sp (own_in g k tm)) + rate s sp (relayed_in g k tm))) tms 0"
  have "near (3 + 0 + 2 * length tms) ?C (0 + sum_list (map ?o tms) + sum_list (map ?l tms))"
    by (rule near_sum2 [OF _ near_refl]) (intro ballI conjI rate_near [OF assms], simp)
  then have "near (3 + 2 * length tms) ?C (sum_list (map ?o tms) + sum_list (map ?l tms))"
    by (simp only: add_0_left add_0_right)
  then show ?thesis by (rule per_rep_near [OF _ assms(1)])
qed

text \<open>The sum of the first pass and the two of the second are the same number up to rounding.\<close>

lemma passes_agree:
  assumes "0 < sp" and "0 < per_tick s"
    and "\<forall>tm \<in> set tms. bottom_pair g k tm = Some (own_in g k tm, relayed_in g k tm)"
  shows "\<exists>ax a b. column_sum s g k sp tms = Some ax \<and> column_pair s g k sp tms = Some (a, b) \<and>
    0 \<le> a \<and> 0 \<le> b \<and> near (3 * length tms + 10) (a + b) ax"
proof -
  let ?p = "of_int sp" and ?q = "of_int (per_tick s)" and ?n = "length tms" and ?r = "reports g k tms"
  let ?o = "\<lambda>tm. of_nat (unat (own_in g k tm)) / ?p / ?q :: rat"
    and ?l = "\<lambda>tm. of_nat (unat (relayed_in g k tm)) / ?p / ?q :: rat"
  define A where "A = fold (\<lambda>tm a. dbl (a + rate s sp (own_in g k tm))) tms 0"
  define B where "B = fold (\<lambda>tm b. dbl (b + rate s sp (relayed_in g k tm))) tms 0"
  define C where "C = fold (\<lambda>tm a. dbl (dbl (a + rate s sp (own_in g k tm)) + rate s sp (relayed_in g k tm))) tms 0"
  have z: "near q 0 0" for q by (rule near_refl) simp
  note rn = rate_near [OF assms(1,2)]
  have sum: "near (3 + 0 + ?n) (fold (\<lambda>tm a. dbl (a + f tm)) tms 0) (0 + sum_list (map h tms))"
    if "\<forall>tm \<in> set tms. near 3 (f tm) (h tm)" for f h
    using that z by (rule near_sum)
  have "near (3 + 0 + ?n) A (0 + sum_list (map ?o tms))" "near (3 + 0 + ?n) B (0 + sum_list (map ?l tms))"
    unfolding A_def B_def by (rule sum, rule ballI, rule rn)+
  note nAB = this [unfolded add_0_left add_0_right]
  have AB: "near (3 + ?n + 2) (per_rep sp ?r A) (exact_per_rep sp ?r (sum_list (map ?o tms)))"
    "near (3 + ?n + 2) (per_rep sp ?r B) (exact_per_rep sp ?r (sum_list (map ?l tms)))"
    by (rule per_rep_near [OF nAB(1) assms(1)], rule per_rep_near [OF nAB(2) assms(1)])
  have C: "near (3 + 2 * ?n + 2) (per_rep sp ?r C)
      (exact_per_rep sp ?r (sum_list (map ?o tms)) + exact_per_rep sp ?r (sum_list (map ?l tms)))"
    unfolding exact_per_rep_add [symmetric] C_def by (rule first_pass_near [OF assms(1,2)])
  have "near ((3 + ?n + 2) + (3 + 2 * ?n + 2)) (per_rep sp ?r A + per_rep sp ?r B) (per_rep sp ?r C)"
    by (rule near_trans [OF near_add [OF AB] near_sym [OF C]])
  moreover have "(3 + ?n + 2) + (3 + 2 * ?n + 2) = 3 * ?n + 10" by simp
  ultimately have "near (3 * ?n + 10) (per_rep sp ?r A + per_rep sp ?r B) (per_rep sp ?r C)" by (simp only:)
  moreover have "0 \<le> per_rep sp ?r A" "0 \<le> per_rep sp ?r B" using AB by (auto simp: near_def)
  ultimately show ?thesis
    using column_sums [OF assms(3)] by (auto simp: A_def B_def C_def)
qed

section \<open>Lemmas: what update\_bottom draws\<close>

lemma per_rep_dbl: "dbl x = x \<Longrightarrow> 0 \<le> x \<Longrightarrow> 0 < sp \<Longrightarrow> dbl (per_rep sp r x) = per_rep sp r x"
  using dbl_nonneg [of "of_nat r / of_int sp"] by (simp add: per_rep_def)

lemma rate_nonneg: "0 \<le> sp \<Longrightarrow> 0 \<le> per_tick s \<Longrightarrow> 0 \<le> rate s sp v"
  unfolding rate_def by (intro dbl_nonneg divide_nonneg_nonneg dword_nonneg) simp_all

text \<open>The two parts of a column are themselves rounded numbers.\<close>

lemma column_pair_dbl:
  assumes "0 < sp" and "0 < per_tick s"
    and "\<forall>tm \<in> set tms. bottom_pair g k tm = Some (own_in g k tm, relayed_in g k tm)"
    and "column_pair s g k sp tms = Some (a, b)"
  shows "dbl a = a"
proof -
  let ?A = "fold (\<lambda>tm a. dbl (a + rate s sp (own_in g k tm))) tms 0"
  have "dbl ?A = ?A \<and> 0 \<le> ?A"
    by (rule fold_invariant_on) (use assms(1,2) rate_nonneg [of sp s] in \<open>auto intro!: dbl_nonneg\<close>)
  then show ?thesis using assms(4) per_rep_dbl [OF _ _ assms(1)] by (auto simp: column_sums(2) [OF assms(3)])
qed

definition column_parts :: "screen \<Rightarrow> grapher \<Rightarrow> nat \<Rightarrow> int \<Rightarrow> rat \<times> rat" where
  "column_parts s g k i = (let sp = sperpx (views s ! k) in
     the (column_pair s g k sp (period (nsys g) sp (last_second g) i)))"

text \<open>A column fits the scale, up to the roundings the length of its period allows.\<close>

lemma column_fits:
  assumes "near n (a + b) ax" and "0 \<le> a" "0 \<le> b" "dbl a = a" and "ax \<le> hi" "0 < hi" and "0 \<le> D"
    and "of_nat (n + 3) * (of_int D + 1) * eps \<le> 1"
  shows "\<lceil>dbl (dbl (a + b) * dbl (of_int D / hi))\<rceil> \<le> D + 1"
    and "\<lceil>dbl (a * dbl (of_int D / hi))\<rceil> \<le> \<lceil>dbl (dbl (a + b) * dbl (of_int D / hi))\<rceil>"
    and "0 \<le> \<lceil>dbl (a * dbl (of_int D / hi))\<rceil>"
proof -
  let ?y = "dbl (of_int D / hi)"
  have y: "0 \<le> ?y" using assms(6,7) by (intro dbl_nonneg) simp
  have "near (Suc n) (dbl (a + b) * ?y) (ax * ?y)"
    using near_round [OF assms(1)] y by (rule near_mult)
  moreover have "0 \<le> ax" using assms(1) by (simp add: near_def)
  then have "near 1 (ax * ?y) (ax * (of_int D / hi))"
    using near_mult [OF near_dbl [of "of_int D / hi"], of ax] assms(6,7) by (simp add: mult.commute)
  ultimately have "near (Suc n + 1) (dbl (a + b) * ?y) (ax * (of_int D / hi))" by (rule near_trans)
  then have "near (Suc (Suc n + 1)) (dbl (dbl (a + b) * ?y)) (ax * (of_int D / hi))" by (rule near_round)
  then have "near (n + 3) (dbl (dbl (a + b) * ?y)) (ax * (of_int D / hi))" by (simp add: numeral_3_eq_3)
  moreover have "ax * (of_int D / hi) \<le> hi * (of_int D / hi)" using assms(5-7) by (intro mult_right_mono) auto
  then have "ax * (of_int D / hi) \<le> of_int D" using assms(6) by simp
  ultimately have "dbl (dbl (a + b) * ?y) \<le> of_int D + 1" using assms(7,8) by (rule near_int_bound)
  then show "\<lceil>dbl (dbl (a + b) * ?y)\<rceil> \<le> D + 1" by (simp add: ceiling_le_iff)
  have "dbl a \<le> dbl (a + b)" using assms(2,3) by (intro dbl_mono) auto
  then have "a * ?y \<le> dbl (a + b) * ?y" using y assms(4) by (intro mult_right_mono) auto
  then show "\<lceil>dbl (a * ?y)\<rceil> \<le> \<lceil>dbl (dbl (a + b) * ?y)\<rceil>"
    using assms(2) y by (intro ceiling_mono dbl_mono mult_nonneg_nonneg)
  have "0 \<le> dbl (a * ?y)" by (rule dbl_nonneg) (rule mult_nonneg_nonneg [OF assms(2) y])
  then show "0 \<le> \<lceil>dbl (a * ?y)\<rceil>" by simp
qed

lemma period_length: "0 < sp \<Longrightarrow> int (length (period n sp cxt i)) \<le> max 0 (sp * n)"
proof -
  assume h: "0 < sp"
  have "length (period n sp cxt i) = length [0..min (sp - 1) (cxt - i)] * nat n"
    by (simp add: period_def length_concat comp_def sum_list_triv)
  also have "\<dots> \<le> nat sp * nat n" by (intro mult_right_mono) auto
  finally have "int (length (period n sp cxt i)) \<le> int (nat sp * nat n)" by (rule of_nat_mono)
  then show ?thesis using h by (cases "0 \<le> n") auto
qed

text \<open>What a successful \<open>update_bottom\<close> drew: the scale reaches the sum of every column.\<close>

lemma update_bottom_calls:
  assumes "update_bottom s g k drawh = Some (mx, cs)"
    and "grapher_ok g" and "k < length (wins g)" and "curtime g \<le> 1860" and "0 < per_tick s"
  defines "sp \<equiv> sperpx (views s ! k)" and "base \<equiv> ah (views s ! k) 1 - M_BOT s"
  obtains hi axis where "0 < sp" and "0 < hi"
    and "\<forall>j u v w h. Seg (Gc j) u v w h \<notin> set axis"
    and "cs = axis @ concat (map (\<lambda>i. column_lines s k (dbl (of_int drawh / hi)) base (col_x s sp i) (column_parts s g k i))
        (columns sp (last_second g))) @ [Copy]"
    and "\<And>i. i \<in> set (columns sp (last_second g)) \<Longrightarrow> \<exists>ax a b. column_parts s g k i = (a, b) \<and> ax \<le> hi \<and>
        near (3 * length (period (nsys g) sp (last_second g) i) + 10) (a + b) ax \<and> 0 \<le> a \<and> 0 \<le> b \<and> dbl a = a"
proof -
  let ?cols = "columns sp (last_second g)" and ?P = "\<lambda>i. period (nsys g) sp (last_second g) i"
  have sp: "0 < sp" using assms(1) by (auto simp: update_bottom_def Let_def sp_def split: if_splits)
  have pairs: "\<forall>tm \<in> set (?P i). bottom_pair g k tm = Some (own_in g k tm, relayed_in g k tm)" if "i \<in> set ?cols" for i
    using bottom_pair_Some [OF assms(2-4)] columns_range [OF sp that] by blast
  note agree = passes_agree [OF sp assms(5) pairs]
  define S where "S = (\<lambda>i. the (column_sum s g k sp (?P i)))"
  have S: "column_sum s g k sp (?P i) = Some (S i)" if "i \<in> set ?cols" for i
    using agree [OF that] by (auto simp: S_def)
  have parts: "column_pair s g k sp (?P i) = Some (column_parts s g k i)" if "i \<in> set ?cols" for i
    using agree [OF that] by (auto simp: column_parts_def Let_def sp_def [symmetric])
  define m where "m = fold (\<lambda>i m. if m < S i then S i else m) ?cols 0"
  have m: "bottom_max s g k sp = Some m"
    unfolding bottom_max_def m_def by (rule fold_opt_Some) (simp add: S)
  obtain hi mx' axis where d: "drawymarks s k 1 m = Some (hi, mx', axis)"
    using assms(1) m sp by (auto simp: update_bottom_def Let_def sp_def split: option.splits if_splits)
  have "fold_opt (\<lambda>i cs. map_option (\<lambda>p. cs @ F i p) (column_pair s g k sp (?P i))) ?cols [] =
      Some (fold (\<lambda>i cs. cs @ F i (column_parts s g k i)) ?cols [])" for F :: "int \<Rightarrow> rat \<times> rat \<Rightarrow> cmd list"
    by (rule fold_opt_Some) (simp add: parts)
  then have "cs = axis @ concat (map (\<lambda>i. column_lines s k (dbl (of_int drawh / hi)) base (col_x s sp i)
      (column_parts s g k i)) ?cols) @ [Copy]"
    using assms(1) sp m d
    by (auto simp: update_bottom_def Let_def fold_append_map sp_def [symmetric] base_def)
  moreover have "\<forall>j u v w h. Seg (Gc j) u v w h \<notin> set axis"
    using d by (auto simp: drawymarks_def Let_def split: if_splits)
  moreover have "\<exists>ax a b. column_parts s g k i = (a, b) \<and> ax \<le> hi \<and>
      near (3 * length (?P i) + 10) (a + b) ax \<and> 0 \<le> a \<and> 0 \<le> b \<and> dbl a = a" if i: "i \<in> set ?cols" for i
  proof -
    obtain ax a b where q: "column_sum s g k sp (?P i) = Some ax" "column_pair s g k sp (?P i) = Some (a, b)"
      "0 \<le> a" "0 \<le> b" "near (3 * length (?P i) + 10) (a + b) ax" using agree [OF i] by blast
    have "S i \<le> m" unfolding m_def using i by (rule fold_max(2))
    then have "ax \<le> hi" using drawymarks_Some(2) [OF d] q(1) S [OF i] by simp
    then show ?thesis using q parts [OF i] column_pair_dbl [OF sp assms(5) pairs [OF i] q(2)] by auto
  qed
  ultimately show ?thesis using that sp drawymarks_Some(1,4) [OF d] m by auto
qed

section \<open>Properties of update\_bottom\<close>

text \<open>What a column of the history stands for: the traffic per second of its period, or, in the
  windows for memory, processor and delay, the mean of the samples that were reported.\<close>

definition column_value :: "screen \<Rightarrow> grapher \<Rightarrow> nat \<Rightarrow> int \<Rightarrow> (int \<times> int) list \<Rightarrow> rat" where
  "column_value s g k sp tms =
     of_nat (sum_list (map (\<lambda>tm. unat (own_in g k tm) + unat (relayed_in g k tm)) tms)) /
     (if reports g k tms \<noteq> 0 then of_nat (reports g k tms) else of_int sp) / of_int (per_tick s)"

lemma sum_list_scaled:
  "sum_list (map (\<lambda>x. of_nat (f x) / p / q) xs) + sum_list (map (\<lambda>x. of_nat (h x) / p / q) xs) =
    of_nat (sum_list (map (\<lambda>x. f x + h x) xs)) / p / (q :: rat)"
  by (induction xs) (simp_all add: add_divide_distrib)

lemma exact_column_value:
  "0 < sp \<Longrightarrow> exact_per_rep sp (reports g k tms)
     (of_nat (sum_list (map (\<lambda>tm. unat (own_in g k tm) + unat (relayed_in g k tm)) tms)) / of_int sp / of_int (per_tick s)) =
   column_value s g k sp tms"
  by (simp add: exact_per_rep_def column_value_def)

text \<open>C20: a column of the history shows the traffic per second of its period, or, in the windows
  for memory, processor and delay, the mean of the samples that were reported, whatever the
  number of seconds it stands for: the value the first pass takes for the scale is that
  number up to two roundings per sample. (Outside gauge mode the mean, too, is divided by
  the interval.)\<close>

theorem column_shows_mean:
  assumes "grapher_ok g" and "k < length (wins g)" and "curtime g \<le> 1860" and "0 < per_tick s"
    and "0 < sp" and "0 \<le> i"
  shows "\<exists>ax. column_sum s g k sp (period (nsys g) sp (last_second g) i) = Some ax \<and>
    near (2 * length (period (nsys g) sp (last_second g) i) + 5) ax
      (column_value s g k sp (period (nsys g) sp (last_second g) i))"
proof -
  let ?tms = "period (nsys g) sp (last_second g) i"
  have pairs: "\<forall>tm \<in> set ?tms. bottom_pair g k tm = Some (own_in g k tm, relayed_in g k tm)"
    using bottom_pair_Some [OF assms(1-3)] assms(6) by blast
  note near = first_pass_near [OF assms(5,4), where tms = ?tms and r = "reports g k ?tms" and g = g and k = k,
      unfolded sum_list_scaled exact_column_value [OF assms(5)]]
  have "3 + 2 * length ?tms + 2 = 2 * length ?tms + 5" by simp
  note near' = near [unfolded this]
  show ?thesis by (rule exI, rule conjI, rule column_sums(1) [OF pairs], rule near')
qed

text \<open>C14: the two passes over the samples compute the same columns: the own and the relayed part
  that the second pass draws add up to the sum of the first pass, from which the scale comes,
  up to three roundings per sample.\<close>

theorem history_passes_agree:
  assumes "grapher_ok g" and "k < length (wins g)" and "curtime g \<le> 1860" and "0 < per_tick s"
    and "0 < sp" and "0 \<le> i"
  shows "\<exists>ax a b. column_sum s g k sp (period (nsys g) sp (last_second g) i) = Some ax \<and>
    column_pair s g k sp (period (nsys g) sp (last_second g) i) = Some (a, b) \<and>
    near (3 * length (period (nsys g) sp (last_second g) i) + 10) (a + b) ax"
  using passes_agree [OF assms(5,4), of "period (nsys g) sp (last_second g) i" g k]
    bottom_pair_Some [OF assms(1-3)] assms(6) by blast

text \<open>C12: every line of the history stands upright at a pixel of its column, between the top
  line of the frame and the base line, although the scale comes from sums that were added
  up in another way than the lines that are drawn; the accumulated rounding of up to a
  million samples in a column is less than the pixel there is to spare.\<close>

theorem columns_stay_inside:
  assumes "update_bottom s g k (plot_height s (views s ! k) 1 - 1) = Some (mx, cs)"
    and "grapher_ok g" and "k < length (wins g)" and "curtime g \<le> 1860" and "0 < per_tick s"
    and "area_ok s (views s ! k) 1" and "sperpx (views s ! k) * nsys g \<le> 2 ^ 20"
    and "Seg (Gc j) x y x' y' \<in> set cs"
  shows "j = k \<and> x' = x \<and> M_LEFT s + 1 \<le> x \<and> x \<le> M_LEFT s + 1 + (DEFTLEN - 1) div sperpx (views s ! k) \<and>
    M_TOP s \<le> y \<and> y \<le> y' \<and> y' \<le> ah (views s ! k) 1 - M_BOT s"
proof -
  let ?v = "views s ! k"
  let ?sp = "sperpx ?v" and ?base = "ah ?v 1 - M_BOT s" and ?D = "plot_height s ?v 1 - 1"
  obtain hi axis where sp: "0 < ?sp" and hi: "0 < hi"
    and axis: "\<forall>j u v w h. Seg (Gc j) u v w h \<notin> set axis"
    and cs: "cs = axis @ concat (map (\<lambda>i. column_lines s k (dbl (of_int ?D / hi)) ?base (col_x s ?sp i)
        (column_parts s g k i)) (columns ?sp (last_second g))) @ [Copy]"
    and fit: "\<And>i. i \<in> set (columns ?sp (last_second g)) \<Longrightarrow> \<exists>ax a b. column_parts s g k i = (a, b) \<and> ax \<le> hi \<and>
        near (3 * length (period (nsys g) ?sp (last_second g) i) + 10) (a + b) ax \<and> 0 \<le> a \<and> 0 \<le> b \<and> dbl a = a"
    by (rule update_bottom_calls [OF assms(1-5)], rule that)
  obtain i where i: "i \<in> set (columns ?sp (last_second g))" and
    mem: "Seg (Gc j) x y x' y' \<in> set (column_lines s k (dbl (of_int ?D / hi)) ?base (col_x s ?sp i) (column_parts s g k i))"
    using assms(8) axis by (auto simp: cs)
  obtain ax a b where q: "column_parts s g k i = (a, b)" "ax \<le> hi" "0 \<le> a" "0 \<le> b" "dbl a = a"
    "near (3 * length (period (nsys g) ?sp (last_second g) i) + 10) (a + b) ax" using fit [OF i] by blast
  define D where "D = ?D"
  have D: "0 \<le> D" "D + 1 \<le> 2 ^ 31" "?base = D + 1 + M_TOP s"
    using assms(6) margins_nonneg [of s] by (simp_all add: area_ok_def plot_height_def D_def)
  have "3 * length (period (nsys g) ?sp (last_second g) i) + 10 + 3 \<le> 3 * 2 ^ 20 + 13"
    using period_length [OF sp, of "nsys g" "last_second g" i] assms(7) by (simp add: max_def split: if_splits)
  then have "of_nat (3 * length (period (nsys g) ?sp (last_second g) i) + 10 + 3) \<le> (of_nat (3 * 2 ^ 20 + 13) :: rat)"
    by (rule of_nat_mono)
  moreover have "of_int (D + 1) \<le> (of_int (2 ^ 31) :: rat)" using D(2) by (simp only: of_int_le_iff)
  ultimately have "of_nat (3 * length (period (nsys g) ?sp (last_second g) i) + 10 + 3) * (of_int D + 1) * eps \<le>
      of_nat (3 * 2 ^ 20 + 13) * of_int (2 ^ 31) * eps"
    using D(1) eps_bounds by (intro mult_mono mult_right_mono) auto
  also have "\<dots> \<le> 1" by (simp add: eps_def)
  finally have bound: "of_nat (3 * length (period (nsys g) ?sp (last_second g) i) + 10 + 3) * (of_int D + 1) * eps \<le> 1" .
  define h where "h = \<lceil>dbl (a * dbl (of_int D / hi))\<rceil>"
  define h' where "h' = \<lceil>dbl (dbl (a + b) * dbl (of_int D / hi))\<rceil>"
  have h: "0 \<le> h" "h \<le> h'" "h' \<le> D + 1"
    using column_fits [OF q(6,3,4,5,2) hi D(1) bound] unfolding h_def h'_def by auto
  have b: "below ?base p = ?base - p" if "0 \<le> p" "p \<le> D + 1" for p
    using that D margins_nonneg [of s] assms(6) by (intro below_exact) (auto simp: area_ok_def)
  have r: "0 \<le> i" "i \<le> last_second g" "col_x s ?sp i = M_LEFT s + 1 + i div ?sp"
    using columns_range [OF sp i] by (auto simp: col_x_def)
  have "0 \<le> i div ?sp" "i div ?sp \<le> (DEFTLEN - 1) div ?sp"
    using r sp last_second_range [OF assms(4)] by (auto intro: zdiv_mono1 simp: pos_imp_zdiv_nonneg_iff)
  moreover have "column_lines s k (dbl (of_int ?D / hi)) ?base (col_x s ?sp i) (column_parts s g k i) =
    (if a > 0 then [Fg k (Col k 0), Seg (Gc k) (col_x s ?sp i) (below ?base h) (col_x s ?sp i) ?base] else []) @
    (if b > 0 then [Fg k (Col k 1), Seg (Gc k) (col_x s ?sp i) (below ?base h') (col_x s ?sp i) (below ?base h)] else [])"
    by (simp only: column_lines_def q(1) D_def h_def h'_def prod.case)
  ultimately show ?thesis
    using mem h b [of h] b [of h'] r(3) D(3) by (auto split: if_splits)
qed

section \<open>Witnesses\<close>

lemma pic_period: "period 1 1 0 0 = [(0, 0)]"
  by (simp add: period_def)

theorem column_shows_mean_witness:
  "\<exists>ax. column_sum pic_screen pic_grapher 1 1 [(0, 0)] = Some ax \<and> near 7 ax 10"
proof -
  have "column_value pic_screen pic_grapher 1 1 [(0, 0)] = 10"
    by (simp add: column_value_def reports_def averaged_def win_defs pic_at pic_screen_simps)
  then show ?thesis
    using column_shows_mean [OF pic_grapher_simps(1), of 1 pic_screen 1 0]
    by (simp add: pic_grapher_simps pic_screen_simps pic_period)
qed

theorem history_passes_agree_witness:
  "\<exists>ax a b. column_sum pic_screen pic_grapher 4 1 [(0, 0)] = Some ax \<and>
    column_pair pic_screen pic_grapher 4 1 [(0, 0)] = Some (a, b) \<and> near 13 (a + b) ax"
  using history_passes_agree [OF pic_grapher_simps(1), of 4 pic_screen 1 0]
  by (simp add: pic_grapher_simps pic_screen_simps pic_period)

lemma pic_column:
  "column_sum pic_screen pic_grapher 4 1 [(0, 0)] = Some 10"
  "column_pair pic_screen pic_grapher 4 1 [(0, 0)] = Some (7, 3)"
proof -
  have d: "dbl 7 = 7" "dbl 3 = 3" "dbl 10 = 10"
    using dbl_of_nat [of 7] dbl_of_nat [of 3] dbl_of_nat [of 10] by simp_all
  have pair: "\<forall>tm \<in> set [(0, 0)]. bottom_pair pic_grapher 4 tm = Some (own_in pic_grapher 4 tm, relayed_in pic_grapher 4 tm)"
    using bottom_pair_Some [OF pic_grapher_simps(1), of 4 _ 1 0] by (simp add: pic_grapher_simps pic_period)
  have rate: "rate pic_screen 1 7 = 7" "rate pic_screen 1 3 = 3"
    using dword_exact [of 7] dword_exact [of 3] by (simp_all add: rate_def pic_screen_simps d)
  have r: "reports pic_grapher 4 [(0, 0)] = 0" by (simp add: reports_def averaged_def win_defs)
  show "column_sum pic_screen pic_grapher 4 1 [(0, 0)] = Some 10"
    "column_pair pic_screen pic_grapher 4 1 [(0, 0)] = Some (7, 3)"
    using column_sums [OF pair, of pic_screen 1] by (simp_all add: r per_rep_def pic_at rate d)
qed

theorem columns_stay_inside_witness:
  "\<exists>mx cs y y'. update_bottom pic_screen pic_grapher 4 178 = Some (mx, cs) \<and> Seg (Gc 4) 26 y 26 y' \<in> set cs \<and>
    7 \<le> y \<and> y \<le> y' \<and> y' \<le> 186"
proof -
  have cols: "columns 1 0 = [0]" by (simp add: columns_def)
  have m: "bottom_max pic_screen pic_grapher 4 1 = Some 10"
    by (simp add: bottom_max_def cols pic_grapher_simps pic_period pic_column)
  obtain hi mx axis where d: "drawymarks pic_screen 4 1 10 = Some (hi, mx, axis)"
    using drawymarks_defined [of 10 pic_screen 4 1] by auto
  let ?y = "dbl (178 / hi)"
  have u: "update_bottom pic_screen pic_grapher 4 178 =
      Some (mx, axis @ column_lines pic_screen 4 ?y 186 26 (7, 3) @ [Copy])"
    using m d by (simp add: update_bottom_def Let_def pic_screen_simps cols pic_grapher_simps pic_period pic_column col_x_def)
  have u': "update_bottom pic_screen pic_grapher 4 (plot_height pic_screen (views pic_screen ! 4) 1 - 1) =
      Some (mx, axis @ column_lines pic_screen 4 ?y 186 26 (7, 3) @ [Copy])"
    using u by (simp add: pic_screen_simps)
  define y where "y = below 186 \<lceil>dbl (7 * ?y)\<rceil>"
  have mem: "Seg (Gc 4) 26 y 26 186 \<in> set (axis @ column_lines pic_screen 4 ?y 186 26 (7, 3) @ [Copy])"
    by (simp add: column_lines_def y_def)
  have "7 \<le> y \<and> y \<le> 186"
    using columns_stay_inside [OF u' pic_grapher_simps(1) _ _ _ _ _ mem]
    by (simp add: pic_grapher_simps pic_screen_simps)
  then show ?thesis using u mem by blast
qed

end
