(* ===== verification/Redraw.thy ===== *)
theory Redraw
  imports Drawbottom
begin

text \<open>
  The redraw of \<open>mwmg.c\<close>: \<open>blank\<close>, which draws one of the two areas of a window from the
  frame to the graph; \<open>configure\_event\<close>, which fits the history to the width of the area;
  \<open>click\_event\<close>, which tells the value under the pointer; and the redraw that \<open>update\<close>
  makes at each tick.
\<close>

section \<open>The labels of the time axis\<close>

text \<open>
  The seconds whose time of day is kept in \<open>whens\<close>, at the start and when the first line
  arrives; \<open>clock\<close> stands for \<open>localtime\_r\<close> and \<open>strftime\<close> with \<open>%R\<close>.
\<close>

function mark_times :: "int \<Rightarrow> int \<Rightarrow> int list" where
  "mark_times i e = (if i < e then i # mark_times (i + TSINTER) e else [])"
  by pat_completeness auto
termination by (relation "measure (\<lambda>(i, e). nat (e - i))") (auto simp: TSINTER_def)

declare mark_times.simps [simp del]

definition fill_whens :: "(int \<Rightarrow> string) \<Rightarrow> int \<Rightarrow> string list" where
  "fill_whens clock t0 = map clock (mark_times t0 (t0 + DEFTLEN))"

text \<open>\<open>for (i = incr; i < min(DEFTLEN / sperpx, DEFTLEN); i += 3 * incr)\<close>\<close>

function time_ticks :: "int \<Rightarrow> int \<Rightarrow> int \<Rightarrow> int list" where
  "time_ticks inc stop i = (if 0 < inc \<and> i < stop then i # time_ticks inc stop (i + 3 * inc) else [])"
  by pat_completeness auto
termination by (relation "measure (\<lambda>(inc, stop, i). nat (stop - i))") auto

declare time_ticks.simps [simp del]

definition tick_step :: "screen \<Rightarrow> int \<Rightarrow> int" where
  "tick_step s sp = (let n = TSINTER sdiv per_tick s sdiv sp in if n < 1 then 1 else n)"

section \<open>blank\<close>

definition frame :: "screen \<Rightarrow> view \<Rightarrow> nat \<Rightarrow> cmd list" where
  "frame s v ofs =
     [Frame Black (M_LEFT s) (M_TOP s) (aw v ofs - M_LEFT s - rm v ofs) (plot_height s v ofs),
      Fill White (M_LEFT s + 1) (M_TOP s + 1) (aw v ofs - M_LEFT s - rm v ofs - 2) (plot_height s v ofs - 2)]"

definition mark_lines :: "screen \<Rightarrow> nat \<Rightarrow> view \<Rightarrow> nat \<Rightarrow> cmd list" where
  "mark_lines s which v ofs = map (\<lambda>i. let y = ah v ofs - M_BOT s - i * (plot_height s v ofs sdiv NYMARKS) in
     Seg (Gc which) (M_LEFT s + 1) y (aw v ofs - rm v ofs - 1) y) [0..NYMARKS - 1]"

definition unit_of :: "screen \<Rightarrow> nat \<Rightarrow> unit_label" where
  "unit_of s which = (if int which = W_CPU then Percent else if int which = W_MEM then Bytes
     else if int which = W_TIME then Usec else if requests s then Reqs else Bits)"

text \<open>The number of system \<open>i\<close> below its bar and the line after it.\<close>

definition system_label :: "screen \<Rightarrow> nat \<Rightarrow> view \<Rightarrow> rat \<Rightarrow> int \<Rightarrow> cmd list" where
  "system_label s which v xscal i = (let t = show_nat (nat i); half = text_width s t sdiv 2;
       x = trunc (dbl (dbl (of_int (4 + M_LEFT s) + dbl (of_int i * xscal)) - of_int half)) in
     [Txt (trunc (dbl (dbl (of_int (2 + M_LEFT s) + dbl ((of_int i - 1 / 2) * xscal)) - of_int half))) (ah v 0 - 2) t,
      Seg (Gc which) x (M_TOP s + 1) x (ah v 0 - M_BOT s - 1)])"

text \<open>\<open>sprintf\<close> writes to an array of six characters.\<close>

definition system_labels :: "screen \<Rightarrow> nat \<Rightarrow> view \<Rightarrow> int \<Rightarrow> cmd list option" where
  "system_labels s which v n = (if n < 0 \<or> 100000 \<le> n then None
     else let xscal = dbl (of_int (aw v 0 - M_LEFT s - rm v 0 - 2) / of_int n) in
       Some (concat (map (system_label s which v xscal) [1..n])))"

text \<open>
  A line for the tick at pixel \<open>i\<close>, and its label if it does not meet the one before, which
  ends at \<open>lim\<close>; the comparison is one of unsigned numbers.
\<close>

definition time_tick :: "screen \<Rightarrow> nat \<Rightarrow> view \<Rightarrow> int \<Rightarrow> int \<Rightarrow> int \<times> cmd list \<Rightarrow> (int \<times> cmd list) option" where
  "time_tick s which v inc i = (\<lambda>(lim, cs). if \<not> nat (i div inc) < length (whens s) then None
     else let t = whens s ! nat (i div inc); half = text_width s t sdiv 2; x = M_LEFT s + i;
         line = Seg (Gc which) x (M_TOP s + 1) x (ah v 1 - M_BOT s - 1) in
       if (x - half) mod 2 ^ 32 \<ge> lim then Some ((x + half) mod 2 ^ 32, cs @ [line,
          Fill White (x - half) (ah v 1 - 2 - text_height s t) (text_width s t) (text_height s t),
          Txt (x - half) (ah v 1 - 2) t])
       else Some (lim, cs @ [line]))"

definition timeline :: "screen \<Rightarrow> nat \<Rightarrow> view \<Rightarrow> cmd list option" where
  "timeline s which v = (let sp = sperpx v; inc = tick_step s sp in
     if sp \<le> 0 then None
     else map_option snd (fold_opt (time_tick s which v inc)
       (time_ticks inc (min (DEFTLEN sdiv sp) DEFTLEN) inc) (M_LEFT s mod 2 ^ 32, [])))"

definition graph :: "screen \<Rightarrow> grapher \<Rightarrow> nat \<Rightarrow> nat \<Rightarrow> (u32 \<times> cmd list) option" where
  "graph s g which winno = (let v = views s ! which;
       w = aw v 0 - M_LEFT s - rm v 0 - 2; h = plot_height s v winno - 1 in
     if int which = W_NET then
       (if winno = 0 then update_multi_top s g which h (dbl (of_int w / of_int (nsys g)))
        else update_multi_bottom s g which h)
     else if winno = 0 then update_top s g which w h
     else update_bottom s g which h)"

definition set_max :: "screen \<Rightarrow> nat \<Rightarrow> nat \<Rightarrow> u32 \<Rightarrow> screen" where
  "set_max s which ofs m = s\<lparr>views := (views s)[which := (views s ! which)\<lparr>maxes := (maxes (views s ! which))(ofs := m)\<rparr>]\<rparr>"

text \<open>A division by a \<open>sperpx\<close> or an interval of 0 is undefined.\<close>

definition blank :: "screen \<Rightarrow> grapher \<Rightarrow> nat \<Rightarrow> nat \<Rightarrow> (screen \<times> cmd list) option" where
  "blank s g which winno = (let v = views s ! which in
     if \<not> which < length (views s) \<or> sperpx v = 0 \<or> per_tick s = 0 then None
     else (case (if winno = 0 then system_labels s which v (nsys g) else timeline s which v) of None \<Rightarrow> None
     | Some labels \<Rightarrow> map_option (\<lambda>(m, cs). (set_max s which winno m,
         frame s v winno @ Fg which Gray # mark_lines s which v winno @ Fg which (Col which 0) #
         Pix (unit_of s which) (aw v winno - rm v winno + 2)
           ((plot_height s v winno - label_height s (unit_of s which)) sdiv 2) #
         Fg which Gray # labels @ Fg which (Col which 0) # cs)) (graph s g which winno)))"

section \<open>update: the redraw of a tick\<close>

definition redraw :: "screen \<Rightarrow> grapher \<Rightarrow> nat list \<Rightarrow> (screen \<times> cmd list) option" where
  "redraw s g = (\<lambda>is. fold_opt (\<lambda>(i, ofs) (s, cs). map_option (\<lambda>(s', c). (s', cs @ c)) (blank s g i ofs))
     (concat (map (\<lambda>i. [(i, 0), (i, 1)]) is)) (s, []))"

definition tick :: "screen \<Rightarrow> grapher \<Rightarrow> (screen \<times> grapher \<times> cmd list \<times> bool) option" where
  "tick s g = (case update g of None \<Rightarrow> None
     | Some (g', is, b) \<Rightarrow> map_option (\<lambda>(s', cs). (s', g', cs, b)) (redraw s g is))"

section \<open>configure\_event and click\_event\<close>

text \<open>The data of a handler are the window and the area in one number.\<close>

definition handler_data :: "nat \<Rightarrow> nat \<Rightarrow> nat \<Rightarrow> nat" where
  "handler_data nwins which ofs = which + ofs * nwins"

definition area_of :: "nat \<Rightarrow> nat \<Rightarrow> nat \<times> nat" where
  "area_of nwins gp = (gp mod nwins, gp div nwins)"

text \<open>
  The event carries the new size, which is also that of the allocation. \<open>DEFTLEN\<close> divided by
  a width of 0 is no number, and its conversion undefined.
\<close>

definition resize :: "screen \<Rightarrow> nat \<Rightarrow> int \<Rightarrow> int \<Rightarrow> view \<Rightarrow> view option" where
  "resize s ofs w h v0 = (let v = v0\<lparr>aw := (aw v0)(ofs := w), ah := (ah v0)(ofs := h)\<rparr> in
     if ofs = 0 then Some v
     else let d = w - M_LEFT s - M_RIGHT s - 2; sp = \<lceil>dbl (of_int DEFTLEN / of_int d)\<rceil> in
       if d = 0 \<or> sp = 0 then None
       else Some (v\<lparr>sperpx := sp, rm := (rm v)(1 := w - DEFTLEN sdiv sp - M_LEFT s - 2)\<rparr>))"

definition configure_event :: "screen \<Rightarrow> grapher \<Rightarrow> nat \<Rightarrow> int \<Rightarrow> int \<Rightarrow> (screen \<times> cmd list) option" where
  "configure_event s g gp w h = (let (which, ofs) = area_of (length (wins g)) gp in
     case resize s ofs w h (views s ! which) of None \<Rightarrow> None
     | Some v \<Rightarrow> map_option (\<lambda>(s', cs). (s', Fill White 0 0 w h # cs))
         (blank (s\<lparr>views := (views s)[which := v]\<rparr>) g which ofs))"

text \<open>The two values that are shown for a click at \<open>y\<close>, a \<open>double\<close>, with the first button.\<close>

definition click_event :: "screen \<Rightarrow> nat \<Rightarrow> nat \<Rightarrow> rat \<Rightarrow> (rat \<times> rat) option" where
  "click_event s nwins gp y = (let (which, ofs) = area_of nwins gp; v = views s ! which;
       m = of_nat (unat (maxes v ofs)) in
     if of_int (M_TOP s) < y \<and> y \<le> of_int (ah v ofs - M_BOT s) then
       (let v1 = dbl (dbl (dbl (dbl (of_int (ah v ofs) - y) - of_int (M_BOT s)) / of_int (plot_height s v ofs)) * m)
        in Some (v1, dbl (v1 + dbl (m / of_int (plot_height s v ofs)))))
     else None)"

section \<open>Lemmas: the time axis\<close>

lemma mark_times_shift: "mark_times (t0 + i) (t0 + e) = map (\<lambda>d. t0 + d) (mark_times i e)"
  by (induction i e rule: mark_times.induct) (subst (1 2) mark_times.simps, simp add: add.assoc)

lemma mark_times_length: "mark_times 0 DEFTLEN = map (\<lambda>k. 180 * k) [0..10]"
  by (simp add: mark_times.simps TSINTER_def DEFTLEN_def upto.simps)

lemma fill_whens_eq: "fill_whens clock t0 = map (\<lambda>k. clock (t0 + 180 * k)) [0..10]"
  using mark_times_shift [of t0 0 DEFTLEN] by (simp add: fill_whens_def mark_times_length comp_def)

lemma fill_whens_length [simp]: "length (fill_whens clock t0) = 11"
  by (simp add: fill_whens_eq)

lemma ticks_set: "0 < inc \<Longrightarrow> i \<in> set (time_ticks inc stop j) \<longleftrightarrow> (\<exists>k. 0 \<le> k \<and> i = j + 3 * inc * k \<and> i < stop)"
proof (induction inc stop j rule: time_ticks.induct)
  case (1 inc stop j)
  show ?case
  proof (cases "j < stop")
    case True
    have "(\<exists>k. 0 \<le> k \<and> i = j + 3 * inc * k \<and> i < stop) \<longleftrightarrow>
        i = j \<or> (\<exists>k. 0 \<le> k \<and> i = j + 3 * inc + 3 * inc * k \<and> i < stop)" (is "?l \<longleftrightarrow> ?r")
    proof
      assume ?l
      then obtain k where k: "0 \<le> k" "i = j + 3 * inc * k" "i < stop" by blast
      show ?r
      proof (cases "k = 0")
        case False
        then show ?thesis using k by (intro disjI2 exI [of _ "k - 1"]) (simp add: algebra_simps)
      qed (use k in simp)
    next
      assume ?r
      then show ?l
      proof (elim disjE exE conjE)
        fix k assume "0 \<le> k" "i = j + 3 * inc + 3 * inc * k" "i < stop"
        then show ?l by (intro exI [of _ "k + 1"]) (simp add: algebra_simps)
      qed (use True in \<open>auto intro: exI [of _ 0]\<close>)
    qed
    then show ?thesis using 1 True by (subst time_ticks.simps) simp
  next
    case False
    then have "\<not> (\<exists>k. 0 \<le> k \<and> i = j + 3 * inc * k \<and> i < stop)"
      using "1.prems" by (auto simp: mult_nonneg_nonneg) (smt (verit) mult_nonneg_nonneg)
    then show ?thesis using False by (subst time_ticks.simps) simp
  qed
qed

lemma timeline_fold:
  assumes "\<forall>i \<in> set xs. nat (i div inc) < length (whens s)"
  shows "\<exists>l cs'. fold_opt (time_tick s k v inc) xs (l0, cs) = Some (l, cs @ cs') \<and>
    (\<forall>x y t. Txt x y t \<in> set cs' \<longrightarrow> (\<exists>i \<in> set xs. t = whens s ! nat (i div inc) \<and>
      x = M_LEFT s + i - text_width s t sdiv 2))"
  using assms
proof (induction xs arbitrary: l0 cs)
  case (Cons i us)
  have "\<exists>l1 c1. time_tick s k v inc i (l0, cs) = Some (l1, cs @ c1) \<and>
    (\<forall>x y t. Txt x y t \<in> set c1 \<longrightarrow> t = whens s ! nat (i div inc) \<and> x = M_LEFT s + i - text_width s t sdiv 2)"
    using Cons.prems by (simp add: time_tick_def Let_def)
  then obtain l1 c1 where one: "time_tick s k v inc i (l0, cs) = Some (l1, cs @ c1)"
    and labs: "\<forall>x y t. Txt x y t \<in> set c1 \<longrightarrow> t = whens s ! nat (i div inc) \<and> x = M_LEFT s + i - text_width s t sdiv 2"
    by blast
  obtain l c2 where rest: "fold_opt (time_tick s k v inc) us (l1, cs @ c1) = Some (l, (cs @ c1) @ c2)"
    and labs2: "\<forall>x y t. Txt x y t \<in> set c2 \<longrightarrow> (\<exists>i \<in> set us. t = whens s ! nat (i div inc) \<and>
      x = M_LEFT s + i - text_width s t sdiv 2)"
    using Cons.IH [of l1 "cs @ c1"] Cons.prems by auto
  show ?case using one rest labs labs2 by (intro exI [of _ l] exI [of _ "c1 @ c2"]) auto
qed simp

lemma timeline_None:
  "i \<in> set xs \<Longrightarrow> \<not> nat (i div inc) < length (whens s) \<Longrightarrow> fold_opt (time_tick s k v inc) xs st = None"
  by (induction xs arbitrary: st) (auto simp: time_tick_def split: option.splits prod.splits)

lemma tick_step_1: "0 < sp \<Longrightarrow> per_tick s = 1 \<Longrightarrow> tick_step s sp = (if sp \<le> 180 then 180 div sp else 1)"
proof -
  assume h: "0 < sp" "per_tick s = 1"
  then have "180 sdiv sp = 180 div sp" by (simp add: signed_divide_int_def sgn_if)
  moreover have "1 \<le> 180 div sp \<longleftrightarrow> sp \<le> 180" using h by (simp add: pos_imp_zdiv_pos_iff int_one_le_iff_zero_less)
  ultimately show ?thesis using h by (auto simp: tick_step_def TSINTER_def Let_def)
qed

lemma tick_step_pos: "1 \<le> tick_step s sp"
  by (simp add: tick_step_def Let_def)

lemma history_width: "0 < sp \<Longrightarrow> min (DEFTLEN sdiv sp) DEFTLEN = 1860 div sp"
  using zdiv_mono2 [of 1860 1 sp] by (simp add: signed_divide_int_def sgn_if DEFTLEN_def)

text \<open>The ticks are at the first, fourth, seventh and tenth step; the next would read past the array.\<close>

lemma timeline_ticks:
  assumes "0 < sp"
  shows "i \<in> set (time_ticks (tick_step s sp) (min (DEFTLEN sdiv sp) DEFTLEN) (tick_step s sp)) \<longleftrightarrow>
    (\<exists>k. 0 \<le> k \<and> i = (1 + 3 * k) * tick_step s sp \<and> i < 1860 div sp)"
  using tick_step_pos [of s sp] by (simp add: ticks_set history_width [OF assms] algebra_simps)

lemma fits_below_46: "0 < sp \<Longrightarrow> sp \<le> 45 \<Longrightarrow> 1860 div sp \<le> 13 * (180 div sp)" for sp :: int
proof -
  assume h: "0 < sp" "sp \<le> 45"
  have "\<forall>sp \<in> set [1..45]. 1860 div sp \<le> 13 * (180 div (sp :: int))" by code_simp
  then show ?thesis using h by auto
qed

section \<open>Properties of the time axis\<close>

text \<open>With one sample a second and at most 45 seconds to a pixel the history's time axis reads
  only the eleven times that are kept, and every label is one of them: the time \<open>180 * c\<close>
  seconds after the start stands at pixel \<open>c * (180 div sperpx)\<close>, the column of that second
  where \<open>sperpx\<close> divides 180.\<close>

theorem time_labels_in_bounds:
  assumes "whens s = fill_whens clock t0" and "per_tick s = 1" and "0 < sperpx v" and "sperpx v \<le> 45"
  shows "\<exists>cs. timeline s k v = Some cs \<and> (\<forall>x y t. Txt x y t \<in> set cs \<longrightarrow>
    (\<exists>c. 1 \<le> c \<and> c \<le> 10 \<and> t = clock (t0 + 180 * c) \<and>
      x = M_LEFT s + c * (180 div sperpx v) - text_width s t sdiv 2))"
proof -
  let ?sp = "sperpx v" and ?inc = "180 div sperpx v"
  have step: "tick_step s ?sp = ?inc" "1 \<le> ?inc"
    using tick_step_1 [OF assms(3,2)] tick_step_pos [of s ?sp] assms(4) by auto
  let ?xs = "time_ticks ?inc (min (DEFTLEN sdiv ?sp) DEFTLEN) ?inc"
  have c: "\<exists>c. i = c * ?inc \<and> 1 \<le> c \<and> c \<le> 10 \<and> i div ?inc = c" if "i \<in> set ?xs" for i
  proof -
    have "\<exists>k. 0 \<le> k \<and> i = (1 + 3 * k) * ?inc \<and> i < 1860 div ?sp"
      using that by (simp only: timeline_ticks [OF assms(3), of i s, unfolded step(1)])
    then obtain k where k: "0 \<le> k" "i = (1 + 3 * k) * ?inc" "i < 1860 div ?sp" by blast
    then have "(1 + 3 * k) * ?inc < 13 * ?inc" using fits_below_46 [OF assms(3,4)] by linarith
    then have "1 + 3 * k < 13" using step(2) by (simp add: mult_less_cancel_right)
    then show ?thesis using k step(2) by (intro exI [of _ "1 + 3 * k"]) auto
  qed
  have "\<forall>i \<in> set ?xs. nat (i div ?inc) < length (whens s)" using c assms(1) by fastforce
  from timeline_fold [OF this, of k v "M_LEFT s mod 2 ^ 32" "[]"] obtain l cs where
    f: "fold_opt (time_tick s k v ?inc) ?xs (M_LEFT s mod 2 ^ 32, []) = Some (l, cs)"
    and labs: "\<forall>x y t. Txt x y t \<in> set cs \<longrightarrow> (\<exists>i \<in> set ?xs. t = whens s ! nat (i div ?inc) \<and>
      x = M_LEFT s + i - text_width s t sdiv 2)" by auto
  have "timeline s k v = Some cs" using f assms(3) by (simp add: timeline_def Let_def step(1))
  moreover have "\<exists>c. 1 \<le> c \<and> c \<le> 10 \<and> t = clock (t0 + 180 * c) \<and> x = M_LEFT s + c * ?inc - text_width s t sdiv 2"
    if xyt: "Txt x y t \<in> set cs" for x y t
  proof -
    obtain i where i: "i \<in> set ?xs" "t = whens s ! nat (i div ?inc)" "x = M_LEFT s + i - text_width s t sdiv 2"
      using labs xyt by blast
    obtain c where "i = c * ?inc" "1 \<le> c" "c \<le> 10" "i div ?inc = c" using c [OF i(1)] by blast
    then show ?thesis using i by (intro exI [of _ c]) (simp add: assms(1) fill_whens_eq)
  qed
  ultimately show ?thesis by blast
qed

text \<open>C27: outside the gauge mode, with an interval of two seconds or more, and up to 132 seconds to
  a pixel, every redraw of a history reads past the end of the array of times: the ticks are as far apart as in
  \<open>interval\<close> times as much time, the array has room for the display's length in seconds.\<close>

theorem time_labels_overrun:
  assumes "whens s = fill_whens clock t0" and "2 \<le> per_tick s" and "0 < sperpx v" and "sperpx v \<le> 132"
  shows "timeline s k v = None"
proof -
  let ?sp = "sperpx v" and ?p = "per_tick s"
  define inc where "inc = tick_step s ?sp"
  have sdiv: "a sdiv b = a div b" if "0 \<le> a" "0 < b" for a b :: int
    using that by (auto simp: signed_divide_int_def sgn_if)
  have le: "180 div ?p \<le> 90" using zdiv_mono2 [of 180 2 ?p] assms(2) by simp
  have "0 \<le> 180 div ?p" using assms(2) by (simp add: pos_imp_zdiv_nonneg_iff)
  then have "180 sdiv ?p sdiv ?sp = 180 div ?p div ?sp" using assms(2,3) by (simp add: sdiv)
  also have "\<dots> \<le> 90 div ?sp" using le assms(3) by (rule zdiv_mono1)
  finally have "inc \<le> max 1 (90 div ?sp)" by (simp add: inc_def tick_step_def TSINTER_def Let_def)
  moreover have "\<forall>sp \<in> set [1..132]. 13 * max 1 (90 div sp) < 1860 div (sp :: int)" by code_simp
  then have "13 * max 1 (90 div ?sp) < 1860 div ?sp" using assms(3,4) by auto
  ultimately have "13 * inc < 1860 div ?sp" by linarith
  then have "13 * inc \<in> set (time_ticks inc (min (DEFTLEN sdiv ?sp) DEFTLEN) inc)"
    using timeline_ticks [OF assms(3), of "13 * inc" s] by (auto simp: inc_def intro: exI [of _ 4])
  moreover have "\<not> nat (13 * inc div inc) < length (whens s)"
    using tick_step_pos [of s ?sp] by (simp add: assms(1) inc_def)
  ultimately show ?thesis by (simp add: timeline_def Let_def timeline_None flip: inc_def)
qed

section \<open>Lemmas: every redraw is defined\<close>

text \<open>What \<open>drawymarks\<close> is handed for an area of a window.\<close>

definition scale_of :: "screen \<Rightarrow> grapher \<Rightarrow> nat \<Rightarrow> nat \<Rightarrow> rat option" where
  "scale_of s g k winno =
    (if winno = 0 then map_option (\<lambda>m. if gauge s then m else dbl (m / of_int (interval s)))
         (if int k = W_NET then multi_top_max g else top_max g k)
     else if int k = W_NET then multi_bottom_max s g (sperpx (views s ! k))
     else bottom_max s g k (sperpx (views s ! k)))"

definition scales_fit :: "screen \<Rightarrow> grapher \<Rightarrow> bool" where
  "scales_fit s g \<longleftrightarrow> (\<forall>k < length (wins g). \<forall>ofs < 2.
     (case scale_of s g k ofs of None \<Rightarrow> True | Some m \<Rightarrow> m \<le> 4 * 10 ^ 9))"

lemma scales_fit_axis:
  assumes "scales_fit s g" and "k < length (wins g)" and "ofs < 2" and "scale_of s g k ofs = Some m"
  shows "\<exists>hi mx cs. drawymarks s k ofs m = Some (hi, mx, cs)"
proof -
  have "case scale_of s g k ofs of None \<Rightarrow> True | Some m \<Rightarrow> m \<le> 4 * 10 ^ 9"
    using assms(1-3) unfolding scales_fit_def by blast
  then have "m \<le> 4 * 10 ^ 9" unfolding assms(4) by (simp only: option.case)
  then show ?thesis by (rule drawymarks_defined)
qed

lemma fold_opt_total: "(\<And>x b. x \<in> set xs \<Longrightarrow> f x b \<noteq> None) \<Longrightarrow> fold_opt f xs b \<noteq> None"
proof (induction xs arbitrary: b)
  case (Cons x xs)
  obtain c where "f x b = Some c" using Cons.prems [of x b] by auto
  then show ?case using Cons.IH [of c] Cons.prems by simp
qed simp

lemma update_top_defined:
  assumes "grapher_ok g" and "k < length (wins g)" and "curtime g \<le> 1860"
    and "scales_fit s g" and "int k \<noteq> W_NET"
  shows "update_top s g k w h \<noteq> None"
proof -
  obtain m where m: "top_max g k = Some m" using top_max_Some [OF assms(1-3)] by blast
  have "scale_of s g k 0 = Some (if gauge s then m else dbl (m / of_int (interval s)))"
    using m assms(5) by (simp add: scale_of_def)
  from scales_fit_axis [OF assms(4,2) _ this] obtain hi mx cs where "drawymarks s k 0 (if gauge s then m else dbl (m / of_int (interval s))) = Some (hi, mx, cs)"
    by auto
  then show ?thesis using m assms(2) by (simp add: update_top_def top_bars_Some [OF assms(1-3)] Let_def)
qed

lemma pair_at_defined:
  assumes "grapher_ok g" and "curtime g \<le> 1860" and "0 \<le> t" "t \<le> last_second g" "0 \<le> i" "i < nsys g"
    and "k \<in> set (traffic g)"
  shows "pair_at g k t i = Some (own_at g k t i, relayed_at g k t i)"
  using assms last_second_range [OF assms(2)] by (intro pair_at_Some) (auto simp: traffic_def)

lemma update_multi_top_defined:
  assumes "grapher_ok g" and "k < length (wins g)" and "curtime g \<le> 1860"
    and "scales_fit s g" and "int k = W_NET"
  shows "update_multi_top s g k h xs \<noteq> None"
proof -
  have t: "0 \<le> last_second g" "last_second g < DEFTLEN" using last_second_range [OF assms(3)] by auto
  have "multi_sum g (last_second g) i \<noteq> None" if "0 \<le> i" "i < nsys g" for i
    unfolding multi_sum_def using that t pair_at_defined [OF assms(1,3), of "last_second g"]
    by (intro fold_opt_total) simp
  then have "multi_top_max g \<noteq> None"
    unfolding multi_top_max_def by (intro fold_opt_total) auto
  then obtain m where m: "multi_top_max g = Some m" by blast
  have "scale_of s g k 0 = Some (if gauge s then m else dbl (m / of_int (interval s)))"
    using m assms(5) by (simp add: scale_of_def)
  from scales_fit_axis [OF assms(4,2) _ this] obtain hi mx cs where "drawymarks s k 0 (if gauge s then m else dbl (m / of_int (interval s))) = Some (hi, mx, cs)"
    by auto
  then show ?thesis using m by (simp add: update_multi_top_def multi_pass_Some [OF assms(1,3)] Let_def)
qed

lemma update_bottom_defined:
  assumes "grapher_ok g" and "k < length (wins g)" and "curtime g \<le> 1860"
    and "scales_fit s g" and "int k \<noteq> W_NET" and "0 < sperpx (views s ! k)"
  shows "update_bottom s g k h \<noteq> None"
proof -
  let ?sp = "sperpx (views s ! k)" and ?P = "\<lambda>i. period (nsys g) (sperpx (views s ! k)) (last_second g) i"
  have pairs: "\<forall>tm \<in> set (?P i). bottom_pair g k tm = Some (own_in g k tm, relayed_in g k tm)"
    if "i \<in> set (columns ?sp (last_second g))" for i
    using bottom_pair_Some [OF assms(1-3)] columns_range [OF assms(6) that] by blast
  note sums = column_sums [OF pairs]
  have "bottom_max s g k ?sp \<noteq> None" unfolding bottom_max_def by (intro fold_opt_total) (simp add: sums(1))
  then obtain m where m: "bottom_max s g k ?sp = Some m" by blast
  have "scale_of s g k 1 = Some m"
    using m assms(5) by (simp add: scale_of_def)
  from scales_fit_axis [OF assms(4,2) _ this] obtain hi mx cs where "drawymarks s k 1 m = Some (hi, mx, cs)"
    by auto
  moreover have "fold_opt (\<lambda>i cs. map_option (\<lambda>p. cs @ F i p) (column_pair s g k ?sp (?P i)))
      (columns ?sp (last_second g)) [] \<noteq> None" for F :: "int \<Rightarrow> rat \<times> rat \<Rightarrow> cmd list"
    by (intro fold_opt_total) (simp add: sums(2))
  ultimately show ?thesis using m assms(6) by (simp add: update_bottom_def Let_def)
qed

lemma update_multi_bottom_defined:
  assumes "grapher_ok g" and "k < length (wins g)" and "curtime g \<le> 1860"
    and "scales_fit s g" and "int k = W_NET" and "0 < sperpx (views s ! k)"
  shows "update_multi_bottom s g k h \<noteq> None"
proof -
  let ?sp = "sperpx (views s ! k)" and ?P = "\<lambda>i. period (nsys g) (sperpx (views s ! k)) (last_second g) i"
  have pair: "pair_at g j (fst tm) (snd tm) = Some (own_in g j tm, relayed_in g j tm)"
    if "i \<in> set (columns ?sp (last_second g))" "tm \<in> set (?P i)" "j \<in> set (traffic g)" for i tm j
    using pair_at_defined [OF assms(1,3)] period_range [of "fst tm" "snd tm"] that
      columns_range [OF assms(6) that(1)] by simp
  have "multi_column_sum s g ?sp (period_by_system (nsys g) ?sp (last_second g) i) \<noteq> None"
    if "i \<in> set (columns ?sp (last_second g))" for i
    unfolding multi_column_sum_def Let_def
    by (intro fold_opt_total) (simp add: period_by_system_set pair [OF that])
  then have "multi_bottom_max s g ?sp \<noteq> None" unfolding multi_bottom_max_def by (intro fold_opt_total) auto
  then obtain m where m: "multi_bottom_max s g ?sp = Some m" by blast
  have "scale_of s g k 1 = Some m"
    using m assms(5) by (simp add: scale_of_def)
  from scales_fit_axis [OF assms(4,2) _ this] obtain hi mx cs where "drawymarks s k 1 m = Some (hi, mx, cs)"
    by auto
  moreover have "window_pair s g ?sp (?P i) j \<noteq> None"
    if "i \<in> set (columns ?sp (last_second g))" "j \<in> set (traffic g)" for i j
    unfolding window_pair_def by (intro fold_opt_total) (simp add: pair [OF that(1) _ that(2)] split: prod.splits)
  then have "window_pairs s g ?sp (?P i) \<noteq> None" if "i \<in> set (columns ?sp (last_second g))" for i
    unfolding window_pairs_def using that by (intro fold_opt_total) auto
  then have "fold_opt (\<lambda>i cs. map_option (\<lambda>p. cs @ F i p) (window_pairs s g ?sp (?P i)))
      (columns ?sp (last_second g)) [] \<noteq> None" for F :: "int \<Rightarrow> (nat \<times> rat \<times> rat) list \<Rightarrow> cmd list"
    by (intro fold_opt_total) auto
  ultimately show ?thesis using m assms(6) by (simp add: update_multi_bottom_def Let_def)
qed

text \<open>
  A session the redraws of which are all defined: one sample a second, the eleven times, one
  view for each window, with at most 45 seconds to a pixel, and a number of systems of at
  most five digits.
\<close>

definition session_ok :: "screen \<Rightarrow> grapher \<Rightarrow> bool" where
  "session_ok s g \<longleftrightarrow> grapher_ok g \<and> 0 \<le> nsys g \<and> nsys g < 100000 \<and> length (wins g) \<le> 32 \<and>
     length (views s) = length (wins g) \<and> per_tick s = 1 \<and> length (whens s) = 11 \<and>
     (\<forall>v \<in> set (views s). 0 < sperpx v \<and> sperpx v \<le> 45)"

lemma timeline_defined:
  assumes "length (whens s) = 11" and "per_tick s = 1" and "0 < sperpx v" and "sperpx v \<le> 45"
  shows "timeline s k v \<noteq> None"
proof -
  let ?sp = "sperpx v" and ?inc = "180 div sperpx v"
  have step: "tick_step s ?sp = ?inc" "1 \<le> ?inc"
    using tick_step_1 [OF assms(3,2)] tick_step_pos [of s ?sp] assms(4) by auto
  have "nat (i div ?inc) < length (whens s)"
    if "i \<in> set (time_ticks ?inc (min (DEFTLEN sdiv ?sp) DEFTLEN) ?inc)" for i
  proof -
    have "\<exists>k. 0 \<le> k \<and> i = (1 + 3 * k) * ?inc \<and> i < 1860 div ?sp"
      using that by (simp only: timeline_ticks [OF assms(3), of i s, unfolded step(1)])
    then obtain k where k: "0 \<le> k" "i = (1 + 3 * k) * ?inc" "i < 1860 div ?sp" by blast
    then have "(1 + 3 * k) * ?inc < 13 * ?inc" using fits_below_46 [OF assms(3,4)] by linarith
    then have "1 + 3 * k < 13" using step(2) by (simp add: mult_less_cancel_right)
    then show ?thesis using k step(2) assms(1) by simp
  qed
  then show ?thesis
    using timeline_fold [of _ ?inc s k v] assms(3) by (fastforce simp: timeline_def Let_def step(1))
qed

lemma blank_defined:
  assumes "session_ok s g" and "curtime g \<le> 1860" and "scales_fit s g" and "k < length (wins g)"
  shows "blank s g k ofs \<noteq> None"
proof -
  let ?v = "views s ! k"
  have s: "grapher_ok g" "0 \<le> nsys g" "nsys g < 100000" "k < length (views s)" "per_tick s = 1"
    "length (whens s) = 11" "0 < sperpx ?v" "sperpx ?v \<le> 45"
    using assms(1,4) nth_mem [of k "views s"] by (auto simp: session_ok_def)
  have "graph s g k ofs \<noteq> None"
    using update_top_defined [OF s(1) assms(4,2,3)] update_multi_top_defined [OF s(1) assms(4,2,3)]
      update_bottom_defined [OF s(1) assms(4,2,3)] update_multi_bottom_defined [OF s(1) assms(4,2,3)] s(7)
    by (auto simp: graph_def Let_def)
  moreover have "timeline s k ?v \<noteq> None" by (rule timeline_defined [OF s(6,5,7,8)])
  ultimately show ?thesis using s by (auto simp: blank_def Let_def system_labels_def)
qed

text \<open>A redraw changes nothing but the tops of the scales.\<close>

definition view_shape :: "view \<Rightarrow> (nat \<Rightarrow> int) \<times> (nat \<Rightarrow> int) \<times> (nat \<Rightarrow> int) \<times> int" where
  "view_shape v = (aw v, ah v, rm v, sperpx v)"

definition same_setting :: "screen \<Rightarrow> screen \<Rightarrow> bool" where
  "same_setting s s' \<longleftrightarrow> map view_shape (views s') = map view_shape (views s) \<and> gauge s' = gauge s \<and>
     interval s' = interval s \<and> whens s' = whens s"

lemma blank_keeps:
  assumes "blank s g k ofs = Some (s', cs)"
  shows "same_setting s s'"
proof -
  obtain m where k: "k < length (views s)" and s': "s' = set_max s k ofs m"
    using assms by (auto simp: blank_def Let_def split: if_splits option.splits)
  show ?thesis using k by (auto simp: same_setting_def s' set_max_def view_shape_def map_update intro!: nth_equalityI simp: nth_list_update)
qed

lemma geometry_session:
  assumes "same_setting s s'" and "session_ok s g" and "scales_fit s g"
  shows "session_ok s' g" and "scales_fit s' g"
proof -
  have keep: "map view_shape (views s') = map view_shape (views s)" "per_tick s' = per_tick s" "gauge s' = gauge s"
    "interval s' = interval s" "whens s' = whens s"
    using assms(1) by (simp_all add: same_setting_def per_tick_def)
  have len: "length (views s') = length (views s)" using keep(1) by (metis length_map)
  have sp: "map sperpx (views s') = map sperpx (views s)"
    using arg_cong [OF keep(1), of "map (\<lambda>(_, _, _, p). p)"] by (simp add: view_shape_def comp_def)
  then have img: "sperpx ` set (views s') = sperpx ` set (views s)" by (metis set_map)
  have "0 < sperpx v \<and> sperpx v \<le> 45" if "v \<in> set (views s')" for v
  proof -
    have "sperpx v \<in> sperpx ` set (views s)" using that unfolding img [symmetric] by (rule imageI)
    then show ?thesis using assms(2) by (auto simp: session_ok_def)
  qed
  then show "session_ok s' g"
    using assms(2) keep len by (simp add: session_ok_def)
  have "scale_of s' g k ofs = scale_of s g k ofs" if "k < length (wins g)" for k ofs
  proof -
    have "k < length (views s)" using that assms(2) by (simp add: session_ok_def)
    then have "sperpx (views s' ! k) = sperpx (views s ! k)" using sp len by (metis nth_map)
    then show ?thesis using keep
      by (simp add: scale_of_def multi_bottom_max_def multi_column_sum_def bottom_max_def column_sum_def rate_def cong: if_cong)
  qed
  then show "scales_fit s' g" using assms(3) by (simp add: scales_fit_def)
qed

text \<open>The areas a tick redraws, one after the other.\<close>

lemma redraw_areas:
  assumes "session_ok s g" and "curtime g \<le> 1860" and "scales_fit s g"
    and "\<forall>(i, ofs) \<in> set as. i < length (wins g)"
  shows "\<exists>s' cs'. fold_opt (\<lambda>(i, ofs) (s, cs). map_option (\<lambda>(s', c). (s', cs @ c)) (blank s g i ofs)) as (s, cs) =
    Some (s', cs') \<and> same_setting s s'"
  using assms
proof (induction as arbitrary: s cs)
  case (Cons a as)
  obtain i ofs where a: "a = (i, ofs)" by force
  obtain s1 c1 where b: "blank s g i ofs = Some (s1, c1)"
    using blank_defined [OF Cons.prems(1-3), of i ofs] Cons.prems(4) by (auto simp: a)
  have "session_ok s1 g" "scales_fit s1 g"
    using geometry_session [OF blank_keeps [OF b] Cons.prems(1,3)] by auto
  from Cons.IH [OF this(1) Cons.prems(2) this(2), of "cs @ c1"] Cons.prems(4)
  show ?case using blank_keeps [OF b] by (auto simp: a b same_setting_def)
qed (simp add: same_setting_def)

lemma redraw_tick:
  assumes "session_ok s g" and "curtime g < 1860" and "scales_fit s g"
  shows "\<exists>s' cs. tick s g = Some (s', g\<lparr>curtime := curtime g + 1\<rparr>, cs, curtime g + 1 < word_of_int DEFTLEN) \<and>
    session_ok s' g \<and> same_setting s s'"
proof -
  have n: "length (wins g) \<le> 32" using assms(1) by (simp add: session_ok_def)
  let ?ds = "filter (\<lambda>i. bit (showwins g) i) [0..<length (wins g)]"
  let ?as = "concat (map (\<lambda>i. [(i, 0), (i, 1)]) ?ds)"
  have "\<forall>(i, ofs) \<in> set ?as. i < length (wins g)" by auto
  from redraw_areas [OF assms(1) less_imp_le [OF assms(2)] assms(3) this, of "[]"] obtain s' cs where
    r: "redraw s g ?ds = Some (s', cs)" "same_setting s s'"
    by (auto simp: redraw_def)
  then show ?thesis using geometry_session(1) [OF r(2) assms(1,3)] update_defined [OF n] by (simp add: tick_def)
qed

section \<open>Properties of the redraw\<close>

text \<open>In a session with one sample a second, at most 32 windows and at most 45 seconds to a
  pixel, the redraw of a tick is defined for all windows that are shown: no read leaves the
  sample arrays or the array of times, no label its buffer, and no loop fails to end, as
  long as no value is above 4e9; and it keeps the geometry of the windows.\<close>

theorem tick_redraws:
  assumes "session_ok s g" and "curtime g < 1860" and "scales_fit s g"
  shows "\<exists>s' cs. tick s g = Some (s', g\<lparr>curtime := curtime g + 1\<rparr>, cs, curtime g + 1 < word_of_int DEFTLEN) \<and>
    session_ok s' g \<and> same_setting s s'"
  using assms by (rule redraw_tick)

section \<open>Properties of configure\_event and click\_event\<close>

lemma area_of_handler_data: "which < nwins \<Longrightarrow> area_of nwins (handler_data nwins which ofs) = (which, ofs)"
  by (simp add: area_of_def handler_data_def)

text \<open>Rounding does not change how many seconds a pixel has to stand for.\<close>

lemma seconds_per_pixel:
  assumes "0 < d" and "d < 2 ^ 31"
  shows "\<lceil>dbl (of_int DEFTLEN / of_int d)\<rceil> = \<lceil>of_int DEFTLEN / (of_int d :: rat)\<rceil>"
proof (rule antisym)
  let ?x = "of_int DEFTLEN / (of_int d :: rat)"
  let ?q = "\<lceil>?x\<rceil>"
  have d: "(1 :: rat) \<le> of_int d" using assms(1) by simp
  have x: "0 \<le> ?x" "?x \<le> 1860" using d by (simp_all add: DEFTLEN_def divide_le_eq)
  then have q: "0 \<le> ?q" "?q \<le> 1860" by (simp_all add: ceiling_le_iff)
  have "dbl ?x \<le> dbl (of_int ?q)" using x by (intro dbl_mono) auto
  also have "\<dots> = of_int ?q" using q by (intro dbl_of_int) simp
  finally show "\<lceil>dbl ?x\<rceil> \<le> ?q" by (simp add: ceiling_le_iff)
  have "of_int (?q - 1) < ?x" by linarith
  then have "of_int ((?q - 1) * d) < (of_int DEFTLEN :: rat)" using d by (simp add: pos_less_divide_eq)
  then have "(?q - 1) * d + 1 \<le> DEFTLEN" unfolding of_int_less_iff by simp
  then have "of_int ((?q - 1) * d + 1) \<le> (of_int DEFTLEN :: rat)" unfolding of_int_le_iff .
  then have "of_int (?q - 1) + 1 / of_int d \<le> ?x" using d by (simp add: pos_le_divide_eq distrib_right)
  moreover have "of_int DEFTLEN * eps / of_int d < 1 / (of_int d :: rat)"
    using d by (intro divide_strict_right_mono) (simp_all add: DEFTLEN_def eps_def)
  then have "?x * eps < 1 / of_int d" by simp
  ultimately have "of_int (?q - 1) < ?x * (1 - eps)" by (simp add: right_diff_distrib)
  also have "\<dots> \<le> dbl ?x" using dbl_lower [OF x(1)] .
  finally show "?q \<le> \<lceil>dbl ?x\<rceil>" by linarith
qed

lemma resize_sperpx:
  assumes "resize s 1 w h v0 = Some v" and "d = w - M_LEFT s - M_RIGHT s - 2" and "0 < d" "d < 2 ^ 31"
  shows "rm v 1 = w - DEFTLEN sdiv sperpx v - M_LEFT s - 2" and "0 < sperpx v" and "DEFTLEN \<le> sperpx v * d"
    and "(sperpx v - 1) * d < DEFTLEN" and "42 \<le> d \<Longrightarrow> sperpx v \<le> 45"
proof -
  define sp where "sp = \<lceil>of_int DEFTLEN / (of_int d :: rat)\<rceil>"
  have v: "sperpx v = sp" "rm v 1 = w - DEFTLEN sdiv sp - M_LEFT s - 2"
    using assms(1) [unfolded resize_def Let_def assms(2) [symmetric] seconds_per_pixel [OF assms(3,4)] sp_def [symmetric]]
    by (auto split: if_splits)
  have dq: "(0 :: rat) < of_int d" using assms(3) by simp
  have "of_int DEFTLEN / (of_int d :: rat) \<le> of_int sp" "of_int (sp - 1) < of_int DEFTLEN / (of_int d :: rat)"
    unfolding sp_def by linarith+
  then have "of_int DEFTLEN \<le> (of_int (sp * d) :: rat)" "of_int ((sp - 1) * d) < (of_int DEFTLEN :: rat)"
    using dq by (simp_all add: pos_divide_le_eq pos_less_divide_eq)
  then have fit: "DEFTLEN \<le> sp * d" "(sp - 1) * d < DEFTLEN" unfolding of_int_le_iff of_int_less_iff by blast+
  have pos: "0 < sp"
  proof (rule ccontr)
    assume "\<not> 0 < sp"
    then have "sp * d \<le> 0" using assms(3) by (intro mult_nonpos_nonneg) auto
    then show False using fit(1) by (simp add: DEFTLEN_def)
  qed
  have "sp \<le> 45" if "42 \<le> d"
  proof (rule ccontr)
    assume "\<not> sp \<le> 45"
    then have "45 * 42 \<le> (sp - 1) * d" using that by (intro mult_mono) auto
    then show False using fit(2) by (simp add: DEFTLEN_def)
  qed
  then show "42 \<le> d \<Longrightarrow> sperpx v \<le> 45" unfolding v(1) .
  show "rm v 1 = w - DEFTLEN sdiv sperpx v - M_LEFT s - 2" "0 < sperpx v" "DEFTLEN \<le> sperpx v * d"
    "(sperpx v - 1) * d < DEFTLEN" using v fit pos by auto
qed

text \<open>C19: after a resize the history takes the least number of seconds to a pixel with which all of
  it fits the width left between the scale and the unit; the frame then ends right of the
  last column, and the space for the unit is never less than it was at the start. From 42
  pixels on a pixel stands for at most 45 seconds.\<close>

theorem resized_history_fits:
  assumes "resize s 1 w h v0 = Some v" and "d = w - M_LEFT s - M_RIGHT s - 2" and "0 < d" "d < 2 ^ 31"
  shows "0 < sperpx v \<and> DEFTLEN \<le> sperpx v * d \<and> (sperpx v - 1) * d < DEFTLEN \<and> M_RIGHT s \<le> rm v 1 \<and>
    (\<forall>t. 0 \<le> t \<and> t < DEFTLEN \<longrightarrow> M_LEFT s + 1 \<le> col_x s (sperpx v) t \<and> col_x s (sperpx v) t < w - rm v 1) \<and>
    (42 \<le> d \<longrightarrow> sperpx v \<le> 45)"
proof -
  define sp where "sp = sperpx v"
  note r = resize_sperpx [OF assms, folded sp_def]
  have sdiv: "t sdiv sp = t div sp" if "0 \<le> t" for t
    using that r(2) by (auto simp: signed_divide_int_def sgn_if)
  have "DEFTLEN div sp \<le> d * sp div sp" using r(2,3) by (intro zdiv_mono1) (simp_all add: mult.commute)
  then have le: "DEFTLEN div sp \<le> d" using r(2) by simp
  have right: "w - rm v 1 = DEFTLEN div sp + M_LEFT s + 2" using r(1) sdiv [of DEFTLEN] by (simp add: DEFTLEN_def)
  have "M_LEFT s + 1 \<le> col_x s sp t \<and> col_x s sp t < w - rm v 1" if "0 \<le> t" "t < DEFTLEN" for t
    using that zdiv_mono1 [of t DEFTLEN sp] r(2) right sdiv [of t] by (simp add: col_x_def pos_imp_zdiv_nonneg_iff)
  then show ?thesis using r right le assms(2) unfolding sp_def [symmetric] by auto
qed

text \<open>In a pixel row the subtractions of \<open>click_event\<close> are exact.\<close>

lemma click_row:
  assumes "click_event s nwins (handler_data nwins k ofs) (of_int y) = Some (v1, v2)" and "k < nwins"
    and "area_ok s (views s ! k) ofs"
  defines "v \<equiv> views s ! k"
  shows "M_TOP s < y \<and> y \<le> ah v ofs - M_BOT s \<and>
    v1 = dbl (dbl (of_int (ah v ofs - y - M_BOT s) / of_int (plot_height s v ofs)) * of_nat (unat (maxes v ofs))) \<and>
    v2 = dbl (v1 + dbl (of_nat (unat (maxes v ofs)) / of_int (plot_height s v ofs)))"
proof -
  have y: "M_TOP s < y" "y \<le> ah v ofs - M_BOT s"
    using assms(1) by (simp_all add: click_event_def area_of_handler_data [OF assms(2)] v_def Let_def
        del: of_int_diff split: if_splits)
  then have "\<bar>ah v ofs - y\<bar> \<le> 2 ^ 53" "\<bar>ah v ofs - y - M_BOT s\<bar> \<le> 2 ^ 53"
    using margins_nonneg [of s] assms(3) by (auto simp: area_ok_def v_def)
  then have "dbl (dbl (of_int (ah v ofs) - of_int y) - of_int (M_BOT s)) = of_int (ah v ofs - y - M_BOT s)"
    by (simp only: dbl_of_int flip: of_int_diff)
  then show ?thesis
    using assms(1) y by (auto simp: click_event_def area_of_handler_data [OF assms(2)] v_def Let_def split: if_splits)
qed

text \<open>A click shows a range of the scale of its area, and the ranges of the pixel rows lie one
  on top of the other, up to rounding: where that of a row ends the one above begins.\<close>

theorem click_ranges_tile:
  assumes "click_event s nwins (handler_data nwins k ofs) (of_int y) = Some (v1, v2)" and "k < nwins"
    and "area_ok s (views s ! k) ofs"
  shows "0 \<le> v1 \<and> v1 \<le> v2 \<and> v1 \<le> of_nat (unat (maxes (views s ! k) ofs)) \<and>
    (\<forall>u1 u2. click_event s nwins (handler_data nwins k ofs) (of_int (y - 1)) = Some (u1, u2) \<longrightarrow> near 5 v2 u1)"
proof -
  let ?v = "views s ! k"
  let ?m = "of_nat (unat (maxes ?v ofs)) :: rat" and ?P = "of_int (plot_height s ?v ofs) :: rat"
  let ?r = "\<lambda>y. dbl (dbl (of_int (ah ?v ofs - y - M_BOT s) / ?P) * ?m)"
  have y: "M_TOP s < y" "y \<le> ah ?v ofs - M_BOT s" and v: "v1 = ?r y" "v2 = dbl (v1 + dbl (?m / ?P))"
    using click_row [OF assms] by simp_all
  have P: "0 < ?P" using assms(3) by (simp add: area_ok_def)
  have "unat (maxes ?v ofs) < 2 ^ 32" using unsigned_less [of "maxes ?v ofs", where ?'a = nat] by simp
  then have "unat (maxes ?v ofs) \<le> 2 ^ 53" by simp
  then have m: "0 \<le> ?m" "dbl ?m = ?m" by (simp_all only: of_nat_0_le_iff dbl_of_nat)
  define n :: rat where "n = of_int (ah ?v ofs - y - M_BOT s)"
  have n: "0 \<le> n" "n \<le> ?P" using y margins_nonneg [of s] assms(3)
    by (simp_all add: n_def plot_height_def area_ok_def)
  have q: "0 \<le> dbl (n / ?P)" "dbl (n / ?P) \<le> 1"
  proof -
    show "0 \<le> dbl (n / ?P)" using n P by (intro dbl_nonneg) simp
    have "dbl (n / ?P) \<le> dbl (of_int 1)" using n P by (intro dbl_mono) (simp_all add: divide_le_eq)
    also have "dbl (of_int 1) = of_int 1" by (rule dbl_of_int) simp
    finally show "dbl (n / ?P) \<le> 1" by simp
  qed
  have v1: "0 \<le> v1" "v1 \<le> ?m"
  proof -
    show "0 \<le> v1" unfolding v(1) n_def [symmetric]
      by (rule dbl_nonneg) (rule mult_nonneg_nonneg [OF q(1) m(1)])
    have "v1 \<le> dbl ?m" unfolding v(1) n_def [symmetric] using q m(1)
      by (intro dbl_mono mult_nonneg_nonneg) (simp_all add: mult_left_le_one_le)
    then show "v1 \<le> ?m" unfolding m(2) .
  qed
  have step: "0 \<le> dbl (?m / ?P)" using m(1) P by (intro dbl_nonneg) simp
  have "dbl v1 \<le> v2" unfolding v(2) using v1(1) step by (intro dbl_mono) auto
  moreover have "dbl v1 = v1" unfolding v(1) n_def [symmetric]
    by (rule dbl_idem) (rule mult_nonneg_nonneg [OF q(1) m(1)])
  ultimately have "v1 \<le> v2" by simp
  moreover have "near 5 v2 u1" if "click_event s nwins (handler_data nwins k ofs) (of_int (y - 1)) = Some (u1, u2)" for u1 u2
  proof -
    have u: "u1 = ?r (y - 1)"
      using click_row [OF that assms(2,3)] by simp
    have n1: "of_int (ah ?v ofs - (y - 1) - M_BOT s) = n + 1" by (simp add: n_def)
    have row: "near 2 (dbl (dbl (z / ?P) * ?m)) (z / ?P * ?m)" if "0 \<le> z" for z
      using near_round [OF near_mult [OF near_dbl [of "z / ?P"] m(1)]] that P by (simp add: numeral_2_eq_2)
    have "near 2 v1 (n / ?P * ?m)" unfolding v(1) n_def [symmetric] by (rule row [OF n(1)])
    moreover have "near 2 (dbl (?m / ?P)) (?m / ?P)" using near_mono [OF near_dbl [of "?m / ?P"], of 2] m(1) P by simp
    ultimately have "near 2 (v1 + dbl (?m / ?P)) (n / ?P * ?m + ?m / ?P)" by (rule near_add)
    then have "near (Suc 2) v2 (n / ?P * ?m + ?m / ?P)" unfolding v(2) by (rule near_round)
    moreover have "n / ?P * ?m + ?m / ?P = (n + 1) / ?P * ?m" by (simp add: add_divide_distrib distrib_right)
    moreover have "near 2 u1 ((n + 1) / ?P * ?m)" unfolding u n1 by (rule row) (use n(1) in simp)
    ultimately have "near (Suc 2 + 2) v2 u1" using near_trans near_sym by metis
    then show "near 5 v2 u1" by simp
  qed
  ultimately show ?thesis using v1 by blast
qed

section \<open>Witnesses\<close>

theorem resized_history_fits_witness:
  "\<exists>v. resize pic_screen 1 300 200 pic_view = Some v \<and> sperpx v = 8 \<and> col_x pic_screen (sperpx v) 1859 < 300 - rm v 1"
proof -
  have c: "\<lceil>dbl (of_int DEFTLEN / of_int 258)\<rceil> = 8"
  proof -
    have "\<lceil>of_int DEFTLEN / of_int 258 :: rat\<rceil> = 8" by (rule ceiling_unique) (simp_all add: DEFTLEN_def)
    then show ?thesis using seconds_per_pixel [of 258] by simp
  qed
  obtain v where v: "resize pic_screen 1 300 200 pic_view = Some v" "sperpx v = 8"
    using c by (simp add: resize_def Let_def pic_screen_simps)
  then show ?thesis using resized_history_fits [OF v(1) refl] by (simp add: pic_screen_simps DEFTLEN_def)
qed

theorem time_labels_overrun_witness:
  "timeline (pic_screen\<lparr>interval := 2, whens := fill_whens (\<lambda>_. ''00:00'') 0\<rparr>) 4 pic_view = None"
  by (rule time_labels_overrun [where clock = "\<lambda>_. ''00:00''" and ?t0.0 = 0])
    (simp_all add: per_tick_def pic_screen_simps)

theorem time_labels_in_bounds_witness:
  "\<exists>cs. timeline (pic_screen\<lparr>whens := fill_whens (\<lambda>_. ''00:00'') 0\<rparr>) 4 pic_view = Some cs"
  using time_labels_in_bounds [of "pic_screen\<lparr>whens := fill_whens (\<lambda>_. ''00:00'') 0\<rparr>" "\<lambda>_. ''00:00''" 0 pic_view 4]
  by (auto simp: per_tick_def pic_screen_simps)

end
