(* ===== verification/Windows.thy ===== *)
theory Windows
  imports Redraw
begin

text \<open>
  The windows of \<open>mwmg.c\<close> and the events of its main loop. \<open>create\_win\<close> and
  \<open>create\_selector\<close> are what they ask of GTK: titles, sizes, positions, handlers, buttons. The
  loop is a step relation whose events are the handlers: a button of the selector, a
  window's close box, a line of input, the timer, a new size.
\<close>

section \<open>create\_win\<close>

definition MINTHIGH :: int where "MINTHIGH = 200"
definition MINBHIGH :: int where "MINBHIGH = 125"
definition BAR_MIN :: int where "BAR_MIN = 3"
definition BAR_PAD :: int where "BAR_PAD = 1"

definition MINWIDTH :: "int \<Rightarrow> int" where
  "MINWIDTH n = (BAR_PAD + BAR_MIN) * n + 2"

record window =
  title :: string
  areas :: "(int \<times> int) list"
  handlers :: "nat list"
  place :: "int \<times> int"
  size_set :: "(int \<times> int) option"
  visible :: bool

text \<open>
  \<open>file\<close> is the content of the file of positions and \<open>junk\<close> what the variables for them hold
  before. The title is cut to 255 characters.
\<close>

definition create_win ::
  "screen \<Rightarrow> grapher \<Rightarrow> string option \<Rightarrow> Winpos.geometry \<Rightarrow> string option \<Rightarrow> nat \<Rightarrow> window option" where
  "create_win s g file junk tag which = (let v = views s ! which; nm = wname (wins g ! which);
       (rv, p) = getwinpos (int which) file junk;
       q = (if rv = 0 then \<lparr>px = 0, py = 0, pw = 250, ph = 0\<rparr> else p) in
     map_option (\<lambda>b. \<lparr>
       title = take 255 (case tag of Some t \<Rightarrow> nm @ '' '' @ t | None \<Rightarrow> nm),
       areas = [(MINWIDTH (nsys g) + M_LEFT s + rm v 0, MINTHIGH + M_TOP s + M_BOT s),
                (MINWIDTH (nsys g) + M_LEFT s + rm v 1, MINBHIGH + M_TOP s + M_BOT s)],
       handlers = [handler_data (length (wins g)) which 0, handler_data (length (wins g)) which 1],
       place = (px q, py q),
       size_set = (if pw q \<noteq> 0 \<and> ph q \<noteq> 0 then Some (pw q, ph q) else None),
       visible = b\<rparr>) (shown g which))"

section \<open>create\_selector\<close>

record button =
  blabel :: string
  swatches :: "nat list"
  active :: bool

definition selector_title :: "string option \<Rightarrow> string" where
  "selector_title t = take 255 (''Fortian '' @ (case t of None \<Rightarrow> ''Network'' | Some u \<Rightarrow> u) @ '' Monitor'')"

definition selector_button :: "grapher \<Rightarrow> nat \<Rightarrow> button option" where
  "selector_button g i = map_option (\<lambda>b. \<lparr>blabel = wname (wins g ! i),
     swatches = (if int i = W_NET then []
       else if int i \<noteq> W_MEM \<and> int i \<noteq> W_CPU then [2 * i, 2 * i + 1] else [2 * i]),
     active = b\<rparr>) (shown g i)"

definition create_selector ::
  "screen \<Rightarrow> grapher \<Rightarrow> string option \<Rightarrow> Winpos.geometry \<Rightarrow> string option \<Rightarrow>
    (string \<times> (window \<times> button) list) option" where
  "create_selector s g file junk t = map_option (Pair (selector_title t))
     (fold_opt (\<lambda>i rows. case create_win s g file junk t i of None \<Rightarrow> None
        | Some w \<Rightarrow> map_option (\<lambda>b. rows @ [(w, b)]) (selector_button g i)) [0..<length (wins g)] [])"

text \<open>A swatch shows one of the two colours of a window.\<close>

definition COLORSIZE :: int where "COLORSIZE = 22"

definition expose_color :: "bool \<Rightarrow> nat \<Rightarrow> cmd list" where
  "expose_color fresh gp = (let k = gp div 2; ofs = gp mod 2 in
     (if fresh then [Fg k (Col k ofs)] else []) @ (if ofs \<noteq> 0 then [Fg k (Col k 1)] else []) @
     [Fill (Gc k) 0 0 COLORSIZE COLORSIZE] @ (if ofs \<noteq> 0 then [Fg k (Col k 0)] else []))"

section \<open>The main loop\<close>

record session =
  scr :: screen
  gr :: grapher
  rows :: "(window \<times> button) list"
  timer :: bool
  quit :: bool

text \<open>
  Pressing a button changes it and calls \<open>toggle\_event\<close>; the close box of a window sets its
  button to off, which calls \<open>toggle\_event\<close> only if the button was on.
\<close>

definition toggled :: "nat \<Rightarrow> session \<Rightarrow> session option" where
  "toggled i \<sigma> = (case (shown (gr \<sigma>) i, toggle_event i (gr \<sigma>)) of (Some b, Some g') \<Rightarrow>
     Some (\<sigma>\<lparr>gr := g', rows := (rows \<sigma>)[i := ((fst (rows \<sigma> ! i))\<lparr>visible := \<not> b\<rparr>, snd (rows \<sigma> ! i))]\<rparr>)
   | _ \<Rightarrow> None)"

definition set_active :: "nat \<Rightarrow> bool \<Rightarrow> session \<Rightarrow> session option" where
  "set_active i b \<sigma> = (if active (snd (rows \<sigma> ! i)) = b then Some \<sigma>
     else toggled i (\<sigma>\<lparr>rows := (rows \<sigma>)[i := (fst (rows \<sigma> ! i), (snd (rows \<sigma> ! i))\<lparr>active := b\<rparr>)]\<rparr>))"

definition subwin_delete :: "nat \<Rightarrow> session \<Rightarrow> session option" where
  "subwin_delete i = set_active i False"

text \<open>The first line of input starts the timer and fills in the times again.\<close>

definition input :: "(int \<Rightarrow> string) \<Rightarrow> int \<Rightarrow> string option \<Rightarrow> session \<Rightarrow> session option" where
  "input clock now line \<sigma> = map_option (\<lambda>(g', q). \<sigma>\<lparr>gr := g', quit := q,
       timer := timer \<sigma> \<or> \<not> started (gr \<sigma>),
       scr := (if started (gr \<sigma>) then scr \<sigma> else (scr \<sigma>)\<lparr>whens := fill_whens clock now\<rparr>)\<rparr>)
     (readin now line (gr \<sigma>))"

datatype gui_event = Press nat | Close nat | Input int "string option" | Timer | Resize nat int int

definition handle :: "(int \<Rightarrow> string) \<Rightarrow> gui_event \<Rightarrow> session \<Rightarrow> session option" where
  "handle clock e \<sigma> = (case e of
     Press i \<Rightarrow> set_active i (\<not> active (snd (rows \<sigma> ! i))) \<sigma>
   | Close i \<Rightarrow> subwin_delete i \<sigma>
   | Input now line \<Rightarrow> input clock now line \<sigma>
   | Timer \<Rightarrow> map_option (\<lambda>(s', g', cs, go). \<sigma>\<lparr>scr := s', gr := g', timer := go\<rparr>) (tick (scr \<sigma>) (gr \<sigma>))
   | Resize gp w h \<Rightarrow> map_option (\<lambda>(s', cs). \<sigma>\<lparr>scr := s'\<rparr>) (configure_event (scr \<sigma>) (gr \<sigma>) gp w h))"

text \<open>
  The events GTK delivers. The timer fires only while it is set. A line must be for a
  system, a second and a window that exist, a history at least 42 pixels wide, and the
  values within the scales; a debugging build must not be given input once its samples are full.
\<close>

definition line_fits :: "int \<Rightarrow> string option \<Rightarrow> grapher \<Rightarrow> bool" where
  "line_fits now line g0 = (let g = begin_graph now g0 in
     \<not> (debugging g \<and> curtime g = word_of_int DEFTLEN) \<and> (case line of None \<Rightarrow> True
     | Some l \<Rightarrow> (case parse_line (start g) l of None \<Rightarrow> True
        | Some p \<Rightarrow> 0 \<le> flow p \<and> flow p < int (length (wins g)) \<and> tsec p < start g + DEFTLEN \<and> who p \<le> nsys g)))"

definition resized :: "screen \<Rightarrow> nat \<Rightarrow> nat \<Rightarrow> int \<Rightarrow> int \<Rightarrow> screen option" where
  "resized s k ofs w h = map_option (\<lambda>v. s\<lparr>views := (views s)[k := v]\<rparr>) (resize s ofs w h (views s ! k))"

definition deliverable :: "gui_event \<Rightarrow> session \<Rightarrow> bool" where
  "deliverable e \<sigma> \<longleftrightarrow> \<not> quit \<sigma> \<and> (case e of
     Press i \<Rightarrow> i < length (wins (gr \<sigma>))
   | Close i \<Rightarrow> i < length (wins (gr \<sigma>))
   | Input now line \<Rightarrow> line_fits now line (gr \<sigma>)
   | Timer \<Rightarrow> timer \<sigma> \<and> scales_fit (scr \<sigma>) (gr \<sigma>)
   | Resize gp w h \<Rightarrow> (let (k, ofs) = area_of (length (wins (gr \<sigma>))) gp;
         d = w - M_LEFT (scr \<sigma>) - M_RIGHT (scr \<sigma>) - 2 in
       ofs < 2 \<and> (ofs = 1 \<longrightarrow> 42 \<le> d \<and> d < 2 ^ 31) \<and>
       (case resized (scr \<sigma>) k ofs w h of None \<Rightarrow> True | Some s \<Rightarrow> scales_fit s (gr \<sigma>))))"

inductive reach :: "(int \<Rightarrow> string) \<Rightarrow> session \<Rightarrow> session \<Rightarrow> bool" for clock \<sigma>0 where
  first: "reach clock \<sigma>0 \<sigma>0"
| event: "reach clock \<sigma>0 \<sigma> \<Longrightarrow> deliverable e \<sigma> \<Longrightarrow> handle clock e \<sigma> = Some \<sigma>' \<Longrightarrow> reach clock \<sigma>0 \<sigma>'"

text \<open>The session \<open>main\<close> starts.\<close>

definition initial :: "screen \<Rightarrow> grapher \<Rightarrow> string option \<Rightarrow> Winpos.geometry \<Rightarrow> string option \<Rightarrow> session option" where
  "initial s g file junk t = map_option (\<lambda>(_, rs). \<lparr>scr = s, gr = g, rows = rs, timer = False, quit = False\<rparr>)
     (create_selector s g file junk t)"

section \<open>Lemmas: buttons and windows\<close>

text \<open>Buttons, windows and \<open>showwins\<close> say the same.\<close>

definition in_sync :: "session \<Rightarrow> bool" where
  "in_sync \<sigma> \<longleftrightarrow> length (rows \<sigma>) = length (wins (gr \<sigma>)) \<and> (\<forall>i < length (rows \<sigma>).
     active (snd (rows \<sigma> ! i)) = bit (showwins (gr \<sigma>)) i \<and> visible (fst (rows \<sigma> ! i)) = bit (showwins (gr \<sigma>)) i)"

lemma set_active_sync:
  assumes "in_sync \<sigma>" and "i < length (wins (gr \<sigma>))" and "length (wins (gr \<sigma>)) \<le> 32"
  shows "\<exists>\<sigma>'. set_active i b \<sigma> = Some \<sigma>' \<and> in_sync \<sigma>' \<and> scr \<sigma>' = scr \<sigma> \<and> timer \<sigma>' = timer \<sigma> \<and>
    gr \<sigma>' = (gr \<sigma>)\<lparr>showwins := showwins (gr \<sigma>')\<rparr> \<and> active (snd (rows \<sigma>' ! i)) = b"
proof (cases "active (snd (rows \<sigma> ! i)) = b")
  case True
  then show ?thesis using assms(1) by (simp add: set_active_def)
next
  case False
  define \<sigma>1 where "\<sigma>1 = \<sigma>\<lparr>rows := (rows \<sigma>)[i := (fst (rows \<sigma> ! i), (snd (rows \<sigma> ! i))\<lparr>active := b\<rparr>)]\<rparr>"
  define w where "w = showwins (gr \<sigma>) XOR push_bit i 1"
  have i: "i < 32" "i < length (rows \<sigma>)" using assms by (auto simp: in_sync_def)
  have bits: "bit w j = (if j = i then \<not> bit (showwins (gr \<sigma>)) j else bit (showwins (gr \<sigma>)) j)"
    if "j < length (rows \<sigma>)" for j
    unfolding w_def using toggled_bit [of i j "showwins (gr \<sigma>)"] i(1) that assms(1,3) by (simp add: in_sync_def)
  have "set_active i b \<sigma> = Some (\<sigma>1\<lparr>gr := (gr \<sigma>)\<lparr>showwins := w\<rparr>,
      rows := (rows \<sigma>1)[i := ((fst (rows \<sigma>1 ! i))\<lparr>visible := \<not> bit (showwins (gr \<sigma>)) i\<rparr>, snd (rows \<sigma>1 ! i))]\<rparr>)"
    using False i(1) by (simp add: set_active_def toggled_def shown_bit toggle_bit \<sigma>1_def w_def)
  moreover have "active (snd (rows \<sigma> ! i)) = bit (showwins (gr \<sigma>)) i"
    using assms(1) i(2) by (simp add: in_sync_def)
  ultimately show ?thesis using assms(1) i False bits
    by (auto simp: in_sync_def \<sigma>1_def nth_list_update)
qed

lemma session_ok_showwins: "session_ok s (g\<lparr>showwins := w\<rparr>) = session_ok s g"
  by (simp add: session_ok_def grapher_ok_def)

section \<open>Lemmas: the state of a session\<close>

definition session_inv :: "session \<Rightarrow> bool" where
  "session_inv \<sigma> \<longleftrightarrow> in_sync \<sigma> \<and> session_ok (scr \<sigma>) (gr \<sigma>) \<and> curtime (gr \<sigma>) \<le> 1860 \<and>
     (timer \<sigma> \<longrightarrow> curtime (gr \<sigma>) < 1860 \<and> started (gr \<sigma>)) \<and> (\<not> started (gr \<sigma>) \<longrightarrow> curtime (gr \<sigma>) = 0)"

lemma readin_defined:
  assumes "grapher_ok g" and "line_fits now line g"
  shows "readin now line g \<noteq> None"
proof -
  let ?g = "begin_graph now g"
  have ok: "grapher_ok ?g" "started ?g" using assms(1) by (simp_all add: begin_graph_def grapher_ok_def)
  have same: "readin now l ?g = readin now l g" for l by (simp add: readin_def begin_graph_def)
  show ?thesis
  proof (cases "curtime ?g < word_of_int DEFTLEN")
    case True
    show ?thesis
    proof (cases line)
      case (Some l)
      show ?thesis
      proof (cases "parse_line (start ?g) l")
        case (Some p)
        then have "0 \<le> flow p" "flow p < int (length (wins ?g))" "tsec p < start ?g + DEFTLEN" "who p \<le> nsys ?g"
          using assms(2) \<open>line = Some l\<close> by (simp_all add: line_fits_def Let_def begin_graph_def)
        from readin_point [OF ok True Some this, of now] show ?thesis using \<open>line = Some l\<close> same by auto
      qed (use True in \<open>auto simp: readin_def \<open>line = Some l\<close> Let_def\<close>)
    qed (use True in \<open>auto simp: readin_def Let_def\<close>)
  next
    case False
    then show ?thesis using assms(2) by (auto simp: readin_def line_fits_def Let_def not_less)
  qed
qed

lemma readin_shows:
  "readin now line g = Some (g', q) \<Longrightarrow> showwins g' = showwins g \<and> started g'"
  by (auto simp: readin_def begin_graph_def Let_def split: if_splits option.splits)

lemma per_tick_whens: "per_tick (s\<lparr>whens := x\<rparr>) = per_tick s"
  by (simp add: per_tick_def)

lemma input_keeps:
  assumes "session_inv \<sigma>" and "line_fits now line (gr \<sigma>)"
  shows "\<exists>\<sigma>'. input clock now line \<sigma> = Some \<sigma>' \<and> session_inv \<sigma>'"
proof -
  have inv: "grapher_ok (gr \<sigma>)" "session_ok (scr \<sigma>) (gr \<sigma>)" using assms(1) by (auto simp: session_inv_def session_ok_def)
  obtain g' q where r: "readin now line (gr \<sigma>) = Some (g', q)" using readin_defined [OF inv(1) assms(2)] by auto
  note keep = readin_ok [OF r inv(1)] readin_shows [OF r]
  have "session_ok ((scr \<sigma>)\<lparr>whens := fill_whens clock now\<rparr>) g'" "session_ok (scr \<sigma>) g'"
    using inv(2) keep by (simp_all add: session_ok_def per_tick_whens)
  then show ?thesis using assms(1) keep by (auto simp: input_def r session_inv_def in_sync_def)
qed

lemma tick_keeps:
  assumes "session_inv \<sigma>" and "timer \<sigma>" and "scales_fit (scr \<sigma>) (gr \<sigma>)"
  shows "\<exists>s' g' cs go. tick (scr \<sigma>) (gr \<sigma>) = Some (s', g', cs, go) \<and>
    session_inv (\<sigma>\<lparr>scr := s', gr := g', timer := go\<rparr>)"
proof -
  have inv: "session_ok (scr \<sigma>) (gr \<sigma>)" "curtime (gr \<sigma>) < 1860" "in_sync \<sigma>" "started (gr \<sigma>)"
    using assms(1,2) by (auto simp: session_inv_def)
  have n: "length (wins (gr \<sigma>)) \<le> 32" using inv(1) by (simp add: session_ok_def)
  have "curtime (gr \<sigma>) + 1 \<le> 1860" using inv(2) by (rule inc_le)
  moreover obtain s' cs where "tick (scr \<sigma>) (gr \<sigma>) = Some (s', (gr \<sigma>)\<lparr>curtime := curtime (gr \<sigma>) + 1\<rparr>, cs,
      curtime (gr \<sigma>) + 1 < word_of_int DEFTLEN)" and "session_ok s' (gr \<sigma>)"
    using redraw_tick [OF inv(1,2) assms(3)] by blast
  ultimately show ?thesis using inv
    by (auto simp: session_inv_def in_sync_def session_ok_def grapher_ok_def DEFTLEN_def)
qed

lemma resize_defined:
  assumes "ofs < 2" and "ofs = 1 \<longrightarrow> 42 \<le> w - M_LEFT s - M_RIGHT s - 2 \<and> w - M_LEFT s - M_RIGHT s - 2 < 2 ^ 31"
    and "0 < sperpx v0" "sperpx v0 \<le> 45"
  shows "\<exists>v. resize s ofs w h v0 = Some v \<and> 0 < sperpx v \<and> sperpx v \<le> 45"
proof (cases "ofs = 0")
  case True
  then show ?thesis using assms(3,4) by (simp add: resize_def)
next
  case False
  define d where "d = w - M_LEFT s - M_RIGHT s - 2"
  have ofs: "ofs = 1" and d: "42 \<le> d" "d < 2 ^ 31" using False assms(1,2) by (auto simp: d_def)
  have "0 < of_int DEFTLEN / (of_int d :: rat)" using d by (simp add: DEFTLEN_def)
  then have "0 < \<lceil>of_int DEFTLEN / (of_int d :: rat)\<rceil>" by simp
  then obtain v where v: "resize s 1 w h v0 = Some v"
    using seconds_per_pixel [OF _ d(2)] d by (auto simp: resize_def Let_def simp flip: d_def)
  then show ?thesis using resize_sperpx [OF v d_def] d ofs by auto
qed

lemma resize_keeps:
  assumes "session_inv \<sigma>" and "deliverable (Resize gp w h) \<sigma>"
  shows "\<exists>s' cs. configure_event (scr \<sigma>) (gr \<sigma>) gp w h = Some (s', cs) \<and> session_inv (\<sigma>\<lparr>scr := s'\<rparr>)"
proof -
  let ?s = "scr \<sigma>" and ?g = "gr \<sigma>"
  have inv: "session_ok ?s ?g" "curtime ?g \<le> 1860" using assms(1) by (auto simp: session_inv_def)
  obtain k ofs where a: "area_of (length (wins ?g)) gp = (k, ofs)" by force
  have n: "5 \<le> length (wins ?g)" "length (views ?s) = length (wins ?g)"
    using inv(1) by (auto simp: session_ok_def grapher_ok_def W_USER_def)
  have "gp mod length (wins ?g) < length (wins ?g)" using n(1) by (intro mod_less_divisor) linarith
  then have k: "k < length (wins ?g)" using a unfolding area_of_def by simp
  have v0: "0 < sperpx (views ?s ! k)" "sperpx (views ?s ! k) \<le> 45"
    using inv(1) k n(2) nth_mem [of k "views ?s"] by (auto simp: session_ok_def)
  have ofs: "ofs < 2" "ofs = 1 \<longrightarrow> 42 \<le> w - M_LEFT ?s - M_RIGHT ?s - 2 \<and> w - M_LEFT ?s - M_RIGHT ?s - 2 < 2 ^ 31"
    using assms(2) a by (simp_all add: deliverable_def Let_def)
  obtain v where v: "resize ?s ofs w h (views ?s ! k) = Some v" "0 < sperpx v" "sperpx v \<le> 45"
    using resize_defined [OF ofs v0] by blast
  define s1 where "s1 = ?s\<lparr>views := (views ?s)[k := v]\<rparr>"
  have "\<forall>u \<in> set (views s1). 0 < sperpx u \<and> sperpx u \<le> 45"
    using inv(1) v(2,3) by (auto simp: s1_def session_ok_def dest!: set_update_subset_insert [THEN subsetD])
  then have s1: "session_ok s1 ?g" using inv(1) by (simp add: session_ok_def s1_def per_tick_def cong: if_cong)
  have fit: "scales_fit s1 ?g" using assms(2) a v(1) by (simp add: deliverable_def resized_def s1_def Let_def)
  obtain s' cs where b: "blank s1 ?g k ofs = Some (s', cs)" using blank_defined [OF s1 inv(2) fit k] by fastforce
  have "session_ok s' ?g" by (rule geometry_session(1) [OF blank_keeps [OF b] s1 fit])
  then show ?thesis using assms(1) v(1) b
    by (simp add: configure_event_def a s1_def session_inv_def in_sync_def)
qed

lemma handle_keeps:
  assumes "session_inv \<sigma>" and "deliverable e \<sigma>"
  shows "\<exists>\<sigma>'. handle clock e \<sigma> = Some \<sigma>' \<and> session_inv \<sigma>'"
proof -
  have act: "\<exists>\<sigma>'. set_active i b \<sigma> = Some \<sigma>' \<and> session_inv \<sigma>'" if i: "i < length (wins (gr \<sigma>))" for i b
  proof -
    have inv: "in_sync \<sigma>" "length (wins (gr \<sigma>)) \<le> 32" using assms(1) by (auto simp: session_inv_def session_ok_def)
    obtain \<sigma>' where s: "set_active i b \<sigma> = Some \<sigma>'" "in_sync \<sigma>'" "scr \<sigma>' = scr \<sigma>" "timer \<sigma>' = timer \<sigma>"
      "gr \<sigma>' = (gr \<sigma>)\<lparr>showwins := showwins (gr \<sigma>')\<rparr>"
      using set_active_sync [OF inv(1) i inv(2), of b] by blast
    have "session_ok (scr \<sigma>') (gr \<sigma>')" "curtime (gr \<sigma>') = curtime (gr \<sigma>)" "started (gr \<sigma>') = started (gr \<sigma>)"
      using assms(1) s(3) by (subst s(5), simp add: session_ok_showwins session_inv_def)+
    then show ?thesis using assms(1) s(1,2,4) by (simp add: session_inv_def)
  qed
  show ?thesis
  proof (cases e)
    case (Timer)
    then show ?thesis using tick_keeps [OF assms(1)] assms(2) by (fastforce simp: deliverable_def handle_def)
  next
    case (Resize gp w h)
    then show ?thesis using resize_keeps [OF assms(1)] assms(2) by (fastforce simp: handle_def)
  qed (use act input_keeps [OF assms(1)] assms(2) in \<open>auto simp: deliverable_def handle_def subwin_delete_def\<close>)
qed

text \<open>The numbers of systems and windows do not change.\<close>

lemma set_active_shape:
  "set_active i b \<sigma> = Some \<sigma>' \<Longrightarrow> nsys (gr \<sigma>') = nsys (gr \<sigma>) \<and> length (wins (gr \<sigma>')) = length (wins (gr \<sigma>))"
  by (auto simp: set_active_def toggled_def toggle_event_def split: if_splits option.splits)

lemma handle_shape:
  assumes "session_inv \<sigma>" and "deliverable e \<sigma>"
  shows "\<exists>\<sigma>'. handle clock e \<sigma> = Some \<sigma>' \<and> session_inv \<sigma>' \<and>
    (nsys (gr \<sigma>'), length (wins (gr \<sigma>'))) = (nsys (gr \<sigma>), length (wins (gr \<sigma>)))"
proof -
  obtain \<sigma>' where h: "handle clock e \<sigma> = Some \<sigma>'" "session_inv \<sigma>'" using handle_keeps [OF assms] by blast
  have "grapher_ok (gr \<sigma>)" using assms(1) by (simp add: session_inv_def session_ok_def)
  then have "nsys (gr \<sigma>') = nsys (gr \<sigma>) \<and> length (wins (gr \<sigma>')) = length (wins (gr \<sigma>))"
    using h(1) set_active_shape readin_ok
    by (cases e) (fastforce simp: handle_def subwin_delete_def input_def tick_def update_def split: option.splits if_splits)+
  then show ?thesis using h by blast
qed

lemma reach_inv: "reach clock \<sigma>0 \<sigma> \<Longrightarrow> session_inv \<sigma>0 \<Longrightarrow> session_inv \<sigma>"
proof (induction rule: reach.induct)
  case (event \<sigma> e \<sigma>')
  then show ?case using handle_keeps [of \<sigma> e clock] by auto
qed

lemma reach_shape:
  "reach clock \<sigma>0 \<sigma> \<Longrightarrow> session_inv \<sigma>0 \<Longrightarrow>
    nsys (gr \<sigma>) = nsys (gr \<sigma>0) \<and> length (wins (gr \<sigma>)) = length (wins (gr \<sigma>0))"
proof (induction rule: reach.induct)
  case (event \<sigma> e \<sigma>')
  then show ?case using handle_shape [OF reach_inv [OF event.hyps(1) event.prems] event.hyps(2), of clock] by auto
qed simp

text \<open>The rows of the selector and their windows.\<close>

lemma create_win_visible: "create_win s g file junk t i = Some w \<Longrightarrow> shown g i = Some (visible w)"
  by (auto simp: create_win_def Let_def split: prod.splits)

lemma selector_button_active: "selector_button g i = Some b \<Longrightarrow> shown g i = Some (active b)"
  by (auto simp: selector_button_def)

lemma selector_rows:
  assumes "length (wins g) \<le> 32"
  shows "\<exists>rs. create_selector s g file junk t = Some (selector_title t, rs) \<and> length rs = length (wins g) \<and>
    (\<forall>i < length rs. create_win s g file junk t i = Some (fst (rs ! i)) \<and> selector_button g i = Some (snd (rs ! i)))"
proof -
  define W where "W = (\<lambda>i. the (create_win s g file junk t i))"
  define B where "B = (\<lambda>i. the (selector_button g i))"
  have some: "create_win s g file junk t i = Some (W i)" "selector_button g i = Some (B i)" if "i < length (wins g)" for i
    using that assms by (auto simp: W_def B_def create_win_def selector_button_def shown_bit Let_def split: prod.splits)
  have "fold_opt (\<lambda>i rows. case create_win s g file junk t i of None \<Rightarrow> None
        | Some w \<Rightarrow> map_option (\<lambda>b. rows @ [(w, b)]) (selector_button g i)) [0..<length (wins g)] [] =
      Some (fold (\<lambda>i rows. rows @ [(W i, B i)]) [0..<length (wins g)] [])"
    by (rule fold_opt_Some) (simp add: some)
  also have "fold (\<lambda>i rows. rows @ [(W i, B i)]) [0..<length (wins g)] [] = map (\<lambda>i. (W i, B i)) [0..<length (wins g)]"
    using fold_append_map [of "\<lambda>i. [(W i, B i)]" "[0..<length (wins g)]" "[]"] by simp
  finally show ?thesis
    by (intro exI [of _ "map (\<lambda>i. (W i, B i)) [0..<length (wins g)]"]) (simp add: create_selector_def some)
qed

lemma initial_inv:
  assumes "initial s g file junk t = Some \<sigma>" and "session_ok s g" and "\<not> started g" and "curtime g = 0"
  shows "session_inv \<sigma>"
proof -
  have n: "length (wins g) \<le> 32" using assms(2) by (simp add: session_ok_def)
  obtain rs where r: "create_selector s g file junk t = Some (selector_title t, rs)" "length rs = length (wins g)"
    "\<forall>i < length rs. create_win s g file junk t i = Some (fst (rs ! i)) \<and> selector_button g i = Some (snd (rs ! i))"
    using selector_rows [OF n] by blast
  have "visible (fst (rs ! i)) = bit (showwins g) i \<and> active (snd (rs ! i)) = bit (showwins g) i"
    if i: "i < length rs" for i
  proof -
    have "shown g i = Some (bit (showwins g) i)" using i n r(2) by (simp add: shown_bit)
    moreover have "create_win s g file junk t i = Some (fst (rs ! i))" "selector_button g i = Some (snd (rs ! i))"
      using r(3) i by auto
    ultimately show ?thesis using create_win_visible selector_button_active by fastforce
  qed
  then show ?thesis using assms r by (auto simp: initial_def session_inv_def in_sync_def)
qed

section \<open>Properties\<close>

text \<open>C7: no deliverable event of the main loop goes wrong: in a session that starts with one sample
  a second, at most 32 windows and fewer than 100000 systems, whatever buttons are pressed,
  windows closed or resized, lines read and ticks drawn, in any order, every handler is
  defined: no access leaves the samples or the times, no shift or division is undefined.
  Deliverable are lines for systems, seconds and windows that exist, resizes that leave the
  history at least 42 pixels wide, resizes and ticks with values up to 4e9 on every scale, and,
  in a build with \<open>DEBUG\<close>, which is the Makefile's default, input only until the samples are full.\<close>

theorem session_never_undefined:
  assumes "initial s g file junk t = Some \<sigma>0" and "session_ok s g" and "\<not> started g" and "curtime g = 0"
    and "reach clock \<sigma>0 \<sigma>" and "deliverable e \<sigma>"
  shows "handle clock e \<sigma> \<noteq> None"
  using handle_keeps [OF reach_inv [OF assms(5) initial_inv [OF assms(1-4)]] assms(6)] by auto


text \<open>C17: what the handlers rely on stays as it is through a session that starts with one sample a
  second, at most 32 windows and fewer than 100000 systems, whatever deliverable events come:
  the windows, the views, the rows of the selector and the systems are as many as at the
  start, each window has two levels of \<open>DEFTLEN\<close> seconds for every system, there are eleven
  times, and the scales are between 1 and 45 seconds per pixel; and the clock never passes
  the samples.\<close>

theorem session_wellformed:
  assumes "initial s g file junk t = Some \<sigma>0" and "session_ok s g" and "\<not> started g" and "curtime g = 0"
    and "reach clock \<sigma>0 \<sigma>"
  shows "length (wins (gr \<sigma>)) = length (wins g) \<and> nsys (gr \<sigma>) = nsys g \<and> length (views (scr \<sigma>)) = length (views s) \<and>
    length (rows \<sigma>) = length (wins g) \<and> session_ok (scr \<sigma>) (gr \<sigma>) \<and> curtime (gr \<sigma>) \<le> 1860 \<and>
    (timer \<sigma> \<longrightarrow> started (gr \<sigma>) \<and> curtime (gr \<sigma>) < 1860)"
proof -
  have inv: "session_inv \<sigma>0" by (rule initial_inv [OF assms(1-4)])
  have "gr \<sigma>0 = g" using assms(1) by (auto simp: initial_def)
  then show ?thesis using reach_inv [OF assms(5) inv] reach_shape [OF assms(5) inv] assms(2)
    by (auto simp: session_inv_def in_sync_def session_ok_def)
qed

section \<open>Witnesses\<close>

lemma pic_session: "session_ok pic_screen pic_grapher"
  by (simp add: session_ok_def pic_grapher_simps pic_screen_simps) (simp add: pic_screen_def pic_view_def)

definition no_geometry :: Winpos.geometry where
  "no_geometry = \<lparr>px = 0, py = 0, pw = 0, ph = 0\<rparr>"

text \<open>The session of the sample, whose windows are all hidden at first.\<close>

lemma pic_initial: "\<exists>\<sigma>. initial pic_screen pic_grapher None no_geometry None = Some \<sigma> \<and> gr \<sigma> = pic_grapher \<and> \<not> quit \<sigma>"
  using selector_rows [of pic_grapher pic_screen None no_geometry None] by (auto simp: initial_def pic_grapher_simps)

lemma pic_inv: "initial pic_screen pic_grapher None no_geometry None = Some \<sigma> \<Longrightarrow> session_inv \<sigma>"
  by (rule initial_inv [OF _ pic_session]) (simp_all add: pic_grapher_simps)

theorem session_never_undefined_witness:
  "\<exists>\<sigma>. initial pic_screen pic_grapher None no_geometry None = Some \<sigma> \<and> handle (\<lambda>_. ''00:00'') (Press 2) \<sigma> \<noteq> None"
proof -
  obtain \<sigma> where i: "initial pic_screen pic_grapher None no_geometry None = Some \<sigma>" "gr \<sigma> = pic_grapher" "\<not> quit \<sigma>"
    using pic_initial by blast
  have "deliverable (Press 2) \<sigma>" using i(2,3) by (simp add: deliverable_def pic_grapher_simps)
  then show ?thesis
    using session_never_undefined [OF i(1) pic_session _ _ reach.first] i(1) by (simp add: pic_grapher_simps)
qed


theorem session_wellformed_witness:
  "\<exists>\<sigma>. initial pic_screen pic_grapher None no_geometry None = Some \<sigma> \<and> session_ok (scr \<sigma>) (gr \<sigma>) \<and> length (rows \<sigma>) = 5"
proof -
  obtain \<sigma> where i: "initial pic_screen pic_grapher None no_geometry None = Some \<sigma>" "gr \<sigma> = pic_grapher"
    using pic_initial by blast
  then show ?thesis
    using session_wellformed [OF i(1) pic_session _ _ reach.first] by (simp add: pic_grapher_simps)
qed

end
