(* ===== verification/Display.thy ===== *)
theory Display
  imports Windows
begin

text \<open>
  What the grapher promises, without windows, pixels or arrays: which windows are open, the
  value added up for each window, second, system and level, and how many ticks have passed.
  The main loop of \<open>Windows\<close> implements it, event by event.
\<close>

section \<open>Implementing a specification event by event\<close>

locale simulation =
  fixes inv :: "'s \<Rightarrow> bool" and ok :: "'e \<Rightarrow> 's \<Rightarrow> bool" and impl :: "'e \<Rightarrow> 's \<Rightarrow> 's option"
    and abs :: "'s \<Rightarrow> 'a" and spec :: "'e \<Rightarrow> 'a \<Rightarrow> 'a"
  assumes implements: "inv s \<Longrightarrow> ok e s \<Longrightarrow> \<exists>s'. impl e s = Some s' \<and> inv s' \<and> abs s' = spec e (abs s)"
begin

text \<open>Each event of a sequence is allowed in the state the ones before it lead to.\<close>

fun allowed :: "'e list \<Rightarrow> 's \<Rightarrow> bool" where
  "allowed [] s = True"
| "allowed (e # es) s = (ok e s \<and> (case impl e s of None \<Rightarrow> True | Some s' \<Rightarrow> allowed es s'))"

lemma run_implements:
  "inv s \<Longrightarrow> allowed es s \<Longrightarrow> \<exists>s'. fold_opt impl es s = Some s' \<and> inv s' \<and> abs s' = fold spec es (abs s)"
proof (induction es arbitrary: s)
  case (Cons e es)
  obtain s1 where "impl e s = Some s1" "inv s1" "abs s1 = spec e (abs s)"
    using implements [of s e] Cons.prems by auto
  then show ?case using Cons.IH [of s1] Cons.prems(2) by simp
qed simp

end

section \<open>The specification\<close>

record display =
  open_wins :: "nat set"
  total :: "nat \<Rightarrow> int \<Rightarrow> int \<Rightarrow> bool \<Rightarrow> u64"
  elapsed :: nat
  origin :: "int option"

definition add_point :: "int \<Rightarrow> point \<Rightarrow> display \<Rightarrow> display" where
  "add_point t0 p d = d\<lparr>total := (\<lambda>k t i e. total d k t i e +
     (if int k = flow p \<and> t = tsec p - t0 \<and> i = who p - 1 \<and> e = encapped p then incr p else 0))\<rparr>"

definition see_line :: "int \<Rightarrow> string option \<Rightarrow> display \<Rightarrow> display" where
  "see_line now line d = (let t0 = (case origin d of None \<Rightarrow> now | Some t \<Rightarrow> t); d' = d\<lparr>origin := Some t0\<rparr> in
     if 1860 \<le> elapsed d then d'
     else (case line of None \<Rightarrow> d' | Some l \<Rightarrow> (case parse_line t0 l of None \<Rightarrow> d' | Some p \<Rightarrow> add_point t0 p d')))"

definition spec_step :: "gui_event \<Rightarrow> display \<Rightarrow> display" where
  "spec_step e d = (case e of
     Press i \<Rightarrow> d\<lparr>open_wins := (if i \<in> open_wins d then open_wins d - {i} else insert i (open_wins d))\<rparr>
   | Close i \<Rightarrow> d\<lparr>open_wins := open_wins d - {i}\<rparr>
   | Input now line \<Rightarrow> see_line now line d
   | Timer \<Rightarrow> d\<lparr>elapsed := elapsed d + 1\<rparr>
   | Resize gp w h \<Rightarrow> d)"

definition display_of :: "session \<Rightarrow> display" where
  "display_of \<sigma> = (let g = gr \<sigma> in \<lparr>open_wins = {i. i < length (wins g) \<and> bit (showwins g) i},
     total = (\<lambda>k t i e. if k < length (wins g) \<and> 0 \<le> t \<and> t < DEFTLEN \<and> 0 \<le> i \<and> i < nsys g
        then sample (wins g) (int k) (cell (nsys g) t i e) else 0),
     elapsed = unat (curtime g), origin = (if started g then Some (start g) else None)\<rparr>)"

section \<open>Lemmas: the events\<close>

lemma display_same:
  "gr \<sigma>' = gr \<sigma> \<Longrightarrow> display_of \<sigma>' = display_of \<sigma>"
  by (simp add: display_of_def)

lemma set_active_display:
  assumes "session_inv \<sigma>" and "i < length (wins (gr \<sigma>))" and "set_active i b \<sigma> = Some \<sigma>'"
  shows "display_of \<sigma>' = (display_of \<sigma>)\<lparr>open_wins := (if b then insert i (open_wins (display_of \<sigma>)) else open_wins (display_of \<sigma>) - {i})\<rparr>"
proof -
  have inv: "in_sync \<sigma>" "length (wins (gr \<sigma>)) \<le> 32" using assms(1) by (auto simp: session_inv_def session_ok_def)
  show ?thesis
  proof (cases "active (snd (rows \<sigma> ! i)) = b")
    case True
    then have "\<sigma>' = \<sigma>" using assms(3) by (simp add: set_active_def)
    moreover have "bit (showwins (gr \<sigma>)) i = b" using True inv assms(2) by (simp add: in_sync_def)
    ultimately show ?thesis using assms(2) by (auto simp: display_of_def Let_def)
  next
    case False
    have i: "i < 32" using assms(2) inv(2) by simp
    have was: "bit (showwins (gr \<sigma>)) i = (\<not> b)" using False inv assms(2) by (auto simp: in_sync_def)
    have g: "gr \<sigma>' = (gr \<sigma>)\<lparr>showwins := showwins (gr \<sigma>) XOR push_bit i 1\<rparr>"
      using assms(3) False i by (auto simp: set_active_def toggled_def shown_bit toggle_bit)
    have "bit (showwins (gr \<sigma>) XOR push_bit i 1) j = (if j = i then b else bit (showwins (gr \<sigma>)) j)"
      if "j < length (wins (gr \<sigma>))" for j
      using toggled_bit [OF i, of j "showwins (gr \<sigma>)"] that inv(2) was by (simp del: push_bit_of_1)
    then show ?thesis using assms(2) unfolding display_of_def Let_def g by (auto simp del: push_bit_of_1 split: if_splits cong: if_cong)
  qed
qed

lemma readin_display:
  assumes "grapher_ok g" and "line_fits now line g" and "readin now line g = Some (g', q)" and "curtime g \<le> 1860"
    and "gr \<sigma> = g" and "gr \<sigma>' = g'"
  shows "display_of \<sigma>' = see_line now line (display_of \<sigma>)"
proof -
  let ?g = "begin_graph now g" and ?t0 = "if started g then start g else now"
  have g1: "grapher_ok ?g" "started ?g" "start ?g = ?t0" "wins ?g = wins g" "nsys ?g = nsys g" "curtime ?g = curtime g"
    "showwins ?g = showwins g" using assms(1) by (simp_all add: begin_graph_def grapher_ok_def)
  have same: "readin now line ?g = readin now line g" by (simp add: readin_def begin_graph_def)
  have org: "(case origin (display_of \<sigma>) of None \<Rightarrow> now | Some t \<Rightarrow> t) = ?t0" "elapsed (display_of \<sigma>) = unat (curtime g)"
    using assms(5) by (simp_all add: display_of_def Let_def)
  have time: "1860 \<le> unat (curtime g) \<longleftrightarrow> \<not> curtime g < word_of_int DEFTLEN"
    by (simp add: DEFTLEN_def word_less_nat_alt not_less)
  have base: "\<lparr>open_wins = open_wins (display_of \<sigma>), total = total (display_of \<sigma>), elapsed = elapsed (display_of \<sigma>),
      origin = Some ?t0\<rparr> = (display_of \<sigma>)\<lparr>origin := Some ?t0\<rparr>" by simp
  have unchanged: "display_of \<sigma>' = (display_of \<sigma>)\<lparr>origin := Some ?t0\<rparr>" if "g' = ?g"
    using that assms(5,6) g1 by (simp add: display_of_def Let_def cong: if_cong)
  consider (over) "1860 \<le> unat (curtime g) \<or> line = None" | (skip) l where "line = Some l" "parse_line ?t0 l = None" "unat (curtime g) < 1860"
    | (point) l p where "line = Some l" "parse_line ?t0 l = Some p" "unat (curtime g) < 1860"
    by (cases line) (force simp: not_le)+
  then show ?thesis
  proof cases
    case over
    then have "g' = ?g" using assms(3) time by (auto simp: readin_def Let_def g1(6) split: option.splits if_splits)
    then show ?thesis using over unchanged by (auto simp: see_line_def org Let_def split: option.splits)
  next
    case skip
    then have "g' = ?g" using assms(3) time by (auto simp: readin_def Let_def g1 split: if_splits)
    then show ?thesis using skip unchanged by (simp add: see_line_def org Let_def)
  next
    case point
    have p: "parse_line (start ?g) l = Some p" using point(2) by (simp only: g1(3))
    have fits: "0 \<le> flow p" "flow p < int (length (wins ?g))" "tsec p < start ?g + DEFTLEN" "who p \<le> nsys ?g"
      using assms(2) point(1) p by (simp_all add: line_fits_def Let_def g1(4,5))
    have ct: "curtime ?g < word_of_int DEFTLEN" using point(3) time g1(6) by simp
    have r: "readin now (Some l) ?g = Some (g', q)" using same assms(3) point(1) by simp
    from readin_point [OF g1(1,2) ct p fits, of now] r have upd: "\<forall>f i w e. 0 \<le> f \<longrightarrow> f < int (length (wins g)) \<longrightarrow> 0 \<le> i \<longrightarrow>
        i < DEFTLEN \<longrightarrow> 0 \<le> w \<longrightarrow> w < nsys g \<longrightarrow> sample (wins g') f (cell (nsys g) i w e) = sample (wins g) f (cell (nsys g) i w e) +
        (if f = flow p \<and> i = tsec p - ?t0 \<and> w = who p - 1 \<and> e = encapped p then incr p else 0)"
      by (simp only: option.inject prod.inject g1(3-5)) auto
    note keep = readin_ok [OF r g1(1)] readin_shows [OF r] readin_start [OF r g1(2)]
    have "?t0 \<le> tsec p" "0 < who p" using parse_line_range [OF p] g1(3) by auto
    then have "display_of \<sigma>' = add_point ?t0 p ((display_of \<sigma>)\<lparr>origin := Some ?t0\<rparr>)"
      using upd keep fits g1 unfolding display_of_def Let_def assms(5,6) add_point_def
      by (auto simp: fun_eq_iff)
    then show ?thesis using point by (simp add: see_line_def org Let_def)
  qed
qed

lemma handle_display:
  assumes "session_inv \<sigma>" and "deliverable e \<sigma>"
  shows "\<exists>\<sigma>'. handle clock e \<sigma> = Some \<sigma>' \<and> session_inv \<sigma>' \<and> display_of \<sigma>' = spec_step e (display_of \<sigma>)"
proof -
  obtain \<sigma>' where h: "handle clock e \<sigma> = Some \<sigma>'" "session_inv \<sigma>'" using handle_keeps [OF assms] by blast
  have "display_of \<sigma>' = spec_step e (display_of \<sigma>)"
  proof (cases e)
    case (Press i)
    then have i: "i < length (wins (gr \<sigma>))" using assms(2) by (simp add: deliverable_def)
    have "active (snd (rows \<sigma> ! i)) = (i \<in> open_wins (display_of \<sigma>))"
      using assms(1) i by (simp add: session_inv_def in_sync_def display_of_def Let_def)
    then show ?thesis using set_active_display [OF assms(1) i] h(1) Press by (simp add: handle_def spec_step_def)
  next
    case (Close i)
    then have "i < length (wins (gr \<sigma>))" using assms(2) by (simp add: deliverable_def)
    then show ?thesis using set_active_display [OF assms(1)] h(1) Close
      by (simp add: handle_def spec_step_def subwin_delete_def)
  next
    case (Input now line)
    then obtain g' q where r: "readin now line (gr \<sigma>) = Some (g', q)" "gr \<sigma>' = g'"
      using h(1) by (auto simp: handle_def input_def)
    have "grapher_ok (gr \<sigma>)" "line_fits now line (gr \<sigma>)" "curtime (gr \<sigma>) \<le> 1860"
      using assms Input by (auto simp: session_inv_def session_ok_def deliverable_def)
    then show ?thesis using readin_display [OF _ _ r(1) _ refl r(2)] Input by (simp add: spec_step_def)
  next
    case Timer
    have t: "curtime (gr \<sigma>) < 1860" "session_ok (scr \<sigma>) (gr \<sigma>)" "scales_fit (scr \<sigma>) (gr \<sigma>)"
      using assms Timer by (auto simp: session_inv_def deliverable_def)
    obtain s' cs go where "tick (scr \<sigma>) (gr \<sigma>) = Some (s', (gr \<sigma>)\<lparr>curtime := curtime (gr \<sigma>) + 1\<rparr>, cs, go)"
      using redraw_tick [OF t(2,1,3)] by blast
    then have "gr \<sigma>' = (gr \<sigma>)\<lparr>curtime := curtime (gr \<sigma>) + 1\<rparr>" using h(1) Timer by (simp add: handle_def) fastforce
    moreover have "unat (curtime (gr \<sigma>)) < 1860" using t(1) by (simp add: word_less_nat_alt)
    then have "unat (curtime (gr \<sigma>) + 1) = unat (curtime (gr \<sigma>)) + 1"
      by (subst unat_add_lem [THEN iffD1]) auto
    ultimately show ?thesis using Timer by (simp add: spec_step_def display_of_def Let_def cong: if_cong)
  next
    case (Resize gp w h')
    then have "gr \<sigma>' = gr \<sigma>" using h(1) by (auto simp: handle_def)
    then show ?thesis using Resize display_same [of \<sigma>' \<sigma>] by (simp add: spec_step_def)
  qed
  then show ?thesis using h by blast
qed

interpretation loop: simulation session_inv deliverable "handle clock" display_of spec_step for clock
  by unfold_locales (rule handle_display)

text \<open>The numbers of systems and windows do not change.\<close>

interpretation shape: simulation session_inv deliverable "handle clock"
  "\<lambda>\<sigma>. (nsys (gr \<sigma>), length (wins (gr \<sigma>)))" "\<lambda>e s. s" for clock
  by unfold_locales (rule handle_shape)

lemma run_shape:
  assumes "fold_opt (handle clock) es \<sigma> = Some \<sigma>'" and "session_inv \<sigma>" and "loop.allowed clock es \<sigma>"
  shows "nsys (gr \<sigma>') = nsys (gr \<sigma>)" and "length (wins (gr \<sigma>')) = length (wins (gr \<sigma>))"
proof -
  have "fold (\<lambda>e s. s) es x = x" for x :: "int \<times> nat" by (induction es) auto
  then show "nsys (gr \<sigma>') = nsys (gr \<sigma>)" "length (wins (gr \<sigma>')) = length (wins (gr \<sigma>))"
    using shape.run_implements [OF assms(2,3)] assms(1) by auto
qed

section \<open>Lemmas: what the lines of a session add up to\<close>

fun lines_of :: "gui_event list \<Rightarrow> string list" where
  "lines_of [] = []"
| "lines_of (e # es) = (case e of Input now (Some l) \<Rightarrow> l # lines_of es | _ \<Rightarrow> lines_of es)"

text \<open>The time that becomes the origin: that of the first input.\<close>

fun first_input :: "gui_event list \<Rightarrow> int" where
  "first_input [] = 0"
| "first_input (e # es) = (case e of Input now line \<Rightarrow> now | _ \<Rightarrow> first_input es)"

fun ticks_in :: "gui_event list \<Rightarrow> nat" where
  "ticks_in [] = 0"
| "ticks_in (e # es) = (case e of Timer \<Rightarrow> ticks_in es + 1 | _ \<Rightarrow> ticks_in es)"

definition origin_in :: "display \<Rightarrow> gui_event list \<Rightarrow> int" where
  "origin_in d es = (case origin d of None \<Rightarrow> first_input es | Some t \<Rightarrow> t)"

definition point_share :: "int \<Rightarrow> nat \<Rightarrow> int \<Rightarrow> int \<Rightarrow> bool \<Rightarrow> point \<Rightarrow> u64" where
  "point_share t0 k t i e p = (if int k = flow p \<and> t = tsec p - t0 \<and> i = who p - 1 \<and> e = encapped p then incr p else 0)"

lemma lines_add_up:
  "elapsed d + ticks_in es < 1860 \<Longrightarrow> map (parse_line (origin_in d es)) (lines_of es) = map Some ps \<Longrightarrow>
    total (fold spec_step es d) k t i e = total d k t i e + (\<Sum>p\<leftarrow>ps. point_share (origin_in d es) k t i e p)"
proof (induction es arbitrary: d ps)
  case (Cons ev es)
  show ?case
  proof (cases ev)
    case (Input now line)
    let ?t0 = "origin_in d (ev # es)" and ?d = "see_line now line d"
    have t0: "(case origin d of None \<Rightarrow> now | Some t \<Rightarrow> t) = ?t0"
      by (simp add: origin_in_def Input split: option.split)
    have el: "elapsed d < 1860" using Cons.prems(1) by (simp add: Input)
    have d: "?d = (case line of None \<Rightarrow> d\<lparr>origin := Some ?t0\<rparr>
        | Some l \<Rightarrow> (case parse_line ?t0 l of None \<Rightarrow> d\<lparr>origin := Some ?t0\<rparr> | Some p \<Rightarrow> add_point ?t0 p (d\<lparr>origin := Some ?t0\<rparr>)))"
      using el by (simp add: see_line_def t0 Let_def split: option.split)
    then have o: "origin_in ?d es = ?t0" "elapsed ?d = elapsed d"
      by (simp_all add: origin_in_def add_point_def split: option.split)
    have step: "fold spec_step (ev # es) d = fold spec_step es ?d" by (simp add: Input spec_step_def)
    show ?thesis
    proof (cases line)
      case None
      then have "total ?d k t i e = total d k t i e" "lines_of (ev # es) = lines_of es" using d by (simp_all add: Input)
      then show ?thesis using Cons.IH [of ?d ps] Cons.prems unfolding step o by (simp add: Input)
    next
      case (Some l)
      then obtain p qs where ps: "ps = p # qs" "parse_line ?t0 l = Some p" "map (parse_line ?t0) (lines_of es) = map Some qs"
        using Cons.prems(2) by (cases ps) (auto simp: Input)
      have "total ?d k t i e = total d k t i e + point_share ?t0 k t i e p"
        using d ps(2) by (simp add: Some add_point_def point_share_def)
      then show ?thesis using Cons.IH [of ?d qs] Cons.prems(1) ps(3) unfolding step o ps(1) by (simp add: Input)
    qed
  qed (use Cons in \<open>simp_all add: spec_step_def origin_in_def cong: option.case_cong\<close>)
qed simp

section \<open>Properties\<close>

text \<open>The main loop implements the specification: after any sequence of deliverable events -
  buttons, close boxes, lines, ticks and resizes in any order - the windows that are shown, the
  samples at every place of the arrays, the time and its origin are what the specification
  gives for the same events, and no event was undefined.\<close>

theorem main_loop_implements_display:
  assumes "initial s g file junk t = Some \<sigma>0" and "session_ok s g" and "\<not> started g" and "curtime g = 0"
    and "loop.allowed clock es \<sigma>0"
  shows "\<exists>\<sigma>. fold_opt (handle clock) es \<sigma>0 = Some \<sigma> \<and> display_of \<sigma> = fold spec_step es (display_of \<sigma>0)"
  using loop.run_implements [OF initial_inv [OF assms(1-4)] assms(5)] by blast

section \<open>Witnesses\<close>

theorem main_loop_implements_display_witness:
  "\<exists>\<sigma>0 \<sigma>. initial pic_screen pic_grapher None no_geometry None = Some \<sigma>0 \<and>
    fold_opt (handle (\<lambda>_. ''00:00'')) [Press 2] \<sigma>0 = Some \<sigma> \<and> open_wins (display_of \<sigma>) = {2}"
proof -
  obtain \<sigma>0 where i: "initial pic_screen pic_grapher None no_geometry None = Some \<sigma>0" "gr \<sigma>0 = pic_grapher" "\<not> quit \<sigma>0"
    using pic_initial by blast
  have "deliverable (Press 2) \<sigma>0" using i(2,3) by (simp add: deliverable_def pic_grapher_simps)
  then have "loop.allowed (\<lambda>_. ''00:00'') [Press 2] \<sigma>0" by (simp split: option.split)
  then obtain \<sigma> where r: "fold_opt (handle (\<lambda>_. ''00:00'')) [Press 2] \<sigma>0 = Some \<sigma>"
    "display_of \<sigma> = fold spec_step [Press 2] (display_of \<sigma>0)"
    using main_loop_implements_display [OF i(1) pic_session] pic_grapher_simps(4,5) by blast
  have "open_wins (display_of \<sigma>0) = {}" by (simp add: display_of_def Let_def i(2)) (simp add: pic_grapher_def)
  then have "open_wins (display_of \<sigma>) = {2}" by (simp add: r(2) spec_step_def)
  then show ?thesis using i(1) r(1) by blast
qed

end
