(* ===== verification/Graphconf.thy ===== *)
theory Graphconf
  imports CLib
begin

text \<open>
  The start of \<open>mwmg.c\<close>: the command line, and the configuration file that names the
  windows and gives them colours. \<open>chdir\<close>, the colour functions of GDK and the
  allocations are parameters. Options that \<open>gtk_init\<close> takes are gone when the loop runs.
\<close>

unbundle bit_operations_syntax

section \<open>The command line\<close>

record goptions =
  o_nsys :: int
  o_cfg :: string
  o_gauge :: u8
  o_interval :: int
  o_requests :: bool
  o_showwins :: u32
  o_tag :: "string option"
  o_bad :: bool

definition default_goptions :: goptions where
  "default_goptions = \<lparr>o_nsys = 20, o_cfg = ''mwmg.conf'', o_gauge = 0, o_interval = 1,
     o_requests = False, o_showwins = 0, o_tag = None, o_bad = False\<rparr>"

text \<open>\<open>strtol\<close> with base 0: hexadecimal behind \<open>0x\<close>, octal behind \<open>0\<close>, else decimal.\<close>

definition digit_of :: "char \<Rightarrow> nat option" where
  "digit_of c = (let n = of_char c in
     if 48 \<le> n \<and> n \<le> 57 then Some (n - 48)
     else if 97 \<le> n \<and> n \<le> 102 then Some (n - 87)
     else if 65 \<le> n \<and> n \<le> 70 then Some (n - 55) else None)"

definition in_base :: "nat \<Rightarrow> char \<Rightarrow> bool" where
  "in_base b c = (case digit_of c of None \<Rightarrow> False | Some d \<Rightarrow> d < b)"

definition base_value :: "nat \<Rightarrow> string \<Rightarrow> nat" where
  "base_value b s = foldl (\<lambda>a c. b * a + the (digit_of c)) 0 (takeWhile (in_base b) s)"

definition strtol0 :: "string \<Rightarrow> int" where
  "strtol0 s = (case sign_split s of (neg, t) \<Rightarrow>
     let v = int (if length t > 2 \<and> hd t = CHR ''0'' \<and> (t ! 1 = CHR ''x'' \<or> t ! 1 = CHR ''X'') \<and> in_base 16 (t ! 2)
                  then base_value 16 (drop 2 t)
                  else if t \<noteq> [] \<and> hd t = CHR ''0'' then base_value 8 t else base_value 10 t)
     in max (- (2 ^ 63)) (min (2 ^ 63 - 1) (if neg then - v else v)))"

text \<open>An option's value: the rest of the word, or else the next word.\<close>

definition take_value :: "string \<Rightarrow> string list \<Rightarrow> (string \<times> string list) option" where
  "take_value a as = (if length a > 2 then Some (drop 2 a, as)
     else (case as of b # bs \<Rightarrow> Some (b, bs) | [] \<Rightarrow> None))"

definition gbad :: "goptions \<Rightarrow> goptions" where
  "gbad opts = opts\<lparr>o_bad := True\<rparr>"

definition set_nsys :: "string option \<Rightarrow> goptions \<Rightarrow> goptions" where
  "set_nsys v opts = (let n = (case v of None \<Rightarrow> 0 | Some s \<Rightarrow> atoi s); opts1 = opts\<lparr>o_nsys := n\<rparr>
     in if n = 0 then gbad opts1 else opts1)"

definition set_ginterval :: "string option \<Rightarrow> goptions \<Rightarrow> goptions" where
  "set_ginterval v opts = (let n = (case v of None \<Rightarrow> 0 | Some s \<Rightarrow> atoi s); opts1 = opts\<lparr>o_interval := n\<rparr>
     in if n \<le> 0 then gbad opts1 else opts1)"

definition set_units :: "string option \<Rightarrow> goptions \<Rightarrow> goptions" where
  "set_units v opts = (case v of None \<Rightarrow> gbad opts | Some s \<Rightarrow>
     if s \<noteq> ''bits'' \<and> s \<noteq> ''reqs'' \<and> s \<noteq> ''requests'' then gbad opts
     else if s \<noteq> ''bits'' then opts\<lparr>o_requests := True\<rparr> else opts)"

text \<open>
  \<open>-w\<close> looks for a digit behind the letter, and then in the next word, but converts the
  word the index has arrived at, which in the first case is the option itself.
\<close>

definition set_wins :: "string \<Rightarrow> string list \<Rightarrow> goptions \<Rightarrow> goptions \<times> string list" where
  "set_wins a as opts = (if length a > 2 \<and> is_digit (a ! 2)
     then (opts\<lparr>o_showwins := word_of_int (strtol0 a)\<rparr>, as)
     else (case as of b # bs \<Rightarrow> (if b \<noteq> [] \<and> is_digit (hd b)
             then (opts\<lparr>o_showwins := word_of_int (strtol0 b)\<rparr>, bs) else (gbad opts, bs))
       | [] \<Rightarrow> (gbad opts, [])))"

text \<open>One option with what is left of the line behind it.\<close>

definition set_option ::
  "(string \<Rightarrow> bool) \<Rightarrow> string \<Rightarrow> string list \<Rightarrow> goptions \<Rightarrow> goptions \<times> string list" where
  "set_option chdir_ok a as opts =
    (let c = a ! 1; v = map_option fst (take_value a as);
         rest = (case take_value a as of None \<Rightarrow> [] | Some (_, r) \<Rightarrow> r)
     in if c = CHR ''n'' then (set_nsys v opts, rest)
        else if c = CHR ''d'' then (case v of None \<Rightarrow> gbad opts
               | Some d \<Rightarrow> if chdir_ok d then opts else gbad opts, rest)
        else if c = CHR ''c'' then (case v of None \<Rightarrow> gbad opts | Some f \<Rightarrow> opts\<lparr>o_cfg := f\<rparr>, rest)
        else if c = CHR ''g'' then (opts\<lparr>o_gauge := o_gauge opts + 1\<rparr>, as)
        else if c = CHR ''i'' then (set_ginterval v opts, rest)
        else if c = CHR ''u'' then (set_units v opts, rest)
        else if c = CHR ''w'' then set_wins a as opts
        else if c = CHR ''t'' then (case v of None \<Rightarrow> gbad opts | Some t \<Rightarrow> opts\<lparr>o_tag := Some t\<rparr>, rest)
        else (opts, as))"

lemma set_option_rest: "length (snd (set_option ok a as opts)) \<le> length as"
  by (auto simp: set_option_def take_value_def set_wins_def Let_def split: list.splits)

function mwmg_args :: "(string \<Rightarrow> bool) \<Rightarrow> string list \<Rightarrow> goptions \<Rightarrow> goptions" where
  "mwmg_args ok [] opts = opts"
| "mwmg_args ok (a # as) opts = (if o_bad opts then opts
     else if length a \<ge> 2 \<and> hd a = CHR ''-''
     then mwmg_args ok (snd (set_option ok a as opts)) (fst (set_option ok a as opts))
     else mwmg_args ok as opts)"
  by pat_completeness auto
termination
  by (relation "measure (\<lambda>(ok, as, opts). length as)") (auto simp: le_imp_less_Suc set_option_rest)

section \<open>The configuration file\<close>

record 'c gwin =
  gname :: string
  col0 :: 'c
  col1 :: 'c

text \<open>
  \<open>parse\<close> is \<open>gdk_color_parse\<close>; what cannot be parsed or allocated is only reported, so
  the outcome of the allocation of a colour does not matter. The windows before
  \<open>W_USER\<close> have fixed names; \<open>black\<close> and \<open>dark\<close> are the colours the code sets.
\<close>

record 'c conf_env =
  parse_color :: "string \<Rightarrow> 'c option"
  zero_color :: 'c
  black :: 'c
  dark :: 'c

definition fixed_wins :: "'c conf_env \<Rightarrow> 'c gwin list" where
  "fixed_wins env = [\<lparr>gname = ''Memory Utilization'', col0 = zero_color env, col1 = zero_color env\<rparr>,
     \<lparr>gname = ''Processor Utilization'', col0 = zero_color env, col1 = zero_color env\<rparr>,
     \<lparr>gname = ''Delay'', col0 = zero_color env, col1 = zero_color env\<rparr>,
     \<lparr>gname = ''Aggregate'', col0 = black env, col1 = zero_color env\<rparr>,
     \<lparr>gname = ''Unknown'', col0 = black env, col1 = dark env\<rparr>]"

definition set_col :: "'c conf_env \<Rightarrow> nat \<Rightarrow> bool \<Rightarrow> string \<Rightarrow> 'c gwin list \<Rightarrow> 'c gwin list" where
  "set_col env focus relay s ws = (case parse_color env s of None \<Rightarrow> ws
     | Some c \<Rightarrow> ws[focus := (if relay then (ws ! focus)\<lparr>col1 := c\<rparr> else (ws ! focus)\<lparr>col0 := c\<rparr>)])"

text \<open>One line; the error is the exit status. \<open>mem\<close> is whether the array can grow.\<close>

definition conf_line :: "'c conf_env \<Rightarrow> bool \<Rightarrow> string \<Rightarrow> 'c gwin list \<Rightarrow> int + 'c gwin list" where
  "conf_line env mem raw ws =
    (let l0 = (case split_last (CHR 0x0A) raw of None \<Rightarrow> raw | Some (a, _) \<Rightarrow> a);
         l = cut_at (CHR '';'') l0
     in if l \<noteq> [] \<and> hd l = CHR ''['' then
          (if \<not> mem then Inl 5
           else (case split_last (CHR '']'') l of None \<Rightarrow> Inl 6
             | Some (a, _) \<Rightarrow> Inr (ws @ [\<lparr>gname = tl a, col0 = zero_color env, col1 = zero_color env\<rparr>])))
        else if strncmp_eq ''Memory='' l then Inr (set_col env 0 False (drop 7 l) ws)
        else if strncmp_eq ''Processor='' l then Inr (set_col env 1 False (drop 10 l) ws)
        else if strncmp_eq ''Delay='' l then Inr (set_col env 2 False (drop 6 l) ws)
        else if strncmp_eq ''Color='' l then Inr (set_col env (length ws - 1) False (drop 6 l) ws)
        else if strncmp_eq ''Relay='' l then Inr (set_col env (length ws - 1) True (drop 6 l) ws)
        else Inr ws)"

function load_graph ::
  "'c conf_env \<Rightarrow> (nat \<Rightarrow> bool) \<Rightarrow> nat \<Rightarrow> string \<Rightarrow> 'c gwin list \<Rightarrow> int + 'c gwin list" where
  "load_graph env mem k f ws = (case fgets 255 f of None \<Rightarrow> Inr ws
     | Some (l, r) \<Rightarrow> (case conf_line env (mem k) l ws of Inl rv \<Rightarrow> Inl rv
         | Inr ws' \<Rightarrow> load_graph env mem (k + 1) r ws'))"
  by pat_completeness auto
termination
  by (relation "measure (\<lambda>(env, mem, k, f, ws). length f)") (auto dest: fgets_shrinks)

declare load_graph.simps [simp del]

section \<open>Lemmas\<close>

lemma digit_of_digit: "is_digit c \<Longrightarrow> digit_of c = Some (digit_val c) \<and> digit_val c < 10"
  by (auto simp: is_digit_def digit_of_def digit_val_def Let_def)

lemma base_value_10:
  assumes "\<forall>c \<in> set s. is_digit c"
  shows "base_value 10 s = dec_value s"
proof -
  have t: "takeWhile (in_base 10) s = s"
    using assms digit_of_digit by (subst takeWhile_eq_all_conv) (auto simp: in_base_def)
  have "foldl (\<lambda>a c. 10 * a + the (digit_of c)) n s = foldl (\<lambda>a c. 10 * a + digit_val c) n s" for n
    using assms digit_of_digit by (induction s arbitrary: n) auto
  then show ?thesis by (simp add: base_value_def dec_value_def t)
qed

lemma hd_show_nat_pos: "0 < n \<Longrightarrow> hd (show_nat n) \<noteq> CHR ''0''"
proof (induction n rule: show_nat.induct)
  case (1 n)
  show ?case
  proof (cases "n < 10")
    case True
    then have "digit_val (digit_char n) = n" using dec_value_show_nat [of n]
      by (simp add: show_nat.simps [of n] dec_value_def)
    then show ?thesis using True 1(2) by (auto simp: show_nat.simps [of n] digit_val_def)
  next
    case False
    then show ?thesis using 1 by (subst show_nat.simps) (auto simp: hd_append)
  qed
qed

lemma strtol0_show_nat:
  assumes "0 < n" and "n < 2 ^ 63"
  shows "strtol0 (show_nat n) = int n"
  using assms hd_show_nat_pos [OF assms(1)] base_value_10 [of "show_nat n"] show_nat_digits [of n]
  by (simp add: strtol0_def sign_split_digit Let_def)

lemma strtol0_option: "strtol0 (CHR ''-'' # CHR ''w'' # s) = 0"
  by (simp add: strtol0_def sign_split_def is_space_def base_value_def in_base_def digit_of_def Let_def)

lemma args_accept:
  "(o_bad opts \<or> o_nsys opts \<noteq> 0 \<and> 0 < o_interval opts) \<Longrightarrow>
   o_bad (mwmg_args ok as opts) \<or> o_nsys (mwmg_args ok as opts) \<noteq> 0 \<and> 0 < o_interval (mwmg_args ok as opts)"
proof (induction ok as opts rule: mwmg_args.induct)
  case (1 ok opts)
  then show ?case by simp
next
  case (2 ok a as opts)
  have "o_bad (fst (set_option ok a as opts)) \<or>
      o_nsys (fst (set_option ok a as opts)) \<noteq> 0 \<and> 0 < o_interval (fst (set_option ok a as opts))"
    using 2(3) by (auto simp: set_option_def set_nsys_def set_ginterval_def set_units_def set_wins_def
        gbad_def Let_def split: option.splits list.splits)
  with 2 show ?case by auto
qed

section \<open>Properties\<close>

text \<open>A command line that is accepted gives a number of systems that is not zero and an
  interval of at least one second; a negative number of systems is accepted.\<close>

theorem accepted_graph_options:
  assumes "\<not> o_bad (mwmg_args ok as default_goptions)"
  shows "o_nsys (mwmg_args ok as default_goptions) \<noteq> 0 \<and>
    0 < o_interval (mwmg_args ok as default_goptions) \<and>
    \<not> o_bad (mwmg_args ok [''-n'', ''-5''] default_goptions) \<and>
    o_nsys (mwmg_args ok [''-n'', ''-5''] default_goptions) = - 5"
proof -
  have "atoi ''-5'' = - 5" by code_simp
  then show ?thesis
    using assms args_accept [of default_goptions ok as]
    by (simp add: default_goptions_def set_option_def take_value_def set_nsys_def Let_def)
qed

text \<open>\<open>-w\<close> with its number in the next word selects the windows of that number; with the
  number behind the letter it selects none, because the option itself is converted.\<close>

theorem attached_window_set_is_lost:
  assumes "0 < n" and "n < 2 ^ 31"
  shows "mwmg_args ok [''-w'', show_nat n] default_goptions = default_goptions\<lparr>o_showwins := of_nat n\<rparr> \<and>
    mwmg_args ok [''-w'' @ show_nat n] default_goptions = default_goptions"
proof -
  obtain c cs where c: "show_nat n = c # cs" "is_digit c"
    using hd_show_nat [of n] by (cases "show_nat n") auto
  have "strtol0 (show_nat n) = int n" using assms by (intro strtol0_show_nat) auto
  then show ?thesis
    using c strtol0_option
    by (simp add: default_goptions_def set_option_def set_wins_def Let_def)
qed

text \<open>The lines of a window: its section and its two colours.\<close>

definition section_lines :: "string \<times> string \<times> string \<Rightarrow> string" where
  "section_lines = (\<lambda>(nm, c, r). ''['' @ nm @ '']'' @ [CHR 0x0A] @ ''Color='' @ c @ [CHR 0x0A] @
     ''Relay='' @ r @ [CHR 0x0A])"

definition plain :: "string \<Rightarrow> bool" where
  "plain s \<longleftrightarrow> CHR 0x0A \<notin> set s \<and> CHR 0x00 \<notin> set s \<and> CHR '';'' \<notin> set s \<and> length s \<le> 240"

lemma split_last_append [simp]: "c \<notin> set b \<Longrightarrow> split_last c (a @ c # b) = Some (a, b)"
  by (simp add: split_last_def)

lemma cut_plain: "CHR '';'' \<notin> set s \<Longrightarrow> cut_at (CHR '';'') s = s"
  by (rule cut_at_id) simp

lemma conf_line_section:
  "plain nm \<Longrightarrow> conf_line env True (''['' @ nm @ '']'' @ [CHR 0x0A]) ws =
     Inr (ws @ [\<lparr>gname = nm, col0 = zero_color env, col1 = zero_color env\<rparr>])"
  using split_last_append [of "CHR 0x0A" "[]" "''['' @ nm @ '']''"]
    split_last_append [of "CHR '']''" "[]" "''['' @ nm"]
  by (simp add: conf_line_def plain_def cut_plain Let_def)

lemma conf_line_color:
  "plain c \<Longrightarrow> conf_line env True (''Color='' @ c @ [CHR 0x0A]) ws = Inr (set_col env (length ws - 1) False c ws)"
  "plain c \<Longrightarrow> conf_line env True (''Relay='' @ c @ [CHR 0x0A]) ws = Inr (set_col env (length ws - 1) True c ws)"
  using split_last_append [of "CHR 0x0A" "[]" "''Color='' @ c"] split_last_append [of "CHR 0x0A" "[]" "''Relay='' @ c"]
  by (simp_all add: conf_line_def plain_def cut_plain Let_def strncmp_eq_def)

lemma fgets_plain:
  "plain s \<Longrightarrow> length p \<le> 8 \<Longrightarrow> CHR 0x0A \<notin> set p \<Longrightarrow> CHR 0x00 \<notin> set p \<Longrightarrow>
   fgets 255 (p @ s @ CHR 0x0A # r) = Some (p @ s @ [CHR 0x0A], r)"
  using fgets_line [of "p @ s" 255 r] by (simp add: plain_def)

lemma load_graph_section:
  assumes "plain nm" "plain c" "plain r" and "parse_color env c = Some vc" "parse_color env r = Some vr"
  shows "load_graph env (\<lambda>_. True) k (section_lines (nm, c, r) @ rest) ws =
    load_graph env (\<lambda>_. True) (k + 3) rest (ws @ [\<lparr>gname = nm, col0 = vc, col1 = vr\<rparr>])"
proof -
  have 1: "fgets 255 (''['' @ nm @ '']'' @ CHR 0x0A # t) = Some (''['' @ nm @ '']'' @ [CHR 0x0A], t)" for t
    using fgets_line [of "''['' @ nm @ '']''" 255 t] assms(1) by (simp add: plain_def)
  have 2: "fgets 255 (''Color='' @ c @ CHR 0x0A # t) = Some (''Color='' @ c @ [CHR 0x0A], t)" for t
    using assms(2) by (intro fgets_plain) auto
  have 3: "fgets 255 (''Relay='' @ r @ CHR 0x0A # t) = Some (''Relay='' @ r @ [CHR 0x0A], t)" for t
    using assms(3) by (intro fgets_plain) auto
  let ?c = "''Color='' @ c @ CHR 0x0A # ''Relay='' @ r @ CHR 0x0A # rest"
  have "load_graph env (\<lambda>_. True) k (''['' @ nm @ '']'' @ CHR 0x0A # ?c) ws =
      load_graph env (\<lambda>_. True) (k + 1) ?c (ws @ [\<lparr>gname = nm, col0 = zero_color env, col1 = zero_color env\<rparr>])"
    using 1 [of ?c] conf_line_section [OF assms(1), of env ws] by (subst load_graph.simps) simp
  also have "\<dots> = load_graph env (\<lambda>_. True) (k + 2) (''Relay='' @ r @ CHR 0x0A # rest)
      (ws @ [\<lparr>gname = nm, col0 = vc, col1 = zero_color env\<rparr>])"
    using 2 conf_line_color(1) [OF assms(2), of env] assms(4)
    by (subst load_graph.simps) (simp add: set_col_def)
  also have "\<dots> = load_graph env (\<lambda>_. True) (k + 3) rest (ws @ [\<lparr>gname = nm, col0 = vc, col1 = vr\<rparr>])"
    using 3 conf_line_color(2) [OF assms(3), of env] assms(5)
    by (subst load_graph.simps) (simp add: set_col_def numeral_3_eq_3)
  finally show ?thesis by (simp add: section_lines_def)
qed

text \<open>C39: a configuration of sections, each with its two colours, gives the fixed windows and then
  one window per section, in the order of the file and with its name and colours: the
  window \<open>W_USER + n - 1\<close> a flow number \<open>n\<close> is drawn in is the n-th section.\<close>

theorem configuration_loaded:
  assumes "\<forall>(nm, c, r) \<in> set ss. plain nm \<and> plain c \<and> plain r \<and>
    parse_color env c \<noteq> None \<and> parse_color env r \<noteq> None"
  shows "load_graph env (\<lambda>_. True) 0 (concat (map section_lines ss)) (fixed_wins env) =
    Inr (fixed_wins env @ map (\<lambda>(nm, c, r). \<lparr>gname = nm, col0 = the (parse_color env c),
      col1 = the (parse_color env r)\<rparr>) ss)"
proof -
  have "load_graph env (\<lambda>_. True) k (concat (map section_lines ss)) ws =
    Inr (ws @ map (\<lambda>(nm, c, r). \<lparr>gname = nm, col0 = the (parse_color env c),
      col1 = the (parse_color env r)\<rparr>) ss)" for k ws
    using assms
  proof (induction ss arbitrary: k ws)
    case Nil
    then show ?case by (subst load_graph.simps) (simp add: fgets_nil)
  next
    case (Cons s ss)
    obtain nm c r where s: "s = (nm, c, r)" by (cases s) auto
    with Cons.prems have p: "plain nm" "plain c" "plain r" and
      col: "parse_color env c \<noteq> None" "parse_color env r \<noteq> None" by auto
    then obtain vc vr where v: "parse_color env c = Some vc" "parse_color env r = Some vr" by auto
    have "\<forall>(nm, c, r) \<in> set ss. plain nm \<and> plain c \<and> plain r \<and>
        parse_color env c \<noteq> None \<and> parse_color env r \<noteq> None" using Cons.prems by auto
    then show ?case
      using load_graph_section [OF p v, of k "concat (map section_lines ss)" ws] v
      by (simp add: s Cons.IH)
  qed
  then show ?thesis .
qed

text \<open>A section without its closing bracket ends the program with status 6, whatever follows.\<close>

theorem unclosed_section_rejected:
  assumes "plain nm" and "CHR '']'' \<notin> set nm"
  shows "load_graph env (\<lambda>_. True) k (''['' @ nm @ CHR 0x0A # rest) ws = Inl 6"
proof -
  have "split_last (CHR '']'') (''['' @ nm) = None"
    using assms(2) by (simp add: split_last_def)
  then have "conf_line env True (''['' @ nm @ [CHR 0x0A]) ws = Inl 6"
    using assms(1) split_last_append [of "CHR 0x0A" "[]" "''['' @ nm"]
    by (simp add: conf_line_def plain_def cut_plain Let_def)
  then show ?thesis
    using fgets_plain [OF assms(1), of "''[''" rest] by (subst load_graph.simps) simp
qed

section \<open>Witnesses\<close>

definition sample_colors :: "nat conf_env" where
  "sample_colors = \<lparr>parse_color = (\<lambda>s. if s = ''red'' then Some 1 else if s = ''blue'' then Some 2 else None),
     zero_color = 0, black = 0, dark = 3\<rparr>"

theorem accepted_graph_options_witness:
  "o_nsys (mwmg_args (\<lambda>_. True) [''-n'', ''7'', ''-g''] default_goptions) \<noteq> 0"
proof -
  have "\<not> o_bad (mwmg_args (\<lambda>_. True) [''-n'', ''7'', ''-g''] default_goptions)" by code_simp
  then show ?thesis using accepted_graph_options [of "\<lambda>_. True" "[''-n'', ''7'', ''-g'']"] by blast
qed

theorem attached_window_set_is_lost_witness:
  "o_showwins (mwmg_args (\<lambda>_. True) [''-w'' @ show_nat 24] default_goptions) = 0 \<and>
   o_showwins (mwmg_args (\<lambda>_. True) [''-w'', show_nat 24] default_goptions) = 24"
  using attached_window_set_is_lost [of 24 "\<lambda>_. True"] by (simp add: default_goptions_def)

theorem configuration_loaded_witness:
  "load_graph sample_colors (\<lambda>_. True) 0 (concat (map section_lines [(''Voice'', ''red'', ''blue'')]))
     (fixed_wins sample_colors) =
   Inr (fixed_wins sample_colors @ [\<lparr>gname = ''Voice'', col0 = 1, col1 = 2\<rparr>])"
  using configuration_loaded [of "[(''Voice'', ''red'', ''blue'')]" sample_colors]
  by (simp add: plain_def sample_colors_def)

theorem unclosed_section_rejected_witness:
  "load_graph sample_colors (\<lambda>_. True) 0 (''['' @ ''Voice'' @ CHR 0x0A # ''Color=red'') [] = Inl 6"
  by (rule unclosed_section_rejected) (simp_all add: plain_def)

end
