(* ===== verification/Start.thy ===== *)
theory Start
  imports Display Graphconf
begin

text \<open>
  \<open>main\<close> of \<open>mwmg.c\<close> from the command line to the main loop: the options, the fixed windows,
  the configuration file, the times and the selector. With it the specification of
  \<open>Display\<close> holds of the program from its start.
\<close>

section \<open>main\<close>

text \<open>
  What \<open>main\<close> takes from its surroundings: whether \<open>chdir\<close>, the first allocation and the two
  allocations of colours succeed; the files; the font; the sizes GTK gives an area before it
  is shown; the time; and how it was built. Read errors and the other allocations are assumed to succeed.
\<close>

record 'c main_env =
  can_chdir :: "string \<Rightarrow> bool"
  can_alloc :: bool
  can_grow :: "nat \<Rightarrow> bool"
  dark_ok :: bool
  gray_ok :: bool
  colours :: "'c conf_env"
  open_file :: "string \<Rightarrow> string option"
  char_width :: int
  ascent :: int
  descent :: int
  measure_text :: "string \<Rightarrow> int"
  measure_height :: "string \<Rightarrow> int"
  unit_height :: "unit_label \<Rightarrow> int"
  unshown :: "nat \<Rightarrow> int"
  started_at :: int
  local_time :: "int \<Rightarrow> string"
  stack_junk :: Winpos.geometry
  debug_build :: bool
  run_forever :: bool

definition main_screen :: "'c main_env \<Rightarrow> goptions \<Rightarrow> nat \<Rightarrow> screen" where
  "main_screen env opts n = (let cw = char_width env; ch = ascent env + descent env + 1 in
     \<lparr>cwidth = cw, cheight = ch, text_width = measure_text env, text_height = measure_height env,
      label_height = unit_height env, gauge = (o_gauge opts \<noteq> 0), interval = o_interval opts,
      requests = o_requests opts, whens = fill_whens (local_time env) (started_at env),
      views = replicate n \<lparr>aw = unshown env, ah = unshown env, rm = (\<lambda>_. 1 + ch), sperpx = 1, maxes = (\<lambda>_. 0)\<rparr>\<rparr>)"

definition main_grapher :: "'c main_env \<Rightarrow> goptions \<Rightarrow> 'c gwin list \<Rightarrow> grapher" where
  "main_grapher env opts gs = \<lparr>wins = map (\<lambda>(k, g). \<lparr>samps = fresh_samps (debug_build env) (o_nsys opts) k, wname = gname g\<rparr>) (enumerate 0 gs),
     nsys = o_nsys opts, curtime = 0, start = started_at env, started = False, showwins = o_showwins opts,
     debugging = debug_build env, forever = run_forever env\<rparr>"

definition WINPOS :: string where "WINPOS = ''.mwmg.winprops''"

text \<open>The exit status, or the session as it enters the loop; None is undefined behaviour.\<close>

definition mwmg_main :: "'c main_env \<Rightarrow> string list \<Rightarrow> (int + session) option" where
  "mwmg_main env args = (let opts = mwmg_args (can_chdir env) args default_goptions in
     if o_bad opts then Some (Inl 1)
     else if \<not> can_alloc env then Some (Inl 3)
     else if \<not> dark_ok env then Some (Inl 5)
     else if \<not> gray_ok env then Some (Inl 4)
     else (case open_file env (o_cfg opts) of None \<Rightarrow> Some (Inl 2)
     | Some f \<Rightarrow> (case load_graph (colours env) (can_grow env) 0 f (fixed_wins (colours env)) of
         Inl rc \<Rightarrow> Some (Inl rc)
       | Inr gs \<Rightarrow> map_option Inr (initial (main_screen env opts (length gs)) (main_grapher env opts gs)
           (open_file env WINPOS) (stack_junk env) (o_tag opts)))))"

section \<open>Lemmas\<close>

lemma conf_line_grows: "conf_line env mem l ws = Inr ws' \<Longrightarrow> length ws \<le> length ws'"
  by (auto simp: conf_line_def set_col_def Let_def split: if_splits option.splits)

lemma load_graph_grows: "load_graph env mem k f ws = Inr ws' \<Longrightarrow> length ws \<le> length ws'"
proof (induction env mem k f ws rule: load_graph.induct)
  case (1 env mem k f ws)
  show ?case
  proof (cases "fgets 255 f")
    case None
    then show ?thesis using 1(2) by (simp add: load_graph.simps [of env mem k f])
  next
    case (Some lr)
    then obtain l r where f: "fgets 255 f = Some (l, r)" by (cases lr) auto
    with 1(2) obtain ws1 where w: "conf_line env (mem k) l ws = Inr ws1" "load_graph env mem (k + 1) r ws1 = Inr ws'"
      by (auto simp: load_graph.simps [of env mem k f] split: sum.splits)
    show ?thesis using 1(1) [OF f refl w] conf_line_grows [OF w(1)] by simp
  qed
qed

lemma main_session:
  assumes "mwmg_main env args = Some (Inr \<sigma>)"
  obtains gs where "5 \<le> length gs" and "\<not> o_bad (mwmg_args (can_chdir env) args default_goptions)"
    and "initial (main_screen env (mwmg_args (can_chdir env) args default_goptions) (length gs))
      (main_grapher env (mwmg_args (can_chdir env) args default_goptions) gs)
      (open_file env WINPOS) (stack_junk env) (o_tag (mwmg_args (can_chdir env) args default_goptions)) = Some \<sigma>"
proof -
  let ?o = "mwmg_args (can_chdir env) args default_goptions"
  from assms have b: "\<not> o_bad ?o"
    by (auto simp: mwmg_main_def Let_def split: if_splits)
  with assms obtain f where f: "open_file env (o_cfg ?o) = Some f"
    by (auto simp: mwmg_main_def Let_def split: if_splits option.splits)
  with b assms obtain gs where gs: "load_graph (colours env) (can_grow env) 0 f (fixed_wins (colours env)) = Inr gs"
    by (cases "load_graph (colours env) (can_grow env) 0 f (fixed_wins (colours env))")
      (auto simp: mwmg_main_def Let_def split: if_splits)
  have i: "initial (main_screen env ?o (length gs)) (main_grapher env ?o gs)
      (open_file env WINPOS) (stack_junk env) (o_tag ?o) = Some \<sigma>"
    using assms b f gs by (auto simp: mwmg_main_def Let_def split: if_splits)
  have "length (fixed_wins (colours env)) = 5" by (simp add: fixed_wins_def)
  then have "5 \<le> length gs" using load_graph_grows [OF gs] by simp
  from that [OF this b i] show thesis .
qed

lemma main_session_ok:
  assumes "5 \<le> length gs" "length gs \<le> 32" and "0 \<le> o_nsys opts" "o_nsys opts < 100000"
    and "o_gauge opts \<noteq> 0 \<or> o_interval opts = 1"
  shows "session_ok (main_screen env opts (length gs)) (main_grapher env opts gs)"
  using assms
  by (auto simp: session_ok_def main_screen_def main_grapher_def grapher_ok_def fresh_samps_def falloc_def W_USER_def per_tick_def Let_def)

lemma initial_gr: "initial s g file junk t = Some \<sigma> \<Longrightarrow> gr \<sigma> = g"
  by (auto simp: initial_def)

text \<open>What the display starts with.\<close>

definition fresh_total :: "'c main_env \<Rightarrow> goptions \<Rightarrow> nat \<Rightarrow> nat \<Rightarrow> int \<Rightarrow> int \<Rightarrow> bool \<Rightarrow> u64" where
  "fresh_total env opts n k t i e = (if k < n \<and> 0 \<le> t \<and> t < DEFTLEN \<and> 0 \<le> i \<and> i < o_nsys opts
     then untouched (debug_build env) k else 0)"

lemma mwmg_run:
  assumes "mwmg_main env args = Some (Inr \<sigma>0)"
    and "opts = mwmg_args (can_chdir env) args default_goptions"
    and "0 \<le> o_nsys opts" "o_nsys opts < 100000" and "o_gauge opts \<noteq> 0 \<or> o_interval opts = 1"
    and "length (wins (gr \<sigma>0)) \<le> 32" and "loop.allowed clock es \<sigma>0"
  shows "nsys (gr \<sigma>0) = o_nsys opts" and "display_of \<sigma>0 =
    \<lparr>open_wins = {i. i < length (wins (gr \<sigma>0)) \<and> bit (o_showwins opts) i}, total = fresh_total env opts (length (wins (gr \<sigma>0))),
     elapsed = 0, origin = None\<rparr>"
    and "\<exists>\<sigma>. fold_opt (handle clock) es \<sigma>0 = Some \<sigma> \<and> display_of \<sigma> = fold spec_step es (display_of \<sigma>0) \<and>
      nsys (gr \<sigma>) = nsys (gr \<sigma>0) \<and> length (wins (gr \<sigma>)) = length (wins (gr \<sigma>0))"
proof -
  obtain gs where gs: "5 \<le> length gs" and i: "initial (main_screen env opts (length gs)) (main_grapher env opts gs)
      (open_file env WINPOS) (stack_junk env) (o_tag opts) = Some \<sigma>0"
    using main_session [OF assms(1)] unfolding assms(2) by blast
  have g: "gr \<sigma>0 = main_grapher env opts gs" by (rule initial_gr [OF i])
  then show "nsys (gr \<sigma>0) = o_nsys opts" by (simp add: main_grapher_def)
  have "length gs \<le> 32" using g assms(6) by (simp add: main_grapher_def)
  then have ok: "session_ok (main_screen env opts (length gs)) (main_grapher env opts gs)"
    using gs assms(3-5) by (intro main_session_ok)
  have "\<not> started (main_grapher env opts gs)" "curtime (main_grapher env opts gs) = 0"
    by (simp_all add: main_grapher_def)
  then have inv: "session_inv \<sigma>0" by (rule initial_inv [OF i ok])
  from loop.run_implements [OF inv assms(7)]
  show "\<exists>\<sigma>. fold_opt (handle clock) es \<sigma>0 = Some \<sigma> \<and> display_of \<sigma> = fold spec_step es (display_of \<sigma>0) \<and>
      nsys (gr \<sigma>) = nsys (gr \<sigma>0) \<and> length (wins (gr \<sigma>)) = length (wins (gr \<sigma>0))"
    using run_shape [OF _ inv assms(7)] by blast
  have "sample (wins (gr \<sigma>0)) (int k) (cell (nsys (gr \<sigma>0)) t i e) = untouched (debug_build env) k"
    if "k < length (wins (gr \<sigma>0))" "0 \<le> t" "t < DEFTLEN" "0 \<le> i" "i < nsys (gr \<sigma>0)" for k t i e
    using that cell_bound [of t i "nsys (gr \<sigma>0)" e]
    by (simp add: g main_grapher_def sample_def fresh_samps_def falloc_def nat_less_iff nth_enumerate_eq)
  then show "display_of \<sigma>0 = \<lparr>open_wins = {i. i < length (wins (gr \<sigma>0)) \<and> bit (o_showwins opts) i},
      total = fresh_total env opts (length (wins (gr \<sigma>0))), elapsed = 0, origin = None\<rparr>"
    by (auto simp: display_of_def fresh_total_def Let_def fun_eq_iff) (simp_all add: g main_grapher_def)
qed

text \<open>What is shown at a place that exists after a run.\<close>

lemma display_run_sample:
  assumes "display_of \<sigma> = fold spec_step es d" and "k < length (wins (gr \<sigma>))"
    and "0 \<le> t" "t < DEFTLEN" "0 \<le> i" "i < nsys (gr \<sigma>)"
  shows "sample (wins (gr \<sigma>)) (int k) (cell (nsys (gr \<sigma>)) t i e) = total (fold spec_step es d) k t i e"
  unfolding assms(1) [symmetric] using assms(2-) by (simp add: display_of_def Let_def)

section \<open>Properties\<close>

text \<open>C2: from its start the program does what the specification says: started with \<open>-g\<close> or an
  interval of one second, with up to 99999 systems and 32 windows, it begins with the windows
  of \<open>-w\<close> open and nothing counted (but the pattern a debugging build puts into the unused
  samples of the aggregate), and after any sequence of deliverable events - buttons,
  close boxes, lines, ticks and resizes in any order - the open windows, the value at every
  place, the time and its origin are those the specification gives, and nothing undefined
  has happened.\<close>

theorem mwmg_implements_display:
  assumes "mwmg_main env args = Some (Inr \<sigma>0)"
    and "opts = mwmg_args (can_chdir env) args default_goptions"
    and "0 \<le> o_nsys opts" "o_nsys opts < 100000" and "o_gauge opts \<noteq> 0 \<or> o_interval opts = 1"
    and "length (wins (gr \<sigma>0)) \<le> 32" and "loop.allowed clock es \<sigma>0"
  shows "\<exists>\<sigma>. fold_opt (handle clock) es \<sigma>0 = Some \<sigma> \<and> display_of \<sigma> = fold spec_step es
    \<lparr>open_wins = {i. i < length (wins (gr \<sigma>0)) \<and> bit (o_showwins opts) i}, total = fresh_total env opts (length (wins (gr \<sigma>0))),
     elapsed = 0, origin = None\<rparr>"
  using mwmg_run(2,3) [OF assms] by auto

section \<open>Witnesses\<close>

text \<open>A start without options, with an empty configuration file, no file of positions and the
  font of the sample screen.\<close>

definition sample_env :: "nat main_env" where
  "sample_env = \<lparr>can_chdir = (\<lambda>_. True), can_alloc = True, can_grow = (\<lambda>_. True), dark_ok = True, gray_ok = True,
     colours = \<lparr>parse_color = (\<lambda>_. None), zero_color = 0, black = 0, dark = 1\<rparr>,
     open_file = (\<lambda>n. if n = ''mwmg.conf'' then Some [] else None), char_width = 6, ascent = 10, descent = 2,
     measure_text = (\<lambda>t. 6 * int (length t)), measure_height = (\<lambda>_. 10), unit_height = (\<lambda>_. 10),
     unshown = (\<lambda>_. 1), started_at = 100, local_time = (\<lambda>_. ''00:00''), stack_junk = \<lparr>px = 0, py = 0, pw = 0, ph = 0\<rparr>,
     debug_build = True, run_forever = True\<rparr>"

lemma sample_env_build: "debug_build sample_env"
  by (simp add: sample_env_def)

abbreviation sample_start :: grapher where
  "sample_start \<equiv> main_grapher sample_env default_goptions (fixed_wins (colours sample_env))"

lemma sample_start_simps: "length (wins sample_start) = 5" "showwins sample_start = 0" "nsys sample_start = 20"
  "start sample_start = 100" "\<not> started sample_start" "curtime sample_start = 0"
  by (simp_all add: main_grapher_def fixed_wins_def default_goptions_def) (simp add: sample_env_def)

lemma sample_main_starts: "\<exists>\<sigma>0. mwmg_main sample_env [] = Some (Inr \<sigma>0) \<and> gr \<sigma>0 = sample_start \<and> \<not> quit \<sigma>0"
proof -
  let ?ws = "fixed_wins (colours sample_env)" and ?s = "main_screen sample_env default_goptions 5"
  have l: "load_graph (colours sample_env) (can_grow sample_env) 0 [] ?ws = Inr ?ws"
    by (simp add: load_graph.simps [of _ _ _ "[]"] fgets_nil)
  have e: "can_alloc sample_env" "dark_ok sample_env" "gray_ok sample_env" "open_file sample_env ''mwmg.conf'' = Some []"
    "open_file sample_env WINPOS = None" by (simp_all add: sample_env_def WINPOS_def)
  have d: "\<not> o_bad default_goptions" "o_cfg default_goptions = ''mwmg.conf''" "o_tag default_goptions = None"
    by (simp_all add: default_goptions_def)
  have "length ?ws = 5" by (simp add: fixed_wins_def)
  then have m: "mwmg_main sample_env [] = map_option Inr (initial ?s sample_start None (stack_junk sample_env) None)"
    by (simp add: mwmg_main_def e d l)
  obtain \<sigma>0 where "initial ?s sample_start None (stack_junk sample_env) None = Some \<sigma>0" "gr \<sigma>0 = sample_start" "\<not> quit \<sigma>0"
    using selector_rows [of sample_start ?s None "stack_junk sample_env" None]
    by (auto simp: initial_def sample_start_simps)
  then show ?thesis by (simp add: m)
qed

lemma sample_options: "0 \<le> o_nsys default_goptions" "o_nsys default_goptions < 100000"
    "o_gauge default_goptions \<noteq> 0 \<or> o_interval default_goptions = 1" "o_nsys default_goptions = 20"
    "o_showwins default_goptions = 0" "default_goptions = mwmg_args (can_chdir sample_env) [] default_goptions"
  by (simp_all add: default_goptions_def)

theorem mwmg_implements_display_witness:
  "\<exists>\<sigma>0 \<sigma>. mwmg_main sample_env [] = Some (Inr \<sigma>0) \<and>
    fold_opt (handle (\<lambda>_. ''00:00'')) [Press 2] \<sigma>0 = Some \<sigma> \<and> open_wins (display_of \<sigma>) = {2}"
proof -
  obtain \<sigma>0 where s: "mwmg_main sample_env [] = Some (Inr \<sigma>0)" "gr \<sigma>0 = sample_start" "\<not> quit \<sigma>0"
    using sample_main_starts by blast
  then have "deliverable (Press 2) \<sigma>0" by (simp add: deliverable_def sample_start_simps)
  then have a: "loop.allowed (\<lambda>_. ''00:00'') [Press 2] \<sigma>0" by (simp split: option.split)
  have "length (wins (gr \<sigma>0)) \<le> 32" using s(2) sample_start_simps by simp
  from mwmg_implements_display [OF s(1) sample_options(6,1-3) this a] show ?thesis
    using s(1) by (auto simp: spec_step_def sample_options(5))
qed

end
