(* ===== verification/Dump.thy ===== *)
theory Dump
  imports CLib Wire
begin

text \<open>
  The debugging output of the agent \<open>pcapper.c\<close>: \<open>dumppacket\<close>, a hex dump, and the printers
  of IP, UDP, TCP, ICMP and ARP headers, as the text they write. A packet is its bytes; a read
  behind its end is None. The numbers behind the names of \<open>ip\_icmp.h\<close> and \<open>if\_arp.h\<close> are
  those of the protocols.
\<close>

section \<open>dumppacket\<close>

definition hex_digit :: "bool \<Rightarrow> nat \<Rightarrow> char" where
  "hex_digit upper n = (if n < 10 then char_of (48 + n) else char_of ((if upper then 55 else 87) + n))"

text \<open>\<open>%2.2X\<close> and a blank\<close>

definition hex_cell :: "u8 \<Rightarrow> string" where
  "hex_cell b = [hex_digit True (unat b div 16), hex_digit True (unat b mod 16), CHR '' '']"

definition printable :: "u8 \<Rightarrow> char" where
  "printable b = (if 32 \<le> b \<and> b < 127 then char_of (unat b) else CHR ''.'')"

definition dump_row :: "bytes \<Rightarrow> string" where
  "dump_row r = concat (map hex_cell r) @ replicate (3 * (20 - length r)) (CHR '' '') @ map printable r @ [CHR 0x0A]"

function dumppacket :: "bytes \<Rightarrow> string" where
  "dumppacket pkt = (if pkt = [] then [] else dump_row (take 20 pkt) @ dumppacket (drop 20 pkt))"
  by pat_completeness auto
termination by (relation "measure length") auto

declare dumppacket.simps [simp del]

section \<open>Reading a header\<close>

definition get16 :: "endian \<Rightarrow> bytes \<Rightarrow> nat \<Rightarrow> u16" where
  "get16 e p j = load16 e (p ! j) (p ! (j + 1))"

definition get32 :: "endian \<Rightarrow> bytes \<Rightarrow> nat \<Rightarrow> u32" where
  "get32 e p j = load32 e (p ! j) (p ! (j + 1)) (p ! (j + 2)) (p ! (j + 3))"

text \<open>\<open>%x\<close>\<close>

function show_hex :: "nat \<Rightarrow> string" where
  "show_hex n = (if n < 16 then [hex_digit False n] else show_hex (n div 16) @ [hex_digit False (n mod 16)])"
  by pat_completeness auto
termination by (relation "measure id") auto

declare show_hex.simps [simp del]

definition line :: "string \<Rightarrow> string" where
  "line s = s @ [CHR 0x0A]"

definition name_in :: "(nat \<times> string) list \<Rightarrow> nat \<Rightarrow> string \<Rightarrow> string" where
  "name_in names n other = line (case map_of names n of Some s \<Rightarrow> s | None \<Rightarrow> other @ show_nat n)"

section \<open>The printers\<close>

text \<open>The transport header follows the 20 bytes of \<open>struct iphdr\<close>. Its ports are printed as they lie in memory.\<close>

definition do_udp :: "endian \<Rightarrow> bytes \<Rightarrow> string option" where
  "do_udp e p = (if length p < 26 then None else Some (
     line (''Source port: '' @ show_nat (unat (get16 e p 20))) @
     line (''Destination port: '' @ show_nat (unat (get16 e p 22))) @
     line (''Length: '' @ show_nat (unat (get16 e p 24)))))"

definition do_tcp :: "endian \<Rightarrow> bytes \<Rightarrow> string option" where
  "do_tcp e p = (if length p < 32 then None else Some (
     line (''Source port: '' @ show_nat (unat (get16 e p 20))) @
     line (''Destination port: '' @ show_nat (unat (get16 e p 22))) @
     line (''Sequence number: '' @ show_nat (unat (get32 e p 24))) @
     line (''Acknowledgement number: '' @ show_nat (unat (get32 e p 28)))))"

definition icmp_types :: "(nat \<times> string) list" where
  "icmp_types = [(0, ''Echo Reply''), (3, ''Destination Unreachable''), (4, ''Source Quench''), (5, ''Redirect''),
     (8, ''Echo Request''), (11, ''Time Exceeded''), (12, ''Parameter Problem''), (13, ''Timestamp Request''),
     (15, ''Information Request''), (16, ''Information Reply''), (17, ''Address Mask Request''),
     (18, ''Address Mask Reply''), (14, ''Timestamp Reply'')]"

definition unreach_codes :: "(nat \<times> string) list" where
  "unreach_codes = [(0, ''Network Unreachable''), (1, ''Host Unreachable''), (2, ''Protocol Unreachable''),
     (3, ''Port Unreachable''), (4, ''Fragmentation Needed''), (5, ''Source Route Failed''), (6, ''Network Unknown''),
     (7, ''Host Unknown''), (8, ''Host Isolated''), (9, ''Network ANO''), (10, ''Host ANO''),
     (11, ''Network Unreachable/TOS''), (12, ''Host Unreachable/TOS''), (13, ''Packet Filtered''),
     (14, ''Precedence Violation''), (15, ''Precedence Cut Off'')]"

definition redirect_codes :: "(nat \<times> string) list" where
  "redirect_codes = [(0, ''Network Redirect''), (1, ''Host Redirect''), (2, ''Network Redirect/TOS''),
     (3, ''Host Redirect/TOS'')]"

definition exceeded_codes :: "(nat \<times> string) list" where
  "exceeded_codes = [(0, ''TTL Count Exceeded''), (1, ''Frag Reasm Time Exceeded'')]"

definition do_icmp :: "bytes \<Rightarrow> string option" where
  "do_icmp p = (if length p < 22 then None else (let t = unat (p ! 20); c = unat (p ! 21) in Some (
     ''Type: '' @ name_in icmp_types t ''Unknown ICMP type '' @
     ''Code: '' @ (if t = 3 then name_in unreach_codes c ''Unknown Unreachable code ''
       else if t = 5 then name_in redirect_codes c ''Unknown Redirect code ''
       else if t = 11 then name_in exceeded_codes c ''Unknown Time Exceeded code ''
       else line (''Unknown code '' @ show_nat c)))))"

text \<open>\<open>inet\_ntoa\<close> of the four bytes at an offset\<close>

definition dotted :: "bytes \<Rightarrow> nat \<Rightarrow> string" where
  "dotted p j = show_nat (unat (p ! j)) @ ''.'' @ show_nat (unat (p ! (j + 1))) @ ''.'' @
     show_nat (unat (p ! (j + 2))) @ ''.'' @ show_nat (unat (p ! (j + 3)))"

definition dec_hex :: "nat \<Rightarrow> string" where
  "dec_hex n = show_nat n @ '' ('' @ show_hex n @ '')''"

definition doip :: "endian \<Rightarrow> bytes \<Rightarrow> string option" where
  "doip e p = (if length p < 20 then None else
     map_option (\<lambda>proto.
       line (''Version: '' @ show_nat (unat (p ! 0) div 16)) @
       line (''Header Length: '' @ show_nat (unat (p ! 0) mod 16)) @
       line (''TOS: '' @ show_hex (unat (p ! 1))) @
       line (''IP Packet Length: '' @ dec_hex (unat (ntohs e (get16 e p 2)))) @
       line (''Packet ID: '' @ show_hex (unat (get16 e p 4))) @
       line (''Fragment Offset: '' @ dec_hex (unat (get16 e p 6))) @
       line (''Inverted Fragment Offset: '' @ dec_hex (unat (ntohs e (get16 e p 6)))) @
       line (''TTL: '' @ dec_hex (unat (p ! 8))) @
       line (''Source address: '' @ dotted p 12) @
       line (''Destination address: '' @ dotted p 16) @
       ''Protocol: '' @ proto @ [CHR 0x0A])
     (if p ! 9 = 1 then map_option ((@) (line ''ICMP'')) (do_icmp p)
      else if p ! 9 = 6 then map_option ((@) (line ''TCP'')) (do_tcp e p)
      else if p ! 9 = 17 then map_option ((@) (line ''UDP'')) (do_udp e p)
      else Some (line (''Unknown protocol '' @ dec_hex (unat (p ! 9))))))"

text \<open>An ARP packet, behind the 14 bytes of the Ethernet header.\<close>

definition arp_opcodes :: "(nat \<times> string) list" where
  "arp_opcodes = [(1, ''ARP Request''), (2, ''ARP Reply''), (3, ''RARP Request''), (4, ''RARP Reply''),
     (8, ''InARP Request''), (9, ''InARP Reply''), (10, ''ATM ARP NAK'')]"

definition colons :: "bytes \<Rightarrow> nat \<Rightarrow> string" where
  "colons p j = show_hex (unat (p ! j)) @ concat (map (\<lambda>k. '':'' @ show_hex (unat (p ! (j + k)))) [1..<6])"

definition doarp :: "endian \<Rightarrow> bytes \<Rightarrow> string option" where
  "doarp e p = (if length p < 42 then None else Some (
     ''Opcode: '' @ line (case map_of arp_opcodes (unat (ntohs e (get16 e p 20))) of Some s \<Rightarrow> s | None \<Rightarrow> ''Unknown ARP opcode'') @
     (if get16 e p 14 \<noteq> htons e 1
      then line (''Not an Ethernet ARP, giving up - '' @ show_hex (unat (ntohs e (get16 e p 14))))
      else line (''Sender: '' @ dotted p 28 @ '' ('' @ colons p 22 @ '')'') @
        line (''Destination: '' @ dotted p 38 @ '' ('' @ colons p 32 @ '')''))))"

section \<open>Reading a dump back\<close>

definition undigit :: "char \<Rightarrow> nat" where
  "undigit c = (if of_char c < (58 :: nat) then of_char c - 48 else of_char c - 55)"

fun cells :: "string \<Rightarrow> bytes" where
  "cells (a # b # c # r) = (if a = CHR '' '' then [] else of_nat (16 * undigit a + undigit b) # cells r)"
| "cells _ = []"

function undump :: "string \<Rightarrow> bytes" where
  "undump t = (case split_first (CHR 0x0A) t of None \<Rightarrow> [] | Some (l, r) \<Rightarrow> cells (take 60 l) @ undump r)"
  by pat_completeness auto
termination by (relation "measure length") (auto dest: split_first_SomeD)

declare undump.simps [simp del]

lemma undigit_digit: "n < 16 \<Longrightarrow> undigit (hex_digit True n) = n"
  by (auto simp: undigit_def hex_digit_def)

lemma hex_digit_char: "n < 16 \<Longrightarrow> hex_digit True n \<noteq> CHR '' '' \<and> hex_digit True n \<noteq> CHR 0x0A"
proof -
  assume "n < 16"
  then have "of_char (hex_digit True n) = (if n < 10 then 48 + n else 55 + n)" by (simp add: hex_digit_def)
  then have "of_char (hex_digit True n) \<noteq> (32 :: nat)" "of_char (hex_digit True n) \<noteq> (10 :: nat)" by auto
  then show ?thesis by auto
qed

lemma nibbles: "unat (b :: u8) div 16 < 16" "unat b mod 16 < 16"
  using unsigned_less [of b, where ?'a = nat] by (auto simp: less_mult_imp_div_less)

lemma cells_blank: "\<forall>c \<in> set s. c = CHR '' '' \<Longrightarrow> cells s = []"
  by (induction s rule: cells.induct) simp_all

lemma cells_row: "cells (concat (map hex_cell r) @ replicate n (CHR '' '')) = r"
proof (induction r)
  case Nil
  show ?case by (simp add: cells_blank)
next
  case (Cons b r)
  have "of_nat (16 * (unat b div 16) + unat b mod 16) = b" by simp
  then show ?case using Cons hex_digit_char [OF nibbles(1) [of b]]
    by (simp add: hex_cell_def undigit_digit nibbles)
qed

lemma row_length: "length (concat (map hex_cell r)) = 3 * length r"
  by (induction r) (simp_all add: hex_cell_def)

lemma printable_char: "printable b \<noteq> CHR 0x0A"
proof -
  have "printable b \<noteq> CHR 0x0A" if "32 \<le> b" "b < 127"
  proof -
    have "32 \<le> unat b" "unat b < 127" using that by (simp_all add: word_le_nat_alt word_less_nat_alt)
    then have "of_char (char_of (unat b) :: char) \<noteq> (of_char (CHR 0x0A) :: nat)" by simp
    then have "char_of (unat b) \<noteq> CHR 0x0A" by (rule contrapos_nn) (erule arg_cong)
    then show ?thesis using that by (simp add: printable_def)
  qed
  then show ?thesis by (auto simp: printable_def)
qed

lemma undump_row: "length r \<le> 20 \<Longrightarrow> undump (dump_row r @ t) = r @ undump t"
proof -
  assume len: "length r \<le> 20"
  let ?hex = "concat (map hex_cell r) @ replicate (3 * (20 - length r)) (CHR '' '')"
  have "CHR 0x0A \<notin> set (hex_cell b)" for b
    using hex_digit_char [OF nibbles(1) [of b]] hex_digit_char [OF nibbles(2) [of b]] by (auto simp: hex_cell_def)
  then have "CHR 0x0A \<notin> set (?hex @ map printable r)"
    using printable_char by (auto simp: image_iff dest: sym)
  then have "split_first (CHR 0x0A) ((?hex @ map printable r) @ CHR 0x0A # t) = Some (?hex @ map printable r, t)"
    by (rule split_first_append)
  moreover have "take 60 (?hex @ map printable r) = ?hex" using len by (simp add: row_length)
  ultimately show ?thesis by (subst undump.simps) (simp add: dump_row_def cells_row)
qed

section \<open>Properties\<close>

text \<open>Nothing is lost in a hex dump: read back column by column, it gives the packet, whatever its
  length and bytes; the text column never breaks a line.\<close>

theorem dump_reads_back: "undump (dumppacket pkt) = pkt"
proof (induction pkt rule: dumppacket.induct)
  case (1 pkt)
  show ?case
  proof (cases "pkt = []")
    case True
    then show ?thesis by (simp add: dumppacket.simps undump.simps)
  next
    case False
    then show ?thesis using 1 by (subst dumppacket.simps) (simp add: undump_row)
  qed
qed

text \<open>The printers show a UDP or TCP port as it lies in memory: on a little-endian host, the
  port's two bytes swapped, port 80 as 20480, unless they are equal. The length of the packet
  itself, which goes through \<open>ntohs\<close>, is right on every host.\<close>

theorem ports_printed_swapped:
  assumes "length hdr = 20" and "length rest = 4"
  shows "do_udp e (hdr @ store16 Big port @ rest) =
      Some (line (''Source port: '' @ show_nat (unat (ntohs e port))) @
        line (''Destination port: '' @ show_nat (unat (get16 e rest 0))) @
        line (''Length: '' @ show_nat (unat (get16 e rest 2)))) \<and>
    (ntohs e port = port \<longleftrightarrow> e = Big \<or> byte_of 0 port = byte_of 1 port) \<and>
    unat (ntohs e (get16 e (store16 Big n16) 0)) = unat n16"
proof -
  have idx: "hdr @ store16 Big port @ rest = hdr @ byte_of 1 port # byte_of 0 port # rest" by simp
  have nth: "(hdr @ byte_of 1 port # byte_of 0 port # rest) ! (20 + n) =
      (byte_of 1 port # byte_of 0 port # rest) ! n" for n
    using assms(1) nth_append_length_plus [of hdr _ n] by simp
  have "get16 e (hdr @ store16 Big port @ rest) 20 = ntohs e port"
    unfolding get16_def idx using nth [of 0] nth [of 1] by (cases e) (simp_all add: wire_simps)
  moreover have "get16 e (hdr @ store16 Big port @ rest) 22 = get16 e rest 0"
    "get16 e (hdr @ store16 Big port @ rest) 24 = get16 e rest 2"
    unfolding get16_def idx using nth [of 2] nth [of 3] nth [of 4] nth [of 5] by (simp_all add: numeral_eq_Suc)
  moreover have "ntohs e port = port \<longleftrightarrow> e = Big \<or> byte_of 0 port = byte_of 1 port"
  proof (cases e)
    case Little
    have "join2 (byte_of 0 port) (byte_of 1 port) = port \<longleftrightarrow> byte_of 0 port = byte_of 1 port"
      using byte_of_join2 [of "byte_of 0 port" "byte_of 1 port"] join2_bytes [of port] by auto
    then show ?thesis using Little by simp
  qed simp
  moreover have "ntohs e (get16 e (store16 Big n16) 0) = n16"
    by (simp add: get16_def wire_simps)
  ultimately show ?thesis using assms by (simp add: do_udp_def)
qed

theorem ports_printed_swapped_witness:
  "\<exists>r. do_udp Little (replicate 20 0 @ store16 Big 80 @ replicate 4 0) =
    Some (line (''Source port: '' @ show_nat 20480) @ r)"
proof -
  have n: "unat (ntohs Little 80) = 20480" by (simp add: join2_def byte_of_def)
  note p = ports_printed_swapped [of "replicate 20 0" "replicate 4 0" Little 80 0, OF length_replicate length_replicate]
  show ?thesis by (rule exI, rule p [THEN conjunct1, unfolded n])
qed

end
