(* ===== verification/Lifecycle.thy ===== *)
theory Lifecycle
  imports Threads
begin

text \<open>
  The start of \<open>recollect.c\<close> and what its two threads do as seen from one agent: \<open>main\<close>
  reads the command line and the configuration and starts \<open>conner\<close>; from then on every step
  of either thread is a step of a small life cycle of at most one agent.
\<close>

section \<open>main up to its loop\<close>

definition CONFFILE :: string where "CONFFILE = ''collector.conf''"

fun collector_args :: "string \<Rightarrow> string list \<Rightarrow> int + string" where
  "collector_args cfg [] = Inr cfg"
| "collector_args cfg (a # as) = (if a = ''-c''
     then (case as of [] \<Rightarrow> Inl 1 | v # bs \<Rightarrow> collector_args v bs) else Inl 2)"

datatype collector_start = Exit int | Running collector "msg list"

text \<open>
  \<open>files\<close> is the file system, \<open>thread\<close> the result of \<open>pthread\_create\<close> and \<open>errno\<close> what it
  leaves; None is an abort of \<open>FD\_SET\<close>.
\<close>

definition collector_main ::
  "endian \<Rightarrow> (string \<Rightarrow> u32 option) \<Rightarrow> (nat \<Rightarrow> bool \<times> int) \<Rightarrow> (string \<Rightarrow> string option) \<Rightarrow> int \<Rightarrow> int \<Rightarrow>
    string list \<Rightarrow> collector_start option" where
  "collector_main e inet_aton env files thread errno args =
    (case collector_args CONFFILE args of Inl rc \<Rightarrow> Some (Exit rc)
     | Inr cfg \<Rightarrow> (case files cfg of None \<Rightarrow> Some (Exit 3)
        | Some f \<Rightarrow> map_option (\<lambda>(c, ms). if thread < 0 then Exit errno else Running c ms)
            (load_conf e inet_aton env 0 f collector_init)))"

section \<open>The life cycle of an agent\<close>

datatype phase = Pending | Connected | Replacing | Dropped

inductive phase_step :: "phase \<Rightarrow> phase \<Rightarrow> bool" where
  connect: "phase_step Pending Connected"
| fail: "phase_step Connected Replacing"
| again: "phase_step Replacing Pending"
| give_up: "phase_step Replacing Dropped"

inductive_simps phase_step_simps [simp]: "phase_step p q"

definition phase_of :: "world \<Rightarrow> nat \<Rightarrow> phase" where
  "phase_of w i = (if \<not> fd_ok (wsock w i) then Dropped
     else if replacing (mpc w) = Some i then Replacing
     else if fd_has (needconn (cl w)) i then Pending else Connected)"

section \<open>Lemmas: the descriptors of the configured agents\<close>

text \<open>Every socket of the configuration came from \<open>socket\<close>, each from a call of its own.\<close>

definition from_env :: "(nat \<Rightarrow> bool \<times> int) \<Rightarrow> nat \<Rightarrow> collector \<Rightarrow> bool" where
  "from_env env k c \<longleftrightarrow> distinct (map sock (sys c)) \<and> (\<forall>s \<in> set (sys c). 0 \<le> sock s \<and> (\<exists>j < k. sock s = snd (env j)))"

lemma addconn_from_env:
  assumes "addconn e at (fst (env k)) (snd (env k)) l c = Some (c', ms)" and "from_env env k c"
    and "\<forall>i j. snd (env i) = snd (env j) \<longrightarrow> 0 \<le> snd (env i) \<longrightarrow> i = j"
  shows "from_env env (k + 1) c'"
proof -
  have same: "from_env env (k + 1) c" using assms(2) by (auto simp: from_env_def) (metis less_SucI)
  consider "sys c' = sys c"
    | nm a p where "0 \<le> snd (env k)"
      "sys c' = sys c @ [\<lparr>name = take (NAMELEN - 1) nm, sin_addr = a, sin_port = htons e p, sock = snd (env k)\<rparr>]"
    using assms(1)
    by (auto simp: addconn_def add_flow_def add_agent_def Let_def split: option.splits if_splits bool.splits sum.splits prod.splits)
  then show ?thesis
  proof cases
    case 1
    then show ?thesis using same by (simp add: from_env_def)
  next
    case 2
    have "snd (env k) \<notin> sock ` set (sys c)"
    proof
      assume "snd (env k) \<in> sock ` set (sys c)"
      then obtain j where "j < k" "snd (env k) = snd (env j)" using assms(2) by (auto simp: from_env_def)
      then show False using assms(3) 2(1) by auto
    qed
    then show ?thesis using 2 same by (auto simp: from_env_def)
  qed
qed

lemma load_conf_from_env:
  "load_conf e at env k f c = Some (c', ms) \<Longrightarrow> from_env env k c \<Longrightarrow>
    \<forall>i j. snd (env i) = snd (env j) \<longrightarrow> 0 \<le> snd (env i) \<longrightarrow> i = j \<Longrightarrow> \<exists>n. from_env env n c'"
proof (induction e at env k f c arbitrary: c' ms rule: load_conf.induct)
  case (1 e at env k f c)
  show ?case
  proof (cases "fgets LINELEN f")
    case None
    with 1(2,3) show ?thesis by (auto simp: load_conf.simps [of e at env k f])
  next
    case (Some lr)
    then obtain l r where f: "fgets LINELEN f = Some (l, r)" by (cases lr) auto
    with 1(2) obtain c1 m1 m2 where c1: "addconn e at (fst (env k)) (snd (env k)) l c = Some (c1, m1)"
      and rest: "load_conf e at env (k + 1) r c1 = Some (c', m2)"
      by (auto simp: load_conf.simps [of e at env k f] split: option.splits)
    show ?thesis by (rule 1(1) [OF f refl c1 refl rest addconn_from_env [OF c1 1(3,4)] 1(4)])
  qed
qed

lemma main_coll_inv:
  assumes "collector_main e at env files thread err args = Some (Running c ms)"
    and "\<forall>i j. snd (env i) = snd (env j) \<longrightarrow> 0 \<le> snd (env i) \<longrightarrow> i = j"
    and "\<forall>i. snd (env i) < int FD_SETSIZE"
  shows "coll_inv None c"
proof -
  obtain f where l: "load_conf e at env 0 f collector_init = Some (c, ms)"
    using assms(1) by (auto simp: collector_main_def split: sum.splits option.splits if_splits)
  have "from_env env 0 collector_init" by (simp add: from_env_def collector_init_def)
  then obtain n where n: "from_env env n c" using load_conf_from_env [OF l _ assms(2)] by blast
  then have "\<forall>s \<in> set (sys c). fd_ok (sock s)" using assms(3) by (fastforce simp: from_env_def fd_ok_def)
  then show ?thesis using n load_conf_inv [OF l conf_inv_init]
    by (intro conf_inv_coll_inv) (auto simp: from_env_def)
qed

section \<open>Lemmas: steps and phases\<close>

lemma phase_unchanged:
  "cl w' = cl w \<Longrightarrow> replacing (mpc w') = replacing (mpc w) \<Longrightarrow> phase_of w' j = phase_of w j"
  by (simp add: phase_of_def)

lemma step_phases:
  assumes "thread_step w w'" and "world_inv w"
  shows "nsystems w' = nsystems w \<and> ((\<forall>j < nsystems w. phase_of w' j = phase_of w j) \<or>
    (\<exists>i < nsystems w. phase_step (phase_of w i) (phase_of w' i) \<and>
      (\<forall>j < nsystems w. j \<noteq> i \<longrightarrow> phase_of w' j = phase_of w j)))"
  using assms
proof (cases rule: thread_step.cases)
  case (mark fs i)
  then have need: "fd_has (needconn (cl w)) i" using assms(2) by (auto simp: world_inv_def cpc_inv_def)
  have inv: "coll_inv (replacing (mpc w)) (cl w)" using assms(2) by (simp add: world_inv_def)
  note D = coll_invD [OF inv]
  have i: "i < nsystems w" "fd_ok (wsock w i)" "replacing (mpc w) \<noteq> Some i" using D(4) [OF need] by auto
  have "phase_of w i = Pending" "phase_of w' i = Connected"
    using i need mark by (simp_all add: phase_of_def)
  moreover have "phase_of w' j = phase_of w j" if "j \<noteq> i" for j
    using that mark by (simp add: phase_of_def)
  ultimately show ?thesis using i(1) mark by auto
next
  case (drop_conn R i c)
  then have inv: "coll_inv None (cl w)" "mpc_inv (Pass R i) (cl w)"
    using assms(2) by (auto simp: world_inv_def)
  have i: "fd_ok (wsock w i)" "fd_has R (nat (wsock w i))"
    using drop_conn by (auto simp: FD_ISSET_def split: if_splits)
  have big: "fd_has (bigfs (cl w)) (nat (wsock w i))" using inv(2) i drop_conn by (auto simp: mpc_inv_def)
  note close = clobber_close_inv [OF inv(1) _ big]
  have c: "needconn c = needconn (cl w)" "sys c = sys (cl w)" using close drop_conn by auto
  have "\<not> fd_has (needconn (cl w)) i" using coll_invD(4) [OF inv(1), of i] big by auto
  then have "phase_of w i = Connected" "phase_of w' i = Replacing"
    using i drop_conn c by (simp_all add: phase_of_def)
  moreover have "phase_of w' j = phase_of w j" if "j \<noteq> i" for j
    using that drop_conn c by (simp add: phase_of_def)
  ultimately show ?thesis using drop_conn c by auto
next
  case (reopen R i fd rv c)
  then have inv: "coll_inv (Some i) (cl w)" using assms(2) by (simp add: world_inv_def)
  note new = clobber_open_inv [OF inv _ _ reopen(5)]
  have i: "i < nsystems w" "fd_ok (wsock w i)" using coll_invD(7) [OF inv refl] by auto
  have "phase_of w i = Replacing" "phase_of w' i = Pending"
    using i reopen new by (auto simp: phase_of_def)
  moreover have "phase_of w' j = phase_of w j" if "j \<noteq> i" for j
    using that reopen new by (simp add: phase_of_def)
  ultimately show ?thesis using reopen new i by auto
next
  case (lose R i rv c)
  then have inv: "coll_inv (Some i) (cl w)" using assms(2) by (simp add: world_inv_def)
  note new = clobber_lose_inv [OF inv lose(3)]
  have i: "i < nsystems w" "fd_ok (wsock w i)" using coll_invD(7) [OF inv refl] by auto
  have "phase_of w i = Replacing" "phase_of w' i = Dropped"
    using i lose new by (auto simp: phase_of_def fd_ok_def)
  moreover have "phase_of w' j = phase_of w j" if "j \<noteq> i" for j
    using that lose new by (simp add: phase_of_def)
  ultimately show ?thesis using lose new i by auto
qed (auto simp: phase_of_def sleep_after_def)

section \<open>Properties\<close>

text \<open>C8: the two threads implement the life cycle: whatever they do, in any interleaving, each of
  their steps either changes the phase of no agent or takes exactly one agent one step on:
  a pending agent is connected, a connected one fails, a failed one gets a new socket and is
  pending again, or gets none and is dropped, from where there is no way back.\<close>

theorem threads_implement_lifecycle:
  assumes "collector_main e at env files thread err args = Some (Running c ms)"
    and "\<forall>i j. snd (env i) = snd (env j) \<longrightarrow> 0 \<le> snd (env i) \<longrightarrow> i = j"
    and "\<forall>i. snd (env i) < int FD_SETSIZE"
    and "reachable c w" and "thread_step w w'"
  shows "((\<forall>j < nsystems w. phase_of w' j = phase_of w j) \<or>
      (\<exists>i < nsystems w. phase_step (phase_of w i) (phase_of w' i) \<and>
        (\<forall>j < nsystems w. j \<noteq> i \<longrightarrow> phase_of w' j = phase_of w j))) \<and>
    (\<forall>j < nsystems w. phase_of w j = Dropped \<longrightarrow> phase_of w' j = Dropped)"
proof -
  note s = step_phases [OF assms(5) reachable_inv [OF assms(4) main_coll_inv [OF assms(1-3)]]]
  moreover have "phase_of w' j = Dropped" if "j < nsystems w" "phase_of w j = Dropped" for j
    using s that by (metis phase.distinct(5,9,11) phase_step_simps)
  ultimately show ?thesis by blast
qed

text \<open>C28: every agent of the configuration starts out pending: when \<open>main\<close> enters its loop no agent
  is connected, replaced or dropped, each has a descriptor of its own, and the collector is
  in the state the two threads need.\<close>

theorem collector_starts_pending:
  assumes "collector_main e at env files thread err args = Some (Running c ms)"
    and "\<forall>i j. snd (env i) = snd (env j) \<longrightarrow> 0 \<le> snd (env i) \<longrightarrow> i = j"
    and "\<forall>i. snd (env i) < int FD_SETSIZE"
  shows "coll_inv None c \<and> (\<forall>w. reachable c w \<longrightarrow> world_inv w) \<and>
    (\<forall>i < length (sys c). phase_of \<lparr>cl = c, cpc = Snap, mpc = Poll, waiting = 0, alreadyfailed = False,
       signal = False\<rparr> i = Pending)"
proof -
  have inv: "coll_inv None c" by (rule main_coll_inv [OF assms])
  have "conf_inv c"
    using assms(1) load_conf_inv [OF _ conf_inv_init]
    by (auto simp: collector_main_def split: sum.splits option.splits if_splits)
  then have "fd_has (needconn c) i" if "i < length (sys c)" for i using that by (simp add: conf_inv_def)
  then show ?thesis using inv reachable_inv coll_invD(4) [OF inv] by (auto simp: phase_of_def)
qed

text \<open>A failure to start the connecting thread goes unnoticed: \<open>pthread\_create\<close> returns a positive
  number when it fails, and the code tests for a negative one, so \<open>main\<close> does
  the same as when the thread was started.\<close>

theorem failed_thread_unnoticed:
  assumes "0 \<le> thread"
  shows "collector_main e at env files thread err args = collector_main e at env files 0 err' args"
  using assms by (auto simp: collector_main_def not_less split: sum.split option.split)

section \<open>Witnesses\<close>

definition sample_env :: "nat \<Rightarrow> bool \<times> int" where
  "sample_env k = (True, if k = 0 then 3 else - 1)"

lemma sample_env_ok:
  "\<forall>i j. snd (sample_env i) = snd (sample_env j) \<longrightarrow> 0 \<le> snd (sample_env i) \<longrightarrow> i = j"
  "\<forall>i. snd (sample_env i) < int FD_SETSIZE"
  by (simp_all add: sample_env_def FD_SETSIZE_def)

lemma sample_main:
  "\<exists>c. collector_main Little (\<lambda>_. Some 7) sample_env (\<lambda>_. Some ''1:7:80'') 0 0 [] = Some (Running c []) \<and>
    length (sys c) = 1"
proof -
  have 1: "fgets LINELEN ''1:7:80'' = Some (''1:7:80'', [])"
    by (simp add: fgets_def LINELEN_def cut_at_def)
  have "strtok '':'' ''1:7:80'' = Some (''1'', ''7:80'')" "strtok '':'' ''7:80'' = Some (''7'', ''80'')"
    "strtok [CHR 0x0A] ''80'' = Some (''80'', [])" by (simp_all add: strtok_def)
  moreover have "atoi ''80'' = 80"
    by (rule atoi_small) (simp_all add: strtol10_def sign_split_def is_digit_def is_space_def dec_value_def digit_val_def)
  ultimately have 2: "parse_agent (\<lambda>_. Some 7) ''1:7:80'' = Some (''1'', 7, 80)"
    by (simp add: parse_agent_def)
  have "\<exists>c. addconn Little (\<lambda>_. Some 7) True 3 ''1:7:80'' collector_init = Some (c, []) \<and> length (sys c) = 1"
    by (simp add: addconn_def cut_at_def 2 split_first_def add_agent_def FD_SET_def collector_init_def fd_ok_def FD_SETSIZE_def)
  then show ?thesis using 1
    by (auto simp: collector_main_def sample_env_def load_conf.simps [of _ _ _ 0] load_conf.simps [of _ _ _ _ "[]"] fgets_nil)
qed

theorem collector_starts_pending_witness:
  "\<exists>c. collector_main Little (\<lambda>_. Some 7) sample_env (\<lambda>_. Some ''1:7:80'') 0 0 [] = Some (Running c []) \<and>
    length (sys c) = 1 \<and> coll_inv None c"
  using sample_main collector_starts_pending [OF _ sample_env_ok] by blast

theorem threads_implement_lifecycle_witness:
  "\<exists>c w w'. collector_main Little (\<lambda>_. Some 7) sample_env (\<lambda>_. Some ''1:7:80'') 0 0 [] = Some (Running c []) \<and>
    reachable c w \<and> thread_step w w' \<and> (\<forall>j < nsystems w. phase_of w j = Dropped \<longrightarrow> phase_of w' j = Dropped)"
proof -
  obtain c where c: "collector_main Little (\<lambda>_. Some 7) sample_env (\<lambda>_. Some ''1:7:80'') 0 0 [] = Some (Running c [])"
    using sample_main by blast
  let ?w = "\<lparr>cl = c, cpc = Snap, mpc = Poll, waiting = 0, alreadyfailed = False, signal = False\<rparr>"
  have s: "thread_step ?w (?w\<lparr>cpc := Scan (needconn c) 0\<rparr>)" using thread_step.snap [of ?w] by simp
  note r = reachable.start [of c]
  show ?thesis
    by (intro exI conjI, rule c, rule r, rule s)
      (rule threads_implement_lifecycle [OF c sample_env_ok r s, THEN conjunct2])
qed

theorem failed_thread_unnoticed_witness:
  "collector_main Little (\<lambda>_. Some 7) sample_env (\<lambda>_. Some ''1:7:80'') 11 0 [] =
    collector_main Little (\<lambda>_. Some 7) sample_env (\<lambda>_. Some ''1:7:80'') 0 0 []"
  by (rule failed_thread_unnoticed) simp

end
