(* ===== verification/Spec2Isabelle.thy ===== *)
theory Spec2Isabelle
  imports Protocol Filterspec Threads Linuxif Delay Axis Start Dump Lifecycle
begin

text \<open>
  A model of the traffic monitor in this repository and the theorems that make it correct.

  The program. On every node the agent \<open>pcapper\<close> (\<open>pcapper.c\<close>, with \<open>linuxif.c\<close> and
  \<open>ftfm.h\<close>) captures frames, logs each TCP or UDP packet and sends a packed record of 28
  bytes to the collectors connected to it; a second thread reports processor and memory use
  in the same record. The collector \<open>recollect\<close> (\<open>recollect.c\<close>) reads a file of flows and
  agents, keeps a connection to each agent in one thread, and in the other prints for each
  record one line per matching flow. The collector \<open>svcreqollect\<close> (\<open>svcreqollect.c\<close>)
  instead polls a JSON list of service requests and prints counts in the same line format.
  The grapher \<open>mwmg\<close> (\<open>mwmg.c\<close>, \<open>mwmg.h\<close>) reads those lines, adds their values to samples,
  one for each window, second, system and level, and draws them once a second: in each
  window a bar for every system above the history of the last 31 minutes. \<open>delay.c\<close> is a countdown used in start scripts.

  The theories, in the order the data flows:

  \<^item> \<open>Prelude\<close> and \<open>CLib\<close>: the collections of simplification rules, the word types, and
    the C library routines the sources call (\<open>strtok\<close>, \<open>strtol\<close>, \<open>atoi\<close>, \<open>fgets\<close> with its
    bound, \<open>printf\<close> conversions, \<open>timersub\<close>). Strings are lists of characters without the
    terminating zero; integers have the width of the source on a 64-bit Linux.
  \<^item> \<open>Wire\<close>: \<open>struct wire\<close>, stored and loaded at either byte order; the locale
    \<open>fixed_codec\<close> states the contract of a fixed-size codec over a byte stream.
  \<^item> \<open>Fdset\<close>: the descriptor sets of \<open>select\<close> as 1024-bit words. The macros used on a
    descriptor outside the set abort, which is the result None; the locale \<open>bounded_set\<close>
    is the interface \<open>Capture\<close>, \<open>Connect\<close> and \<open>Threads\<close> rely on.
  \<^item> \<open>Capture\<close>: \<open>blastpacket\<close>, \<open>logpkt\<close>, \<open>acceptor\<close>. \<open>Procstat\<close>: \<open>readmem\<close>, \<open>readstat\<close>,
    \<open>tvdiff\<close>, \<open>watchstat\<close>. \<open>Filterspec\<close>: the options, \<open>pcprintf\<close>, the filter text and the
    resources \<open>main\<close> acquires and releases. \<open>Linuxif\<close>: \<open>manhandle\<close> and its wrappers.
  \<^item> \<open>Flowconf\<close>: \<open>addconn\<close> and the reading of \<open>collector.conf\<close>. \<open>Collect\<close>: \<open>findflow\<close> and
    \<open>consume\<close>. \<open>Connect\<close>: \<open>clobber\<close> and one pass of the main loop, with the invariant on
    sockets, pending and connected agents. \<open>Threads\<close>: \<open>conner\<close> and the main loop as an
    interleaving of the critical sections of \<open>connlock\<close>. \<open>Lifecycle\<close>: \<open>main\<close> up to its loop,
    and the life cycle of an agent, which the interleaving implements.
  \<^item> \<open>Dump\<close>: the debugging output of \<open>pcapper.c\<close>, from \<open>dumppacket\<close> to \<open>doarp\<close>, as text.
  \<^item> \<open>Svcmaps\<close>: the port and host tables, whose lookups share the locale \<open>first_match\<close>, and
    \<open>curldata\<close>. \<open>Svcpoll\<close>: options, start-up, one turn of the polling loop and the wait.
  \<^item> \<open>Grapher\<close>: \<open>falloc\<close>, \<open>readin\<close>, \<open>toggle_event\<close>, \<open>update\<close>; the locale \<open>grid\<close> is what
    an index into the samples must satisfy. \<open>Graphconf\<close>: options and \<open>mwmg.conf\<close>.
    \<open>Winpos\<close>: the file of window positions, \<open>win_config\<close>, \<open>roundup\<close>. \<open>Delay\<close>: \<open>delay.c\<close>.
  \<^item> \<open>Double\<close>: the rounding of \<open>double\<close> on rationals. \<open>Screen\<close>: the geometry of a window, the
    calls to GDK as a datatype, \<open>drawymarks\<close>; \<open>Axis\<close>: what its labels say. \<open>Drawtop\<close>:
    \<open>update_top\<close>, \<open>update_multi_top\<close>. \<open>Drawbottom\<close>: \<open>update_bottom\<close>, \<open>update_multi_bottom\<close>.
    \<open>Redraw\<close>: \<open>blank\<close>, the redraw of \<open>update\<close>, \<open>configure_event\<close>, \<open>click_event\<close>.
  \<^item> \<open>Windows\<close>: \<open>create_win\<close>, \<open>create_selector\<close>, and the main loop as a step relation whose
    events are the handlers, with its invariant. \<open>Display\<close>: what the grapher promises,
    without windows, pixels and arrays, and the simulation (locale \<open>simulation\<close>) by which
    the main loop implements it. \<open>Start\<close>: \<open>main\<close>, up to the loop.
  \<^item> \<open>Protocol\<close>: the interface between the collectors and the grapher. The locale
    \<open>line_source\<close> asks of a program that each line it prints is read by \<open>parse_line\<close> as
    one point; in return the display shows the sum of the points. Both collectors are
    interpretations of it.
  \<^item> This theory: the properties that span programs. A frame captured on a node of one byte
    order is followed through the record, a collector of another byte order and the line
    to the sample it ends in, and so are the processor and memory reports; and the lines a
    collector prints are followed through a session of the grapher, from its command line
    through any interleaving of input, ticks, buttons and resizes.

  How code becomes definitions. Each C function is a function of the same name, from the
  state it reads to the state it leaves. Global variables are the fields of a record per
  program (\<open>agent\<close>, \<open>collector\<close>, \<open>grapher\<close>, \<open>screen\<close>, \<open>session\<close>). A drawing routine returns
  the list of its calls to GDK. What the system calls and the libraries return
  are arguments (and so are \<open>DEBUG\<close> and \<open>RUN_FOREVER\<close>, with which the Makefile builds the
  grapher), and their documented behaviour, where a property needs it, is a named
  hypothesis (\<open>flags_ioctl_ok\<close>, \<open>errno_ok\<close>). An access outside an array, a shift beyond the
  width of its type and an abort are None or a constructor of their own (\<open>Overread\<close>); exit
  statuses and error messages are values.

  What the lemmas show. For each parser: what it makes of every well-formed line or file,
  what it does with malformed ones, and the invariant of the tables it builds. For the
  record and the files written and read again: round trips. For the loops over agents: a
  refinement to the set of agents that fail, and invariants over all interleavings by rule
  induction. For the samples: that the index is in bounds and injective, so that a line
  changes one sample, and what happens outside the bounds the code does not check. For the
  drawing: that bars, stacks and columns stay inside their frames although the arithmetic
  is that of \<open>double\<close>, that the two passes over the history agree, and what the labels
  mean. For the windows: that no event is undefined, and that buttons, windows and the
  display follow the specification. Where
  the code does not do what it means to do, the property states what it does.

  Bounds and fuel. Loops that consume text, a list or a counter are total functions with
  their termination proofs, without fuel. Only the wait of \<open>svcreqollect\<close> (\<open>wait_loop\<close>)
  takes fuel, as it may run for ever; its properties hold for every amount of fuel, or say
  that no amount is enough. 32 flows bound the properties of \<open>findflow\<close>, because the code
  shifts an \<open>int\<close>; 1024 descriptors are \<open>FD_SETSIZE\<close>; \<open>roundup\<close> is on rationals and up to
  9e12, the range in which ten and more powers of ten suffice. A session takes 1860 ticks,
  the length of the samples, 32 windows, as \<open>showwins\<close> is an \<open>int\<close>, at most 99999 systems, as
  the buffer of a label has six characters, scales up to 4e9, as \<open>maxes\<close> is an
  \<open>unsigned int\<close>, and at most 45 seconds to a pixel, for the eleven times of the labels;
  \<open>double\<close> has no bound on the exponent, which the values of the grapher never reach.

  Not modelled: how widgets are packed, the pixmaps and cursors, \<open>expose_event\<close>, which copies
  a pixmap to a window, and the splash popup of \<open>mwmg.c\<close>, which no build enables; code under
  \<open>#if 0\<close> and under \<open>ENCAPS\<close>, which no build defines; the shutdown behind endless loops; the
  release of memory; the Perl and Python scripts. Messages to the standard error stream are left
  out except where they are the only effect.
\<close>

section \<open>From the wire to the display\<close>

lemma tag_ok_number [simp]: "tag_ok (show_nat n)"
  by (simp add: tag_ok_def)

lemma tag_ok_letter [simp]: "tag_ok ''X''" "tag_ok ''C''" "tag_ok ''M''"
  by (simp_all add: tag_ok_def)

text \<open>What a frame holds, in host numbers.\<close>

definition frame_port :: "bytes \<Rightarrow> u16" where
  "frame_port pkt = join2 (pkt ! 36) (pkt ! 37)"

definition frame_total :: "bytes \<Rightarrow> u16" where
  "frame_total pkt = join2 (pkt ! 16) (pkt ! 17)"

definition frame_flow :: "bytes \<Rightarrow> u32" where
  "frame_flow pkt = (let f = flow_bytes pkt (ihl_bytes pkt) in join4 (f ! 0) (f ! 1) (f ! 2) (f ! 3))"

lemma ntohl_bytes: "store32 e w = [a, b, c, d] \<Longrightarrow> ntohl e w = join4 a b c d"
proof -
  assume h: "store32 e w = [a, b, c, d]"
  have "store32 Big (ntohl e w) = store32 e w"
    using store32_htonl [of e "ntohl e w"] by simp
  then have b: "[byte_of 3 (ntohl e w), byte_of 2 (ntohl e w), byte_of 1 (ntohl e w), byte_of 0 (ntohl e w)]
      = [a, b, c, d]" using h by simp
  then have "join4 a b c d = join4 (byte_of 3 (ntohl e w)) (byte_of 2 (ntohl e w))
      (byte_of (Suc 0) (ntohl e w)) (byte_of 0 (ntohl e w))" by simp
  then show ?thesis by (simp add: join4_bytes)
qed

text \<open>The report as a collector of either byte order reads it.\<close>

lemma report_received:
  assumes "blast_parse e1 ts pkt = Report w" and "transfer e1 e2 w = Some w'"
  shows "ntohl e2 (sec w') = word_of_int (fst ts)" and "ntohl e2 (usec w') = word_of_int (snd ts)"
    and "ntohs e2 (dport w') = frame_port pkt" and "ntohs e2 (len w') = frame_total pkt"
    and "ntohl e2 (flowid w') = frame_flow pkt" and "wire.encapped w' = 0"
proof -
  from assms(1) have fill: "fill_wire e1 ts pkt (ihl_bytes pkt) (pkt ! 23) = Some w"
    by (rule blast_parse_ReportD)
  then obtain sa da sp dp tot where rds: "rd32 e1 pkt 26 = Some sa" "rd32 e1 pkt 30 = Some da"
    "rd16 e1 pkt 34 = Some sp" "rd16 e1 pkt 36 = Some dp" "rd16 e1 pkt 16 = Some tot"
    by (auto simp: fill_wire_def split: option.splits)
  have w: "w = \<lparr>sec = htonl e1 (word_of_int (fst ts)), usec = htonl e1 (word_of_int (snd ts)),
      saddr = sa, daddr = da, sport = sp, dport = dp, len = tot,
      flowid = mgen_flowid e1 pkt (ihl_bytes pkt) dp da, proto = pkt ! 23, encapped = 0\<rparr>"
    using fill rds by (simp add: fill_wire_def)
  have w': "w' = \<lparr>sec = htonl e2 (htonl e1 (sec w)), usec = htonl e2 (htonl e1 (usec w)),
      saddr = htonl e2 (htonl e1 (saddr w)), daddr = htonl e2 (htonl e1 (daddr w)),
      sport = htons e2 (htons e1 (sport w)), dport = htons e2 (htons e1 (dport w)),
      len = htons e2 (htons e1 (len w)), flowid = htonl e2 (htonl e1 (flowid w)),
      proto = proto w, encapped = wire.encapped w\<rparr>"
    using assms(2) by (simp add: transfer_eq)
  have dp: "ntohs e1 dp = frame_port pkt" and tot: "ntohs e1 tot = frame_total pkt"
    using rds by (auto simp: rd16_def frame_port_def frame_total_def wire_simps split: if_splits)
  have "length (flow_bytes pkt (ihl_bytes pkt)) = 4"
    by (auto simp: flow_bytes_def mgen_match_def bslice_def)
  then obtain a b c d where f: "flow_bytes pkt (ihl_bytes pkt) = [a, b, c, d]"
    by (auto simp: length_Suc_conv numeral_eq_Suc)
  have "store32 e1 (mgen_flowid e1 pkt (ihl_bytes pkt) dp da) = [a, b, c, d]"
    using mgen_flowid_bytes [OF rds(4) rds(2)] f by simp
  then have fl: "ntohl e1 (mgen_flowid e1 pkt (ihl_bytes pkt) dp da) = frame_flow pkt"
    by (simp add: ntohl_bytes frame_flow_def f)
  show "ntohl e2 (sec w') = word_of_int (fst ts)" "ntohl e2 (usec w') = word_of_int (snd ts)"
    "wire.encapped w' = 0" by (simp_all add: w' w)
  show "ntohs e2 (dport w') = frame_port pkt" by (simp add: w' w dp)
  show "ntohs e2 (len w') = frame_total pkt" by (simp add: w' w tot)
  show "ntohl e2 (flowid w') = frame_flow pkt" by (simp add: w' w fl)
qed

text \<open>The windows a packet is charged to, with the level.\<close>

definition packet_windows :: "Flowconf.flow list \<Rightarrow> u16 \<Rightarrow> u32 \<Rightarrow> (int \<times> bool) list" where
  "packet_windows fs p m = (case filter (flow_matches p m) fs of
     [] \<Rightarrow> [(W_OTHER, False)]
   | f # gs \<Rightarrow> (int (unat (id f)) + W_USER - 1, False) #
       map (\<lambda>g. (int (unat (id g)) + W_USER - 1, True)) gs)"

lemma parse_row:
  assumes "uint (ntohl e (sec w)) < 2 ^ 31" and "s0 \<le> uint (ntohl e (sec w))"
    and "0 < k" "k < 2 ^ 31" and "tag_ok f" and "v < 2 ^ 64"
  shows "parse_line s0 (row (stamp e w) (show_nat k) f v (lvl_text b)) =
    Some \<lparr>tsec = uint (ntohl e (sec w)), who = int k, flow = flow_window f, incr = of_nat v, encapped = b\<rparr>"
  using agents.read_back [of "\<lparr>al_end = e, al_wire = w, al_who = k, al_tag = f, al_val = v, al_lvl = b\<rparr>" s0]
    assms by (simp add: agent_good_def agent_emit_def agent_meaning_def)

lemma id_window: "flow_window (show_nat (unat (id f))) = int (unat (id f)) + W_USER - 1"
proof -
  have "unat (id f) < 2 ^ LENGTH(16)" by (rule unsigned_less)
  then show ?thesis by (intro flow_window_number) simp
qed

text \<open>C1: a captured TCP or UDP frame reaches the display unchanged, whatever the byte orders
  of agent and collector, when at most 32 flows are configured, the record is not taken for a
  processor or memory report, the capture second is within 31 bits and not before the start of the
  grapher, and the agent has a number from 1 below 2^31. The collector prints one line for each
  configured flow that selects bytes 36 and 37 of the frame as a port, or the flow id read from it
  (or one line of type \<open>X\<close>). The grapher reads each line as the capture second, the
  collector's number of the agent, the window of the flow, and eight times the total length. The two
  bytes are the destination port of a packet without IP options; behind options they are
  not.\<close>

theorem packet_reaches_display:
  assumes "blast_parse e1 (s, u) pkt = Report w" and "transfer e1 e2 w = Some w'"
    and "0 \<le> s" "s < 2 ^ 31" "s0 \<le> s" and "length fs \<le> 32"
    and no: "\<not> is_cpu_report e2 w'" "\<not> is_mem_report e2 w'" and "0 < k" "k < 2 ^ 31"
  shows "\<exists>rows. consume e2 fs (show_nat k) 28 w' prev = Some (0, rows, sec w') \<and>
    map (parse_line s0) rows = map (\<lambda>(f, en). Some \<lparr>tsec = s, who = int k, flow = f,
      incr = of_nat (unat (frame_total pkt) * 8), encapped = en\<rparr>)
      (packet_windows fs (frame_port pkt) (frame_flow pkt))"
proof -
  note rcv = report_received [OF assms(1,2)]
  have t: "uint (ntohl e2 (sec w')) = s"
    using assms(3,4) by (simp add: rcv(1) uint_word_of_int)
  have "unat (frame_total pkt) < 2 ^ LENGTH(16)" by (rule unsigned_less)
  then have v: "bits_of e2 w' < 2 ^ 64" "bits_of e2 w' = unat (frame_total pkt) * 8"
    by (simp_all add: bits_of_def rcv(4))
  have p: "parse_line s0 (row (stamp e2 w') (show_nat k) f (bits_of e2 w') (lvl_text b)) =
      Some \<lparr>tsec = s, who = int k, flow = flow_window f, incr = of_nat (unat (frame_total pkt) * 8),
        encapped = b\<rparr>" if "tag_ok f" for f b
    using parse_row [of e2 w' s0 k f "bits_of e2 w'" b] assms(4,5,9,10) that v t by simp
  note con = consume_rows [OF assms(6) no rcv(6), of "show_nat k" prev, unfolded rcv(3) rcv(5)]
  show ?thesis
    using con p [where b = False] p [where b = True]
    by (cases "filter (flow_matches (frame_port pkt) (frame_flow pkt)) fs")
      (simp_all add: packet_windows_def lvl_text_def id_window)
qed

lemma htonl_Little_small: "htonl Little 1 \<noteq> 1" "htonl Little 2 \<noteq> 2"
  by (simp_all add: join4_def byte_of_def)

lemma transfer_other: "e1 \<noteq> e2 \<Longrightarrow> htonl e2 (htonl e1 v) = htonl Little v"
  by (cases e1; cases e2) auto

text \<open>C23: a processor report is recognised as one only by a collector of the agent's own byte
  order, since its marker addresses are sent in host order; there it is printed as one
  line of type \<open>C\<close>, which the grapher reads into the processor window.\<close>

theorem cpu_report_chain:
  assumes "transfer e1 e2 (cpu_wire e1 (s, u) jk old new) = Some w'"
    and "0 \<le> s" "s < 2 ^ 31" "s0 \<le> s" and "0 < k" "k < 2 ^ 31"
  shows "(is_cpu_report e2 w' \<longleftrightarrow> e1 = e2) \<and>
    (e1 = e2 \<longrightarrow> (\<exists>r. consume e2 fs (show_nat k) 28 w' prev = Some (0, [r], sec w') \<and>
      parse_line s0 r = Some \<lparr>tsec = s, who = int k, flow = W_CPU,
        incr = of_nat (unat (ucast ((new ! S_TOT - old ! S_TOT) AND 0xFFFF) :: u16)), encapped = False\<rparr>))"
proof -
  let ?l = "ucast ((new ! S_TOT - old ! S_TOT) AND 0xFFFF) :: u16"
  have w': "w' = \<lparr>sec = htonl e2 (word_of_int s), usec = htonl e2 (word_of_int u),
      saddr = htonl e2 (htonl e1 1), daddr = htonl e2 (htonl e1 1), sport = htons e2 1, dport = htons e2 1,
      len = htons e2 ?l, flowid = htonl e2 FLOWID_CPU, proto = 61, encapped = jk\<rparr>"
    using assms(1) by (simp add: transfer_eq cpu_wire_def)
  have "htonl e2 (htonl e1 1) = 1 \<longleftrightarrow> e1 = e2"
    using htonl_Little_small(1) transfer_other [of e1 e2 1] by (cases "e1 = e2") simp_all
  then have iff: "is_cpu_report e2 w' \<longleftrightarrow> e1 = e2"
    by (simp add: is_cpu_report_def w')
  have t: "uint (ntohl e2 (sec w')) = s" using assms(2,3) by (simp add: w' uint_word_of_int)
  have "unat ?l < 2 ^ LENGTH(16)" by (rule unsigned_less)
  then have l: "unat ?l < 2 ^ 64" by simp
  have "consume e2 fs (show_nat k) 28 w' prev =
      Some (0, [row (stamp e2 w') (show_nat k) ''C'' (unat ?l) ''0''], sec w')" if "e1 = e2"
    using iff that by (simp add: consume_def short_read_iff message_rows_def) (simp add: w')
  moreover have "parse_line s0 (row (stamp e2 w') (show_nat k) ''C'' (unat ?l) ''0'') =
      Some \<lparr>tsec = s, who = int k, flow = W_CPU, incr = of_nat (unat ?l), encapped = False\<rparr>"
    using parse_row [of e2 w' s0 k "''C''" "unat ?l" False] assms(3-6) t l by (simp add: lvl_text_def)
  ultimately show ?thesis using iff by blast
qed

lemma mem_value_eq:
  assumes "ntohs e (len w) = ucast (drop_bit 8 (mem :: u64))" and "q = unat mem div 256 mod 2 ^ 16"
  shows "mem_value e w = (if q < 2 ^ 13 then Some (q * 2 ^ 18) else None)"
proof -
  have "unat (ntohs e (len w)) = take_bit 16 (drop_bit 8 (unat mem))"
    unfolding assms(1) by (rule bit_eqI) (auto simp: bit_simps dest: bit_imp_le_length)
  then have "unat (ntohs e (len w)) = q" by (simp add: assms(2) take_bit_eq_mod drop_bit_eq_div)
  then show ?thesis by (simp add: mem_value_def Let_def)
qed

text \<open>C22: the memory in use (\<open>mem\<close>, in kB), reported to a collector of the
  agent's own byte order with a time the grapher takes (31 bits, not before its start). Below 2 GiB
  it is displayed in bytes, rounded down to a multiple of 256 KiB. From 2 GiB up to 16 GiB the
  collector's multiplication overflows an \<open>int\<close>, which is undefined. The record holds
  16 bits of the memory in units of 256 KiB, so that at any multiple of 16 GiB none is
  displayed.\<close>

theorem memory_report_chain:
  assumes "transfer e e (mem_wire e mem w) = Some w'"
    and "ntohl e (sec w) = word_of_int s" "0 \<le> s" "s < 2 ^ 31" "s0 \<le> s" and "0 < k" "k < 2 ^ 31"
    and "q = unat mem div 256 mod 2 ^ 16"
  shows "(q < 2 ^ 13 \<longrightarrow> (\<exists>r. consume e fs (show_nat k) 28 w' prev = Some (0, [r], sec w') \<and>
      parse_line s0 r = Some \<lparr>tsec = s, who = int k, flow = W_MEM, incr = of_nat (q * 2 ^ 18), encapped = False\<rparr>)) \<and>
    (q \<ge> 2 ^ 13 \<longrightarrow> consume e fs (show_nat k) 28 w' prev = None) \<and>
    (unat mem < 2 ^ 21 \<longrightarrow> q < 2 ^ 13 \<and> q * 2 ^ 18 \<le> 1024 * unat mem \<and> 1024 * unat mem < q * 2 ^ 18 + 2 ^ 18) \<and>
    (2 ^ 21 \<le> unat mem \<and> unat mem < 2 ^ 24 \<longrightarrow> q \<ge> 2 ^ 13) \<and> (2 ^ 24 dvd unat mem \<longrightarrow> q = 0)"
proof (intro conjI impI)
  have w': "w' = mem_wire e mem w"
    using assms(1) by (cases w) (simp add: transfer_eq mem_wire_def)
  have rep: "\<not> is_cpu_report e w'" "is_mem_report e w'"
    by (simp_all add: w' mem_wire_def is_cpu_report_def is_mem_report_def)
  have v: "mem_value e w' = (if q < 2 ^ 13 then Some (q * 2 ^ 18) else None)"
    by (rule mem_value_eq [OF _ assms(8)]) (simp add: w' mem_wire_def)
  have t: "uint (ntohl e (sec w')) = s"
    using assms(2-4) by (simp add: w' mem_wire_def uint_word_of_int)
  have con: "consume e fs (show_nat k) 28 w' prev =
      map_option (\<lambda>v. (0, [row (stamp e w') (show_nat k) ''M'' v ''0''], sec w')) (mem_value e w')"
    using rep by (simp add: consume_def short_read_iff message_rows_def option.map_comp comp_def)
  show "\<exists>r. consume e fs (show_nat k) 28 w' prev = Some (0, [r], sec w') \<and>
      parse_line s0 r = Some \<lparr>tsec = s, who = int k, flow = W_MEM, incr = of_nat (q * 2 ^ 18), encapped = False\<rparr>"
    if "q < 2 ^ 13"
    using parse_row [of e w' s0 k "''M''" "q * 2 ^ 18" False] that assms(3-7) t con v by (simp add: lvl_text_def)
  show "consume e fs (show_nat k) 28 w' prev = None" if "q \<ge> 2 ^ 13" using con v that by simp
  have m: "unat mem = 256 * (unat mem div 256) + unat mem mod 256" "unat mem mod 256 < 256" by simp_all
  have small: "q = unat mem div 256" if "unat mem < 2 ^ 24"
    using that unfolding assms(8) by (intro mod_less) (simp add: less_mult_imp_div_less)
  show "q < 2 ^ 13" "q * 2 ^ 18 \<le> 1024 * unat mem" "1024 * unat mem < q * 2 ^ 18 + 2 ^ 18" if "unat mem < 2 ^ 21"
    using small m that by simp_all
  show "q \<ge> 2 ^ 13" if "2 ^ 21 \<le> unat mem \<and> unat mem < 2 ^ 24"
    using small div_le_mono [of "2 ^ 21" "unat mem" 256] that by simp
  show "q = 0" if "2 ^ 24 dvd unat mem"
  proof -
    from that obtain c where "unat mem = 2 ^ 24 * c" by (rule dvdE)
    then have "unat mem div 256 = c * 2 ^ 16" by simp
    then show ?thesis unfolding assms(8) by simp
  qed
qed

text \<open>What \<open>recollect\<close> prints is what the grapher sums: after any sequence of printed lines
  that lie on the display, every sample has grown by the sum of the values of the lines of
  its window, second, system and level, in whatever order they came.\<close>

theorem collected_lines_add_up:
  assumes "grapher_ok g" and "started g" and "curtime g < word_of_int DEFTLEN"
    and "\<forall>r \<in> set rs. agent_good r \<and> on_display g (agent_meaning r)"
  shows "\<exists>g'. feed now (map agent_emit rs) g = Some g' \<and>
    (\<forall>f i w en. 0 \<le> f \<longrightarrow> f < int (length (wins g)) \<longrightarrow> 0 \<le> i \<longrightarrow> i < DEFTLEN \<longrightarrow> 0 \<le> w \<longrightarrow> w < nsys g \<longrightarrow>
      sample (wins g') f (cell (nsys g) i w en) = sample (wins g) f (cell (nsys g) i w en) +
        (\<Sum>r\<leftarrow>rs. share (start g) f i w en (agent_meaning r)))"
  using assms by (rule agents.feed_adds)

text \<open>The same over a whole session of the grapher, for either collector.\<close>

context line_source
begin

lemma printed_lines_read:
  assumes "lines_of es = map emit rs" and "\<forall>r \<in> set rs. good r \<and> t0 \<le> tsec (meaning r)"
  shows "map (parse_line t0) (lines_of es) = map Some (map meaning rs)"
  using assms(2) read_back by (simp add: assms(1))

lemma session_adds_up:
  assumes "mwmg_main env args = Some (Inr \<sigma>0)"
    and "opts = mwmg_args (can_chdir env) args default_goptions"
    and "0 \<le> o_nsys opts" "o_nsys opts < 100000" and "o_gauge opts \<noteq> 0 \<or> o_interval opts = 1"
    and "length (wins (gr \<sigma>0)) \<le> 32" and "loop.allowed clock es \<sigma>0" and "ticks_in es < 1860"
    and "lines_of es = map emit rs" and "\<forall>r \<in> set rs. good r \<and> first_input es \<le> tsec (meaning r)"
  shows "\<exists>\<sigma>. fold_opt (handle clock) es \<sigma>0 = Some \<sigma> \<and>
    (\<forall>k t i e. k < length (wins (gr \<sigma>0)) \<longrightarrow> 0 \<le> t \<longrightarrow> t < DEFTLEN \<longrightarrow> 0 \<le> i \<longrightarrow> i < o_nsys opts \<longrightarrow>
      sample (wins (gr \<sigma>)) (int k) (cell (o_nsys opts) t i e) =
        untouched (debug_build env) k + (\<Sum>r\<leftarrow>rs. share (first_input es) (int k) t i e (meaning r)))"
proof -
  note run = mwmg_run [OF assms(1-7)]
  let ?d = "display_of \<sigma>0"
  have d: "origin_in ?d es = first_input es" "elapsed ?d = 0" "total ?d = fresh_total env opts (length (wins (gr \<sigma>0)))"
    by (simp_all add: run(2) origin_in_def)
  obtain \<sigma> where s: "fold_opt (handle clock) es \<sigma>0 = Some \<sigma>" "display_of \<sigma> = fold spec_step es ?d"
    "nsys (gr \<sigma>) = o_nsys opts" "length (wins (gr \<sigma>)) = length (wins (gr \<sigma>0))" using run(1,3) by metis
  have "total (fold spec_step es ?d) k t i e =
      total ?d k t i e + (\<Sum>p\<leftarrow>map meaning rs. point_share (origin_in ?d es) k t i e p)" for k t i e
    using assms(8) printed_lines_read [OF assms(9,10)] by (intro lines_add_up) (simp_all add: d)
  then have "total (fold spec_step es ?d) k t i e = fresh_total env opts (length (wins (gr \<sigma>0))) k t i e +
      (\<Sum>r\<leftarrow>rs. share (first_input es) (int k) t i e (meaning r))" for k t i e
    by (simp add: d comp_def point_share_def share_def)
  then show ?thesis using s display_run_sample [OF s(2)] by (intro exI [of _ \<sigma>]) (simp add: fresh_total_def)
qed

end

text \<open>C3: what \<open>recollect\<close> prints is what the grapher shows, from its start: however lines, ticks,
  buttons and resizes are interleaved, each sample is the sum of the values of the printed lines
  for its window, second, system and level (over the pattern a debugging build puts into the
  unused samples of the aggregate), and nothing undefined has happened. This holds within what
  the grapher takes: an interval of one second, or the gauge mode; at most 32 windows and fewer
  than 100000 systems; fewer than 1860 ticks; lines with a second within 31 bits and not before the first input; and only events
  the session allows, that is, lines of windows, systems and seconds it has, in a debugging build
  no input once the display is full, scales up to 4e9, and histories of 42 pixels or more.\<close>

theorem session_shows_collected:
  assumes "mwmg_main env args = Some (Inr \<sigma>0)"
    and "opts = mwmg_args (can_chdir env) args default_goptions"
    and "0 \<le> o_nsys opts" "o_nsys opts < 100000" and "o_gauge opts \<noteq> 0 \<or> o_interval opts = 1"
    and "length (wins (gr \<sigma>0)) \<le> 32" and "loop.allowed clock es \<sigma>0" and "ticks_in es < 1860"
    and "lines_of es = map agent_emit rs"
    and "\<forall>r \<in> set rs. agent_good r \<and> first_input es \<le> tsec (agent_meaning r)"
  shows "\<exists>\<sigma>. fold_opt (handle clock) es \<sigma>0 = Some \<sigma> \<and>
    (\<forall>k t i e. k < length (wins (gr \<sigma>0)) \<longrightarrow> 0 \<le> t \<longrightarrow> t < DEFTLEN \<longrightarrow> 0 \<le> i \<longrightarrow> i < o_nsys opts \<longrightarrow>
      sample (wins (gr \<sigma>)) (int k) (cell (o_nsys opts) t i e) =
        untouched (debug_build env) k + (\<Sum>r\<leftarrow>rs. share (first_input es) (int k) t i e (agent_meaning r)))"
  by (rule agents.session_adds_up [OF assms])

text \<open>C31: every line \<open>svcreqollect\<close> prints in a turn is read by the grapher as a count of the turn's
  second for one of its hosts, of the admitted requests at the primary and of the others at
  the secondary level; but for every window it is the count of the requests of no
  configured port.\<close>

theorem request_rows_read_back:
  assumes "l \<in> set (output_rows (s, u) np nh t)" and "0 \<le> s" "s < 2 ^ 31" "s0 \<le> s"
    and "nh < 2 ^ 31 - 1" "np < 2 ^ 31"
  shows "\<exists>p. parse_line s0 l = Some p \<and> tsec p = s \<and> 0 < who p \<and> who p \<le> int nh \<and>
    (Grapher.flow p = W_OTHER \<or> (\<exists>i. 0 < i \<and> i < np \<and> Grapher.flow p = int i + W_USER - 1)) \<and>
    incr p = (if encapped p then rejected t else accepted t) ! 0 ! nat (who p - 1)"
proof -
  from assms(1) obtain j b tag where j: "j < nh"
    and tag: "tag = ''X'' \<or> (\<exists>i. 0 < i \<and> i < np \<and> tag = show_nat i)"
    and l: "l = svc_row (s, u) j tag ((if b then rejected t else accepted t) ! 0 ! j) (lvl_text b)"
  proof -
    from assms(1) obtain tag where tag: "tag = ''X'' \<or> (\<exists>i. 0 < i \<and> i < np \<and> tag = show_nat i)"
      and "l \<in> set (host_rows (s, u) tag nh t)"
    proof -
      from assms(1) have "l \<in> set (host_rows (s, u) ''X'' nh t) \<or>
          (\<exists>i. 0 < i \<and> i < np \<and> l \<in> set (host_rows (s, u) (show_nat i) nh t))"
        by (auto simp: output_rows_def Suc_le_eq)
      with that show ?thesis by blast
    qed
    then obtain j where j: "j < nh" and "l = svc_row (s, u) j tag (accepted t ! 0 ! j) ''0'' \<or>
        l = svc_row (s, u) j tag (rejected t ! 0 ! j) ''1''"
      by (auto simp: host_rows_def)
    from this(2) have "\<exists>b. l = svc_row (s, u) j tag ((if b then rejected t else accepted t) ! 0 ! j) (lvl_text b)"
    proof
      assume "l = svc_row (s, u) j tag (accepted t ! 0 ! j) ''0''"
      then show ?thesis by (intro exI [of _ False]) (simp add: lvl_text_def)
    next
      assume "l = svc_row (s, u) j tag (rejected t ! 0 ! j) ''1''"
      then show ?thesis by (intro exI [of _ True]) (simp add: lvl_text_def)
    qed
    with that j tag show ?thesis by blast
  qed
  let ?r = "\<lparr>sl_tv = (s, u), sl_host = j, sl_tag = tag,
    sl_val = (if b then rejected t else accepted t) ! 0 ! j, sl_lvl = b\<rparr>"
  have good: "svc_good ?r" using assms(2,3,5) j tag by (auto simp: svc_good_def)
  have flow: "flow_window tag = W_OTHER \<or> (\<exists>i. 0 < i \<and> i < np \<and> flow_window tag = int i + W_USER - 1)"
    using tag assms(6) flow_window_number by auto
  have "parse_line s0 l = Some (svc_meaning ?r)"
    using requests.read_back [OF good] assms(4) by (simp add: svc_emit_def svc_meaning_def l)
  then show ?thesis using flow j by (simp add: svc_meaning_def)
qed

section \<open>Witnesses\<close>

theorem packet_reaches_display_witness:
  "\<exists>w' rows. consume Big [] (show_nat 7) 28 w' 0 = Some (0, rows, sec w') \<and>
    map (parse_line 0) rows = [Some \<lparr>tsec = 5, who = 7, flow = 4, incr = 304, encapped = False\<rparr>]"
proof -
  obtain w where w: "blast_parse Little (5, 6) sample_udp = Report w" using sample_udp_reported by blast
  obtain w' where w': "transfer Little Big w = Some w'" by (simp add: transfer_eq)
  have f: "frame_port sample_udp = 2000" "frame_total sample_udp = 38"
    by (simp_all add: frame_port_def frame_total_def sample_udp_def join2_def)
  have port: "\<not> is_cpu_report Big w'" "\<not> is_mem_report Big w'"
    using report_received(3) [OF w w'] by (auto simp: f is_cpu_report_def is_mem_report_def)
  have a: "(0 :: int) \<le> 5" "(5 :: int) < 2 ^ 31" "length ([] :: Flowconf.flow list) \<le> 32"
    "0 < (7 :: nat)" "(7 :: nat) < 2 ^ 31" by simp_all
  obtain rows where "consume Big [] (show_nat 7) 28 w' 0 = Some (0, rows, sec w')"
    and "map (parse_line 0) rows = map (\<lambda>(f, en). Some \<lparr>tsec = 5, who = int 7, flow = f,
      incr = of_nat (unat (frame_total sample_udp) * 8), encapped = en\<rparr>)
      (packet_windows [] (frame_port sample_udp) (frame_flow sample_udp))"
    using packet_reaches_display [OF w w' a(1,2) a(1) a(3) port a(4,5), of 0] by blast
  then show ?thesis
    by (intro exI [of _ w'] exI [of _ rows]) (simp add: packet_windows_def f W_OTHER_def)
qed

theorem cpu_report_chain_witness:
  "\<exists>w'. transfer Little Big (cpu_wire Little (5, 6) 0 [0, 0, 0, 0, 0, 0, 0, 0] [0, 0, 0, 0, 0, 0, 0, 0]) = Some w' \<and>
    \<not> is_cpu_report Big w'"
proof -
  let ?z = "[0, 0, 0, 0, 0, 0, 0, 0]"
  obtain w' where w': "transfer Little Big (cpu_wire Little (5, 6) 0 ?z ?z) = Some w'"
    by (simp add: transfer_eq)
  have a: "(0 :: int) \<le> 5" "(5 :: int) < 2 ^ 31" "0 < (7 :: nat)" "(7 :: nat) < 2 ^ 31" by simp_all
  show ?thesis using cpu_report_chain [OF w' a(1,2) a(1) a(3,4)] w' by auto
qed

theorem memory_report_chain_witness:
  "\<exists>w' r. consume Big [] (show_nat 7) 28 w' 0 = Some (0, [r], sec w') \<and>
    parse_line 0 r = Some \<lparr>tsec = 5, who = 7, flow = W_MEM, incr = 2 ^ 30, encapped = False\<rparr>"
proof -
  let ?w = "wire_zero\<lparr>sec := 5\<rparr>"
  obtain w' where w': "transfer Big Big (mem_wire Big 0x100000 ?w) = Some w'"
    by (simp add: transfer_eq)
  have a: "ntohl Big (sec ?w) = word_of_int 5" "(0 :: int) \<le> 5" "(5 :: int) < 2 ^ 31"
    "0 < (7 :: nat)" "(7 :: nat) < 2 ^ 31" by simp_all
  have q: "2 ^ 12 = unat (0x100000 :: u64) div 256 mod 2 ^ 16" by simp
  obtain r where "consume Big [] (show_nat 7) 28 w' 0 = Some (0, [r], sec w')"
    "parse_line 0 r = Some \<lparr>tsec = 5, who = int 7, flow = W_MEM, incr = of_nat (2 ^ 12 * 2 ^ 18), encapped = False\<rparr>"
    using memory_report_chain [OF w' a(1-3) a(2) a(4,5) q, of "[]" 0] by auto
  then show ?thesis by (intro exI [of _ w'] exI [of _ r]) simp
qed

definition sample_agent_line :: agent_line where
  "sample_agent_line = \<lparr>al_end = Big, al_wire = wire_zero\<lparr>sec := 105\<rparr>, al_who = 1, al_tag = ''X'',
     al_val = 800, al_lvl = False\<rparr>"

theorem collected_lines_add_up_witness:
  "\<exists>g'. feed 0 (map agent_emit [sample_agent_line, sample_agent_line]) sample_grapher = Some g' \<and>
    sample (wins g') 4 (cell 2 5 0 False) = 1600"
proof -
  have m: "agent_meaning sample_agent_line = \<lparr>tsec = 105, who = 1, flow = 4, incr = 800, encapped = False\<rparr>"
    by (simp add: agent_meaning_def sample_agent_line_def wire_zero_def W_OTHER_def)
  have h: "started sample_grapher" "curtime sample_grapher < word_of_int DEFTLEN"
    "\<forall>r \<in> set [sample_agent_line, sample_agent_line].
      agent_good r \<and> on_display sample_grapher (agent_meaning r)"
    by (simp_all add: m) (simp_all add: on_display_def sample_grapher_def DEFTLEN_def agent_good_def
        sample_agent_line_def wire_zero_def)
  have z: "sample (wins sample_grapher) 4 (cell 2 5 0 False) = 0"
    by (simp add: sample_def sample_grapher_def falloc_def cell_def DEFTLEN_def)
  have g: "grapher.nsys sample_grapher = 2" "int (length (wins sample_grapher)) = 5" "start sample_grapher = 100"
    by (simp_all add: sample_grapher_def)
  obtain g' where "feed 0 (map agent_emit [sample_agent_line, sample_agent_line]) sample_grapher = Some g'"
    and "sample (wins g') 4 (cell 2 5 0 False) = sample (wins sample_grapher) 4 (cell 2 5 0 False) +
        (\<Sum>r\<leftarrow>[sample_agent_line, sample_agent_line]. share 100 4 5 0 False (agent_meaning r))"
    using collected_lines_add_up [OF sample_grapher_ok h, of 0] unfolding g by (auto simp: DEFTLEN_def)
  then show ?thesis by (simp add: z m share_def)
qed

theorem session_shows_collected_witness:
  "\<exists>\<sigma>0 \<sigma>. mwmg_main Start.sample_env [] = Some (Inr \<sigma>0) \<and>
    fold_opt (handle (\<lambda>_. ''00:00'')) [Input 100 (Some (agent_emit sample_agent_line))] \<sigma>0 = Some \<sigma> \<and>
    sample (wins (gr \<sigma>)) 4 (cell 20 5 0 False) = 800"
proof -
  let ?l = "agent_emit sample_agent_line" and ?m = "agent_meaning sample_agent_line"
  have m: "?m = \<lparr>tsec = 105, who = 1, flow = 4, incr = 800, encapped = False\<rparr>"
    by (simp add: agent_meaning_def sample_agent_line_def wire_zero_def W_OTHER_def)
  have good: "agent_good sample_agent_line" by (simp add: agent_good_def sample_agent_line_def wire_zero_def)
  have p: "parse_line 100 ?l = Some ?m" using agents.read_back [OF good, of 100] m by simp
  obtain \<sigma>0 where s: "mwmg_main Start.sample_env [] = Some (Inr \<sigma>0)" "gr \<sigma>0 = sample_start" "\<not> quit \<sigma>0"
    using sample_main_starts by blast
  have "deliverable (Input 100 (Some ?l)) \<sigma>0"
    using s(2,3) p by (simp add: deliverable_def line_fits_def begin_graph_def sample_start_simps m DEFTLEN_def)
  then have a: "loop.allowed (\<lambda>_. ''00:00'') [Input 100 (Some ?l)] \<sigma>0" by (simp split: option.split)
  have n: "length (wins (gr \<sigma>0)) = 5" using s(2) sample_start_simps by simp
  have r: "lines_of [Input 100 (Some ?l)] = map agent_emit [sample_agent_line]" "ticks_in [Input 100 (Some ?l)] < 1860"
    "\<forall>r \<in> set [sample_agent_line]. agent_good r \<and> first_input [Input 100 (Some ?l)] \<le> tsec (agent_meaning r)"
    using good m by simp_all
  have n': "length (wins (gr \<sigma>0)) \<le> 32" using n by simp
  obtain \<sigma> where "fold_opt (handle (\<lambda>_. ''00:00'')) [Input 100 (Some ?l)] \<sigma>0 = Some \<sigma>"
    and v: "\<And>k t i e. k < 5 \<Longrightarrow> 0 \<le> t \<Longrightarrow> t < DEFTLEN \<Longrightarrow> 0 \<le> i \<Longrightarrow> i < 20 \<Longrightarrow>
      sample (wins (gr \<sigma>)) (int k) (cell 20 t i e) = untouched True k + share 100 (int k) t i e ?m"
    using session_shows_collected [OF s(1) sample_options(6,1-3) n' a r(2,1,3)] unfolding n sample_options(4) by (auto simp: sample_env_build)
  moreover have "sample (wins (gr \<sigma>)) (int 4) (cell 20 5 0 False) = untouched True 4 + share 100 (int 4) 5 0 False ?m"
    by (rule v) (simp_all add: DEFTLEN_def)
  ultimately show ?thesis using s(1) by (auto simp: m share_def untouched_def W_NET_def)
qed

theorem request_rows_read_back_witness:
  "\<exists>p. parse_line 0 (svc_row (100, 5) 0 ''X'' 0 ''0'') = Some p \<and> tsec p = 100"
proof -
  have "svc_row (100, 5) 0 ''X'' 0 ''0'' \<in> set (output_rows (100, 5) 2 1 (tally_init 2 1))"
    by (simp add: output_rows_def host_rows_def tally_init_def)
  from request_rows_read_back [OF this, of 0] show ?thesis by auto
qed

end
